theory Spec2Isabelle
  imports Main "HOL-Library.Char_ord" "HOL-Library.List_Lexorder"
begin

section \<open>Symbol naming\<close>

text \<open>
  \<^verbatim>\<open>std::string Z(int i)\<close> prints its argument in decimal, right-adjusted in a field
  of width 10 that is filled with the character 0. Indices and call counters are never
  negative in the program, so they are natural numbers here.
\<close>

definition digit_char :: "nat \<Rightarrow> char" where
  "digit_char d = char_of (48 + d)"

fun dec :: "nat \<Rightarrow> string" where
  "dec i = (if i < 10 then [digit_char i] else dec (i div 10) @ [digit_char (i mod 10)])"

declare dec.simps [simp del]

definition Z :: "nat \<Rightarrow> string" where
  "Z i = replicate (10 - length (dec i)) (CHR ''0'') @ dec i"

section \<open>The call counters\<close>

text \<open>
  Every generator kind has a static counter that \<open>expand\<close> increments; the counters are
  the only state of the library, so \<open>expand\<close> takes them and returns them updated.
\<close>

record counters =
  add_nbit_calls :: nat
  mul_nbit_calls :: nat
  lessthan_nbit_calls :: nat
  divmod_nbit_calls :: nat
  pow_nbit_calls :: nat
  powmod_nbit_calls :: nat
  or_condition_calls :: nat
  sum_nbit_calls :: nat
  product_nbit_calls :: nat
  fermat_calls :: nat
  fermat2_calls :: nat
  fermat3_calls :: nat
  isprime_calls :: nat
  iscomposite_calls :: nat

definition init_counters :: counters where
  "init_counters =
     \<lparr>add_nbit_calls = 0, mul_nbit_calls = 0, lessthan_nbit_calls = 0, divmod_nbit_calls = 0,
      pow_nbit_calls = 0, powmod_nbit_calls = 0, or_condition_calls = 0, sum_nbit_calls = 0,
      product_nbit_calls = 0, fermat_calls = 0, fermat2_calls = 0, fermat3_calls = 0,
      isprime_calls = 0, iscomposite_calls = 0\<rparr>"

text \<open>\<^verbatim>\<open>for (int i = 0; i < n; ++i)\<close> around a body that calls \<open>expand\<close>.\<close>

fun for_upto :: "(nat \<Rightarrow> counters \<Rightarrow> string list \<times> counters) \<Rightarrow> nat \<Rightarrow> counters \<Rightarrow> string list \<times> counters" where
  "for_upto body 0 st = ([], st)"
| "for_upto body (Suc k) st =
     (let (cs, st1) = for_upto body k st; (ds, st2) = body k st1 in (cs @ ds, st2))"


section \<open>Clauses as text, and what they mean\<close>

text \<open>
  The generators build every clause as a string: literals \<^verbatim>\<open><name>\<close> or
  \<^verbatim>\<open>-<name>\<close>, separated by blanks and closed by \<^verbatim>\<open>0\<close>. The finaliser finds
  the names with the regular expression \<^verbatim>\<open><[a-zA-Z0-9_]+>\<close> and replaces each match
  by a number, which leaves a minus sign in front of the match in place. The function
  \<open>scan\<close> is that regular-expression search (leftmost match, the longest run of name
  characters, then on from the end of the match); it also records whether the character
  in front of the match is the minus sign.
\<close>

definition name_char :: "char \<Rightarrow> bool" where
  "name_char c =
     ((CHR ''a'' \<le> c \<and> c \<le> CHR ''z'') \<or> (CHR ''A'' \<le> c \<and> c \<le> CHR ''Z'') \<or>
      (CHR ''0'' \<le> c \<and> c \<le> CHR ''9'') \<or> c = CHR ''_'')"

function scan :: "char \<Rightarrow> string \<Rightarrow> (bool \<times> string) list" where
  "scan p [] = []"
| "scan p (c # cs) =
     (if c = CHR ''<'' \<and> takeWhile name_char cs \<noteq> [] \<and>
         (case dropWhile name_char cs of [] \<Rightarrow> False | d # _ \<Rightarrow> d = CHR ''>'')
      then (p = CHR ''-'', takeWhile name_char cs) # scan (CHR ''>'') (tl (dropWhile name_char cs))
      else scan c cs)"
  by pat_completeness auto
termination
proof (relation "measure (\<lambda>(p, s). length s)")
  show "wf (measure (\<lambda>(p, s). length s))" by simp
next
  fix p :: char and c :: char and cs :: string
  have "length (tl (dropWhile name_char cs)) \<le> length cs"
    using length_dropWhile_le [of name_char cs] by simp
  then show "((CHR ''>'', tl (dropWhile name_char cs)), (p, c # cs)) \<in> measure (\<lambda>(p, s). length s)"
    by simp
next
  fix p :: char and c :: char and cs :: string
  show "((c, cs), (p, c # cs)) \<in> measure (\<lambda>(p, s). length s)"
    by simp
qed

declare scan.simps(2) [simp del]

definition clause_lits :: "string \<Rightarrow> (bool \<times> string) list" where
  "clause_lits s = scan (CHR '' '') s"

type_synonym assignment = "string \<Rightarrow> bool"

definition sat_clause :: "assignment \<Rightarrow> string \<Rightarrow> bool" where
  "sat_clause \<sigma> s = list_ex (\<lambda>(neg, x). \<sigma> x = (\<not> neg)) (clause_lits s)"

definition sat :: "assignment \<Rightarrow> string list \<Rightarrow> bool" where
  "sat \<sigma> cs = list_all (sat_clause \<sigma>) cs"

definition valid_name :: "string \<Rightarrow> bool" where
  "valid_name x = (x \<noteq> [] \<and> list_all name_char x)"

text \<open>The number that an assignment gives to the \<open>n\<close> bits \<open>x_0 \<dots> x_(n-1)\<close>, bit 0 least.\<close>

fun bv :: "(nat \<Rightarrow> bool) \<Rightarrow> nat \<Rightarrow> nat" where
  "bv f 0 = 0"
| "bv f (Suc n) = bv f n + (if f n then 2 ^ n else 0)"

definition val :: "assignment \<Rightarrow> string \<Rightarrow> nat \<Rightarrow> nat" where
  "val \<sigma> x n = bv (\<lambda>i. \<sigma> (x @ ''_'' @ Z i)) n"

text \<open>The bits of \<open>x\<close> are pinned to the number \<open>a\<close>.\<close>

definition pinned :: "assignment \<Rightarrow> string \<Rightarrow> nat \<Rightarrow> nat \<Rightarrow> bool" where
  "pinned \<sigma> x n a = list_all (\<lambda>i. \<sigma> (x @ ''_'' @ Z i) = bit a i) [0..<n]"


text \<open>The names a clause mentions, and the names a clause list mentions.\<close>

definition clause_names :: "string \<Rightarrow> string list" where
  "clause_names s = map snd (clause_lits s)"

definition names :: "string list \<Rightarrow> string list" where
  "names cs = concat (map clause_names cs)"

text \<open>The carry and the sum bit of a full adder.\<close>

definition maj3 :: "bool \<Rightarrow> bool \<Rightarrow> bool \<Rightarrow> bool" where
  "maj3 a b c = ((a \<and> b) \<or> (a \<and> c) \<or> (b \<and> c))"

definition xor3 :: "bool \<Rightarrow> bool \<Rightarrow> bool \<Rightarrow> bool" where
  "xor3 a b c = (a \<noteq> (b \<noteq> c))"

section \<open>Constants\<close>

text \<open>
  Both constant generators test \<^verbatim>\<open>((value >> i) & 1) == 1\<close> for \<open>i\<close> from 0 below the
  width \<open>n\<close>, with \<open>value\<close> and \<open>i\<close> of type \<open>int\<close> (32 bits). For \<open>i\<close> below 32 this is
  bit \<open>i\<close> of the value. C++ leaves a shift by 32 or more undefined; the shift instruction
  of x86-64, which the compiled program executes, takes the count modulo 32, so that bit
  \<open>i mod 32\<close> is tested. \<open>shifted_bit\<close> is that test.
\<close>

definition shifted_bit :: "int \<Rightarrow> nat \<Rightarrow> bool" where
  "shifted_bit v i = bit v (i mod 32)"

definition Input_Equals_Number :: "string \<Rightarrow> int \<Rightarrow> nat \<Rightarrow> string list" where
  "Input_Equals_Number input v n =
     map (\<lambda>i. if shifted_bit v i then ''<'' @ input @ ''_'' @ Z i @ ''> 0 ''
              else ''-<'' @ input @ ''_'' @ Z i @ ''> 0 '') [0..<n]"

definition Input_Not_Equals_Number :: "string \<Rightarrow> int \<Rightarrow> nat \<Rightarrow> string" where
  "Input_Not_Equals_Number input v n =
     concat (map (\<lambda>i. if shifted_bit v i then ''-<'' @ input @ ''_'' @ Z i @ ''> ''
                      else ''<'' @ input @ ''_'' @ Z i @ ''> '') [0..<n]) @ '' 0 ''"

section \<open>The one-bit adder\<close>

definition CarryOut_Equal_POPCNT_GREATER_THAN_2 :: "string \<Rightarrow> string \<Rightarrow> string \<Rightarrow> string \<Rightarrow> string list" where
  "CarryOut_Equal_POPCNT_GREATER_THAN_2 in_a in_b carry_in carry_out =
    [''-<'' @ in_a @ ''> -<'' @ in_b @ ''> -<'' @ carry_in @ ''>  <'' @ carry_out @ ''> 0 '',
     ''-<'' @ in_a @ ''> -<'' @ in_b @ ''>  <'' @ carry_in @ ''>  <'' @ carry_out @ ''> 0 '',
     ''-<'' @ in_a @ ''>  <'' @ in_b @ ''> -<'' @ carry_in @ ''>  <'' @ carry_out @ ''> 0 '',
     ''-<'' @ in_a @ ''>  <'' @ in_b @ ''>  <'' @ carry_in @ ''> -<'' @ carry_out @ ''> 0 '',
     '' <'' @ in_a @ ''> -<'' @ in_b @ ''> -<'' @ carry_in @ ''>  <'' @ carry_out @ ''> 0 '',
     '' <'' @ in_a @ ''> -<'' @ in_b @ ''>  <'' @ carry_in @ ''> -<'' @ carry_out @ ''> 0 '',
     '' <'' @ in_a @ ''>  <'' @ in_b @ ''> -<'' @ carry_in @ ''> -<'' @ carry_out @ ''> 0 '',
     '' <'' @ in_a @ ''>  <'' @ in_b @ ''>  <'' @ carry_in @ ''> -<'' @ carry_out @ ''> 0 '']"

definition Result_Equal_A_XOR_B_XOR_CarryIn :: "string \<Rightarrow> string \<Rightarrow> string \<Rightarrow> string \<Rightarrow> string list" where
  "Result_Equal_A_XOR_B_XOR_CarryIn in_a in_b carry_in result =
    [''-<'' @ in_a @ ''> -<'' @ in_b @ ''> -<'' @ carry_in @ ''>  <'' @ result @ ''> 0 '',
     ''-<'' @ in_a @ ''> -<'' @ in_b @ ''>  <'' @ carry_in @ ''> -<'' @ result @ ''> 0 '',
     ''-<'' @ in_a @ ''>  <'' @ in_b @ ''> -<'' @ carry_in @ ''> -<'' @ result @ ''> 0 '',
     ''-<'' @ in_a @ ''>  <'' @ in_b @ ''>  <'' @ carry_in @ ''>  <'' @ result @ ''> 0 '',
     '' <'' @ in_a @ ''> -<'' @ in_b @ ''> -<'' @ carry_in @ ''> -<'' @ result @ ''> 0 '',
     '' <'' @ in_a @ ''> -<'' @ in_b @ ''>  <'' @ carry_in @ ''>  <'' @ result @ ''> 0 '',
     '' <'' @ in_a @ ''>  <'' @ in_b @ ''> -<'' @ carry_in @ ''>  <'' @ result @ ''> 0 '',
     '' <'' @ in_a @ ''>  <'' @ in_b @ ''>  <'' @ carry_in @ ''> -<'' @ result @ ''> 0 '']"

definition Add_1Bit :: "string \<Rightarrow> string \<Rightarrow> string \<Rightarrow> string \<Rightarrow> string \<Rightarrow> string list" where
  "Add_1Bit in_a in_b carry_in result carry_out =
     CarryOut_Equal_POPCNT_GREATER_THAN_2 in_a in_b carry_in carry_out @
     Result_Equal_A_XOR_B_XOR_CarryIn in_a in_b carry_in result"

section \<open>The ripple-carry adder\<close>

definition Add_NBit :: "string \<Rightarrow> string \<Rightarrow> string \<Rightarrow> string \<Rightarrow> nat \<Rightarrow> counters \<Rightarrow> string list \<times> counters" where
  "Add_NBit in_a in_b result over_flow n st =
     (let call_count = add_nbit_calls st + 1 in
      ([''-<AddNBit_'' @ Z call_count @ ''_carry_out_'' @ Z 0 @ ''> 0 ''] @
       concat (map (\<lambda>i. Add_1Bit (in_a @ ''_'' @ Z i) (in_b @ ''_'' @ Z i)
                           (''AddNBit_'' @ Z call_count @ ''_carry_out_'' @ Z i)
                           (result @ ''_'' @ Z i)
                           (''AddNBit_'' @ Z call_count @ ''_carry_out_'' @ Z (i + 1))) [0..<n]) @
       [''-<'' @ over_flow @ ''>  <AddNBit_'' @ Z call_count @ ''_carry_out_'' @ Z n @ ''> 0 '',
        '' <'' @ over_flow @ ''> -<AddNBit_'' @ Z call_count @ ''_carry_out_'' @ Z n @ ''> 0 ''],
       st\<lparr>add_nbit_calls := call_count\<rparr>))"


section \<open>Multiplication\<close>

definition Mul_NBit_1Bit_Shift :: "string \<Rightarrow> string \<Rightarrow> string \<Rightarrow> nat \<Rightarrow> nat \<Rightarrow> string list" where
  "Mul_NBit_1Bit_Shift in_a in_b result shift n =
     map (\<lambda>i. ''-<'' @ result @ ''_'' @ Z i @ ''> 0 '') [0..<shift] @
     concat (map (\<lambda>i.
       ['' <'' @ result @ ''_'' @ Z (i + shift) @ ''> -<'' @ in_a @ ''_'' @ Z i @ ''> -<'' @ in_b @ ''> 0 '',
        ''-<'' @ result @ ''_'' @ Z (i + shift) @ ''> -<'' @ in_a @ ''_'' @ Z i @ ''>  <'' @ in_b @ ''> 0 '',
        ''-<'' @ result @ ''_'' @ Z (i + shift) @ ''>  <'' @ in_a @ ''_'' @ Z i @ ''> -<'' @ in_b @ ''> 0 '',
        ''-<'' @ result @ ''_'' @ Z (i + shift) @ ''>  <'' @ in_a @ ''_'' @ Z i @ ''>  <'' @ in_b @ ''> 0 ''])
       [0..<n]) @
     map (\<lambda>i. ''-<'' @ result @ ''_'' @ Z i @ ''> 0 '') [shift + n..<n * 2]"

definition Mul_NBit :: "string \<Rightarrow> string \<Rightarrow> string \<Rightarrow> string \<Rightarrow> nat \<Rightarrow> counters \<Rightarrow> string list \<times> counters" where
  "Mul_NBit in_a in_b result over_flow n st =
     (let call_count = mul_nbit_calls st + 1;
          st0 = st\<lparr>mul_nbit_calls := call_count\<rparr>;
          partial_products = concat (map (\<lambda>i.
            Mul_NBit_1Bit_Shift in_a (in_b @ ''_'' @ Z i)
              (''Mul_NBit_Accum1_'' @ Z call_count @ ''_'' @ Z i) i n) [0..<n]);
          accum_init = map (\<lambda>i.
            ''-<Mul_NBit_Accum2_'' @ Z call_count @ ''_'' @ Z 0 @ ''_'' @ Z i @ ''> 0 '') [0..<n * 2];
          (additions, st1) = for_upto (\<lambda>i.
            Add_NBit (''Mul_NBit_Accum1_'' @ Z call_count @ ''_'' @ Z i)
                     (''Mul_NBit_Accum2_'' @ Z call_count @ ''_'' @ Z i)
                     (''Mul_NBit_Accum2_'' @ Z call_count @ ''_'' @ Z (i + 1))
                     (''Mul_NBit_CarryOut_'' @ Z call_count @ ''_'' @ Z i)
                     (n * 2)) n st0;
          connect = concat (map (\<lambda>i.
            [''-<'' @ result @ ''_'' @ Z i @ ''>  <Mul_NBit_Accum2_'' @ Z call_count @ ''_'' @ Z n @ ''_'' @ Z i @ ''> 0 '',
             '' <'' @ result @ ''_'' @ Z i @ ''> -<Mul_NBit_Accum2_'' @ Z call_count @ ''_'' @ Z n @ ''_'' @ Z i @ ''> 0 ''])
            [0..<n]);
          overflow_clause = ''-<'' @ over_flow @ ''> '' @
            concat (map (\<lambda>i. '' <Mul_NBit_Accum2_'' @ Z call_count @ ''_'' @ Z n @ ''_'' @ Z (i + n) @ ''> '') [0..<n]) @
            '' 0 '';
          overflow_back = map (\<lambda>i.
            ''<'' @ over_flow @ ''>  -<Mul_NBit_Accum2_'' @ Z call_count @ ''_'' @ Z n @ ''_'' @ Z (i + n) @ ''> 0 '') [0..<n]
      in (partial_products @ accum_init @ additions @ connect @ [overflow_clause] @ overflow_back, st1))"

definition Mul_NBit_1Bit :: "string \<Rightarrow> string \<Rightarrow> string \<Rightarrow> nat \<Rightarrow> string list" where
  "Mul_NBit_1Bit in_a in_b result n =
     concat (map (\<lambda>i.
       ['' <'' @ result @ ''_'' @ Z i @ ''> -<'' @ in_a @ ''_'' @ Z i @ ''> -<'' @ in_b @ ''> 0 '',
        ''-<'' @ result @ ''_'' @ Z i @ ''> -<'' @ in_a @ ''_'' @ Z i @ ''>  <'' @ in_b @ ''> 0 '',
        ''-<'' @ result @ ''_'' @ Z i @ ''>  <'' @ in_a @ ''_'' @ Z i @ ''> -<'' @ in_b @ ''> 0 '',
        ''-<'' @ result @ ''_'' @ Z i @ ''>  <'' @ in_a @ ''_'' @ Z i @ ''>  <'' @ in_b @ ''> 0 ''])
       [0..<n])"

section \<open>One-bit gates\<close>

definition And_1Bit :: "string \<Rightarrow> string \<Rightarrow> string \<Rightarrow> string list" where
  "And_1Bit in_a in_b result =
    ['' <'' @ in_a @ ''>  <'' @ in_b @ ''> -<'' @ result @ ''> 0 '',
     '' <'' @ in_a @ ''> -<'' @ in_b @ ''> -<'' @ result @ ''> 0 '',
     ''-<'' @ in_a @ ''>  <'' @ in_b @ ''> -<'' @ result @ ''> 0 '',
     ''-<'' @ in_a @ ''> -<'' @ in_b @ ''>  <'' @ result @ ''> 0 '']"

definition LessThan_1Bit :: "string \<Rightarrow> string \<Rightarrow> string \<Rightarrow> string list" where
  "LessThan_1Bit in_a in_b result =
    ['' <'' @ in_a @ ''>  <'' @ in_b @ ''> -<'' @ result @ ''> 0 '',
     '' <'' @ in_a @ ''> -<'' @ in_b @ ''>  <'' @ result @ ''> 0 '',
     ''-<'' @ in_a @ ''>  <'' @ in_b @ ''> -<'' @ result @ ''> 0 '',
     ''-<'' @ in_a @ ''> -<'' @ in_b @ ''> -<'' @ result @ ''> 0 '']"

definition Equals_1Bit :: "string \<Rightarrow> string \<Rightarrow> string \<Rightarrow> string list" where
  "Equals_1Bit in_a in_b result =
    ['' <'' @ in_a @ ''>  <'' @ in_b @ ''>  <'' @ result @ ''> 0 '',
     '' <'' @ in_a @ ''> -<'' @ in_b @ ''> -<'' @ result @ ''> 0 '',
     ''-<'' @ in_a @ ''>  <'' @ in_b @ ''> -<'' @ result @ ''> 0 '',
     ''-<'' @ in_a @ ''> -<'' @ in_b @ ''>  <'' @ result @ ''> 0 '']"

definition If_Cond_A_Else_B_1Bit :: "string \<Rightarrow> string \<Rightarrow> string \<Rightarrow> string \<Rightarrow> string list" where
  "If_Cond_A_Else_B_1Bit in_a in_b cond result =
    [''-<'' @ cond @ ''> -<'' @ in_a @ ''>  <'' @ result @ ''> 0 '',
     ''-<'' @ cond @ ''>  <'' @ in_a @ ''> -<'' @ result @ ''> 0 '',
     '' <'' @ cond @ ''> -<'' @ in_b @ ''>  <'' @ result @ ''> 0 '',
     '' <'' @ cond @ ''>  <'' @ in_b @ ''> -<'' @ result @ ''> 0 '']"

definition Or_1Bit :: "string \<Rightarrow> string \<Rightarrow> string \<Rightarrow> string list" where
  "Or_1Bit in_a in_b result =
    [''-<'' @ in_a @ ''> -<'' @ in_b @ ''>  <'' @ result @ ''> 0 '',
     ''-<'' @ in_a @ ''>  <'' @ in_b @ ''>  <'' @ result @ ''> 0 '',
     '' <'' @ in_a @ ''> -<'' @ in_b @ ''>  <'' @ result @ ''> 0 '',
     '' <'' @ in_a @ ''>  <'' @ in_b @ ''> -<'' @ result @ ''> 0 '']"

section \<open>Comparison\<close>

definition Equals_NBit :: "string \<Rightarrow> string \<Rightarrow> nat \<Rightarrow> string list" where
  "Equals_NBit in_a in_b n =
     concat (map (\<lambda>i.
       [''-<'' @ in_a @ ''_'' @ Z i @ ''>  <'' @ in_b @ ''_'' @ Z i @ ''> 0 '',
        '' <'' @ in_a @ ''_'' @ Z i @ ''> -<'' @ in_b @ ''_'' @ Z i @ ''> 0 '']) [0..<n])"

definition LessThan_NBit :: "string \<Rightarrow> string \<Rightarrow> nat \<Rightarrow> counters \<Rightarrow> string list \<times> counters" where
  "LessThan_NBit in_a in_b n st =
     (let call_count = lessthan_nbit_calls st + 1 in
      (concat (map (\<lambda>i. Equals_1Bit (in_a @ ''_'' @ Z i) (in_b @ ''_'' @ Z i)
                      (''LessThan_NBit_Equals_'' @ Z call_count @ ''_'' @ Z i)) [0..<n]) @
       concat (map (\<lambda>i. LessThan_1Bit (in_a @ ''_'' @ Z i) (in_b @ ''_'' @ Z i)
                      (''LessThan_NBit_Less_'' @ Z call_count @ ''_'' @ Z i)) [0..<n]) @
       [''<LessThan_NBit_EqualAccum_'' @ Z call_count @ ''_'' @ Z n @ ''> 0 ''] @
       concat (map (\<lambda>i. And_1Bit (''LessThan_NBit_EqualAccum_'' @ Z call_count @ ''_'' @ Z (i + 1))
                      (''LessThan_NBit_Equals_'' @ Z call_count @ ''_'' @ Z i)
                      (''LessThan_NBit_EqualAccum_'' @ Z call_count @ ''_'' @ Z i)) [0..<n]) @
       concat (map (\<lambda>i. And_1Bit (''LessThan_NBit_EqualAccum_'' @ Z call_count @ ''_'' @ Z (i + 1))
                      (''LessThan_NBit_Less_'' @ Z call_count @ ''_'' @ Z i)
                      (''LessThan_NBit_Result_'' @ Z call_count @ ''_'' @ Z i)) [0..<n]) @
       [concat (map (\<lambda>i. '' <LessThan_NBit_Result_'' @ Z call_count @ ''_'' @ Z i @ ''> '') [0..<n]) @ '' 0 ''],
       st\<lparr>lessthan_nbit_calls := call_count\<rparr>))"

section \<open>Division with remainder\<close>

definition DivMod_NBit :: "string \<Rightarrow> string \<Rightarrow> string \<Rightarrow> string \<Rightarrow> nat \<Rightarrow> counters \<Rightarrow> string list \<times> counters" where
  "DivMod_NBit in_a in_b div_name mod_name n st =
     (let call_count = divmod_nbit_calls st + 1;
          st0 = st\<lparr>divmod_nbit_calls := call_count\<rparr>;
          (mul_clauses, st1) = Mul_NBit in_b div_name (''DivMod_NBit_Accum_'' @ Z call_count)
                                 (''DivMode_NBit_MulOverflow_'' @ Z call_count) n st0;
          (add_clauses, st2) = Add_NBit (''DivMod_NBit_Accum_'' @ Z call_count) mod_name in_a
                                 (''DivMode_NBit_AddOverflow_'' @ Z call_count) n st1;
          (less_than_clauses, st3) = LessThan_NBit mod_name in_b n st2
      in (mul_clauses @ add_clauses @
          [''-<DivMode_NBit_MulOverflow_'' @ Z call_count @ ''> 0 '',
           ''-<DivMode_NBit_AddOverflow_'' @ Z call_count @ ''> 0 ''] @
          less_than_clauses, st3))"

section \<open>Selection and disjunction of bits\<close>

definition If_Cond_A_Else_B_NBit :: "string \<Rightarrow> string \<Rightarrow> string \<Rightarrow> string \<Rightarrow> nat \<Rightarrow> string list" where
  "If_Cond_A_Else_B_NBit in_a in_b cond result n =
     concat (map (\<lambda>i. If_Cond_A_Else_B_1Bit (in_a @ ''_'' @ Z i) (in_b @ ''_'' @ Z i) cond
                     (result @ ''_'' @ Z i)) [0..<n])"

definition Or_NBit_To_1Bit :: "string \<Rightarrow> string \<Rightarrow> nat \<Rightarrow> string list" where
  "Or_NBit_To_1Bit in_a result n =
     [''-<'' @ result @ ''> '' @ concat (map (\<lambda>i. '' <'' @ in_a @ ''_'' @ Z i @ ''> '') [0..<n]) @ '' 0 ''] @
     map (\<lambda>i. ''<'' @ result @ ''> -<'' @ in_a @ ''_'' @ Z i @ ''> 0 '') [0..<n]"

section \<open>Exponentiation\<close>

definition Pow_NBit :: "string \<Rightarrow> string \<Rightarrow> string \<Rightarrow> string \<Rightarrow> nat \<Rightarrow> counters \<Rightarrow> string list \<times> counters" where
  "Pow_NBit in_a in_b result over_flow n st =
     (let call_count = pow_nbit_calls st + 1;
          st0 = st\<lparr>pow_nbit_calls := call_count\<rparr>;
          equals_clauses = Equals_NBit (''Pow_NBit_Temp1_'' @ Z call_count @ ''_'' @ Z 0) in_a n;
          (squarings, st1) = for_upto (\<lambda>i.
            Mul_NBit (''Pow_NBit_Temp1_'' @ Z call_count @ ''_'' @ Z i)
                     (''Pow_NBit_Temp1_'' @ Z call_count @ ''_'' @ Z i)
                     (''Pow_NBit_Temp1_'' @ Z call_count @ ''_'' @ Z (i + 1))
                     (''Pow_NBit_Temp1Overflow_'' @ Z call_count @ ''_'' @ Z i) n) n st0;
          selections = concat (map (\<lambda>i.
            If_Cond_A_Else_B_NBit (''Pow_NBit_Temp1_'' @ Z call_count @ ''_'' @ Z i)
                                  (''One_NBit_'' @ Z n)
                                  (in_b @ ''_'' @ Z i)
                                  (''Pow_NBit_Temp2_'' @ Z call_count @ ''_'' @ Z i) n) [0..<n]);
          input_clauses = Input_Equals_Number (''Pow_NBit_PowAccum_'' @ Z call_count @ ''_'' @ Z 0) 1 n;
          (accumulations, st2) = for_upto (\<lambda>i.
            Mul_NBit (''Pow_NBit_Temp2_'' @ Z call_count @ ''_'' @ Z i)
                     (''Pow_NBit_PowAccum_'' @ Z call_count @ ''_'' @ Z i)
                     (''Pow_NBit_PowAccum_'' @ Z call_count @ ''_'' @ Z (i + 1))
                     (''Pow_NBit_PowAccumOverflow_'' @ Z call_count @ ''_'' @ Z i) n) n st1;
          result_clauses = Equals_NBit result (''Pow_NBit_PowAccum_'' @ Z call_count @ ''_'' @ Z n) n;
          overflow_init = [''-<Pow_NBit_PowAccumOverflowAccum_'' @ Z call_count @ ''_'' @ Z 0 @ ''> 0 ''];
          overflow_accum = concat (map (\<lambda>i.
            Or_1Bit (''Pow_NBit_PowAccumOverflowAccum_'' @ Z call_count @ ''_'' @ Z i)
                    (''Pow_NBit_Temp1Overflow_'' @ Z call_count @ ''_'' @ Z i)
                    (''Pow_NBit_PowAccumOverflowAccum_'' @ Z call_count @ ''_'' @ Z (i + 1))) [0..<n]);
          overflow_temp = concat (map (\<lambda>i.
            If_Cond_A_Else_B_1Bit (''Pow_NBit_PowAccumOverflowAccum_'' @ Z call_count @ ''_'' @ Z (i + 1))
                                  (''Zero_1Bit_'' @ Z 1)
                                  (in_b @ ''_'' @ Z (i + 1))
                                  (''Pow_NBit_OverflowTemp_'' @ Z call_count @ ''_'' @ Z i)) [0..<n]);
          or_clauses = Or_NBit_To_1Bit (''Pow_NBit_PowAccumOverflow_'' @ Z call_count)
                                       (''Pow_NBit_PowAccumOverflow_OR_'' @ Z call_count) n;
          or_temp_clauses = Or_NBit_To_1Bit (''Pow_NBit_OverflowTemp_'' @ Z call_count)
                                            (''Pow_NBit_OverflowTemp_OR_'' @ Z call_count) n;
          final_or_clauses = Or_1Bit (''Pow_NBit_PowAccumOverflow_OR_'' @ Z call_count)
                                     (''Pow_NBit_OverflowTemp_OR_'' @ Z call_count) over_flow
      in (equals_clauses @ squarings @ selections @ input_clauses @ accumulations @ result_clauses @
          overflow_init @ overflow_accum @ overflow_temp @ or_clauses @ or_temp_clauses @
          final_or_clauses, st2))"

definition DoubleSize_Assign :: "string \<Rightarrow> string \<Rightarrow> nat \<Rightarrow> string list" where
  "DoubleSize_Assign in_a result n =
     Equals_NBit in_a result n @
     map (\<lambda>i. ''-<'' @ result @ ''_'' @ Z i @ ''> 0 '') [n..<n * 2]"

text \<open>The body of the loop of \<open>PowMod_NBit::expand\<close> over the bits of the exponent.\<close>

definition PowMod_step :: "nat \<Rightarrow> nat \<Rightarrow> nat \<Rightarrow> counters \<Rightarrow> string list \<times> counters" where
  "PowMod_step call_count n i st =
     (let bit_factor_clauses =
            If_Cond_A_Else_B_NBit (''PowMod_NBit_CurrentPow_'' @ Z call_count @ ''_'' @ Z i)
                                  (''One_NBit_'' @ Z (n * 2))
                                  (''PowMod_NBit_Exp_DoubleSize_'' @ Z call_count @ ''_'' @ Z i)
                                  (''PowMod_NBit_BitFactor_'' @ Z call_count @ ''_'' @ Z i) (n * 2);
          (multipled_clauses, st1) =
            Mul_NBit (''PowMod_NBit_PartialResult_'' @ Z call_count @ ''_'' @ Z i)
                     (''PowMod_NBit_BitFactor_'' @ Z call_count @ ''_'' @ Z i)
                     (''PowMod_NBit_Multipled_'' @ Z call_count @ ''_'' @ Z i)
                     (''PowMod_NBit_MultipledOverflow_'' @ Z call_count @ ''_'' @ Z i) (n * 2) st;
          (divmod_clauses, st2) =
            DivMod_NBit (''PowMod_NBit_Multipled_'' @ Z call_count @ ''_'' @ Z i)
                        (''PowMod_NBit_Mod_DoubleSize_'' @ Z call_count)
                        (''PowMod_NBit_Div1_'' @ Z call_count @ ''_'' @ Z i)
                        (''PowMod_NBit_PartialResult_'' @ Z call_count @ ''_'' @ Z (i + 1)) (n * 2) st1;
          (square_clauses, st3) =
            Mul_NBit (''PowMod_NBit_CurrentPow_'' @ Z call_count @ ''_'' @ Z i)
                     (''PowMod_NBit_CurrentPow_'' @ Z call_count @ ''_'' @ Z i)
                     (''PowMod_NBit_SquareBase_'' @ Z call_count @ ''_'' @ Z i)
                     (''PowMod_NBit_SquareBaseOverflow_'' @ Z call_count @ ''_'' @ Z i) (n * 2) st2;
          (current_pow_next_clauses, st4) =
            DivMod_NBit (''PowMod_NBit_SquareBase_'' @ Z call_count @ ''_'' @ Z i)
                        (''PowMod_NBit_Mod_DoubleSize_'' @ Z call_count)
                        (''PowMod_NBit_Div2_'' @ Z call_count @ ''_'' @ Z i)
                        (''PowMod_NBit_CurrentPow_'' @ Z call_count @ ''_'' @ Z (i + 1)) (n * 2) st3
      in (bit_factor_clauses @ multipled_clauses @ divmod_clauses @ square_clauses @
          current_pow_next_clauses, st4))"

definition PowMod_NBit :: "string \<Rightarrow> string \<Rightarrow> string \<Rightarrow> string \<Rightarrow> nat \<Rightarrow> counters \<Rightarrow> string list \<times> counters" where
  "PowMod_NBit base exp mod_name result n st =
     (let call_count = powmod_nbit_calls st + 1;
          st0 = st\<lparr>powmod_nbit_calls := call_count\<rparr>;
          base_double_clauses = DoubleSize_Assign base (''PowMod_NBit_Base_DoubleSize_'' @ Z call_count) n;
          exp_double_clauses = DoubleSize_Assign exp (''PowMod_NBit_Exp_DoubleSize_'' @ Z call_count) n;
          mod_double_clauses = DoubleSize_Assign mod_name (''PowMod_NBit_Mod_DoubleSize_'' @ Z call_count) n;
          init_clauses = Input_Equals_Number (''PowMod_NBit_PartialResult_'' @ Z call_count @ ''_'' @ Z 0) 1 (n * 2);
          current_pow_clauses = Equals_NBit (''PowMod_NBit_CurrentPow_'' @ Z call_count @ ''_'' @ Z 0)
                                            (''PowMod_NBit_Base_DoubleSize_'' @ Z call_count) (n * 2);
          (loop_clauses, st1) = for_upto (PowMod_step call_count n) n st0;
          result_clauses = Equals_NBit result (''PowMod_NBit_PartialResult_'' @ Z call_count @ ''_'' @ Z n) n
      in (base_double_clauses @ exp_double_clauses @ mod_double_clauses @ init_clauses @
          current_pow_clauses @ loop_clauses @ result_clauses, st1))"

section \<open>Combining clause lists\<close>

definition AddLiteralToCondition :: "string \<Rightarrow> string list \<Rightarrow> string list" where
  "AddLiteralToCondition literal condition = map (\<lambda>clause. literal @ '' '' @ clause) condition"

definition Or_Condition :: "string list \<Rightarrow> string list \<Rightarrow> counters \<Rightarrow> string list \<times> counters" where
  "Or_Condition condition1 condition2 st =
     (let call_count = or_condition_calls st + 1;
          or_literal = ''<Or_Condition_'' @ Z call_count @ ''>'';
          negated_literal = ''-'' @ or_literal
      in (AddLiteralToCondition or_literal condition1 @ AddLiteralToCondition negated_literal condition2,
          st\<lparr>or_condition_calls := call_count\<rparr>))"

definition And_Condition :: "string list \<Rightarrow> string list \<Rightarrow> string list" where
  "And_Condition condition1 condition2 = condition1 @ condition2"

section \<open>Sums and products of several numbers\<close>

definition Sum_NBit :: "string \<Rightarrow> string \<Rightarrow> string \<Rightarrow> nat \<Rightarrow> nat \<Rightarrow> counters \<Rightarrow> string list \<times> counters" where
  "Sum_NBit input output overflow data_count bits st =
     (let call_count = sum_nbit_calls st + 1;
          st0 = st\<lparr>sum_nbit_calls := call_count\<rparr>;
          init_clauses = Input_Equals_Number (''Sum_NBit_Accum_'' @ Z call_count @ ''_'' @ Z 0) 0 bits;
          (add_clauses, st1) = for_upto (\<lambda>i.
            Add_NBit (input @ ''_'' @ Z i)
                     (''Sum_NBit_Accum_'' @ Z call_count @ ''_'' @ Z i)
                     (''Sum_NBit_Accum_'' @ Z call_count @ ''_'' @ Z (i + 1))
                     (''Sum_NBit_Overflow_'' @ Z call_count @ ''_'' @ Z i) bits) data_count st0;
          equals_clauses = Equals_NBit output (''Sum_NBit_Accum_'' @ Z call_count @ ''_'' @ Z data_count) bits;
          or_clauses = Or_NBit_To_1Bit (''Sum_NBit_Overflow_'' @ Z call_count) overflow data_count
      in (init_clauses @ add_clauses @ equals_clauses @ or_clauses, st1))"

definition Product_NBit :: "string \<Rightarrow> string \<Rightarrow> string \<Rightarrow> nat \<Rightarrow> nat \<Rightarrow> counters \<Rightarrow> string list \<times> counters" where
  "Product_NBit input output overflow data_count bits st =
     (let call_count = product_nbit_calls st + 1;
          st0 = st\<lparr>product_nbit_calls := call_count\<rparr>;
          init_clauses = Input_Equals_Number (''Product_NBit_Accum_'' @ Z call_count @ ''_'' @ Z 0) 1 bits;
          (mul_clauses, st1) = for_upto (\<lambda>i.
            Mul_NBit (input @ ''_'' @ Z i)
                     (''Product_NBit_Accum_'' @ Z call_count @ ''_'' @ Z i)
                     (''Product_NBit_Accum_'' @ Z call_count @ ''_'' @ Z (i + 1))
                     (''Product_NBit_Overflow_'' @ Z call_count @ ''_'' @ Z i) bits) data_count st0;
          equals_clauses = Equals_NBit output (''Product_NBit_Accum_'' @ Z call_count @ ''_'' @ Z data_count) bits;
          or_clauses = Or_NBit_To_1Bit (''Product_NBit_Overflow_'' @ Z call_count) overflow data_count
      in (init_clauses @ mul_clauses @ equals_clauses @ or_clauses, st1))"

section \<open>Fermat tests\<close>

definition FermatTest :: "string \<Rightarrow> string \<Rightarrow> string \<Rightarrow> nat \<Rightarrow> counters \<Rightarrow> string list \<times> counters" where
  "FermatTest generator pow mod_name n st =
     (let call_count = fermat_calls st + 1;
          st0 = st\<lparr>fermat_calls := call_count\<rparr>;
          gen_not_zero_clause = Input_Not_Equals_Number generator 0 n;
          gen_not_one_clause = Input_Not_Equals_Number generator 1 n;
          (powmod_clauses, st1) = PowMod_NBit generator pow mod_name (''FermatTest_'' @ Z call_count) n st0;
          result_equals_one_clauses = Input_Equals_Number (''FermatTest_'' @ Z call_count) 1 n
      in ([gen_not_zero_clause, gen_not_one_clause] @ powmod_clauses @ result_equals_one_clauses, st1))"

definition FermatTest2 :: "string \<Rightarrow> string \<Rightarrow> nat \<Rightarrow> counters \<Rightarrow> string list \<times> counters" where
  "FermatTest2 generator prime n st =
     (let call_count = fermat2_calls st + 1;
          st0 = st\<lparr>fermat2_calls := call_count\<rparr>;
          (add_clauses, st1) = Add_NBit (''FermatTest2_Prime_Minus1_'' @ Z call_count)
                                        (''One_NBit_'' @ Z n) prime
                                        (''FermatTest2_Prime_Minus1_Overflow_'' @ Z call_count) n st0;
          (fermat_clauses, st2) = FermatTest generator (''FermatTest2_Prime_Minus1_'' @ Z call_count) prime n st1
      in (add_clauses @ [''-<FermatTest2_Prime_Minus1_Overflow_'' @ Z call_count @ ''> 0 ''] @
          fermat_clauses, st2))"

definition FermatTest3 :: "string \<Rightarrow> string \<Rightarrow> string \<Rightarrow> nat \<Rightarrow> counters \<Rightarrow> string list \<times> counters" where
  "FermatTest3 generator pow mod_name n st =
     (let call_count = fermat3_calls st + 1;
          st0 = st\<lparr>fermat3_calls := call_count\<rparr>;
          gen_not_zero_clause = Input_Not_Equals_Number generator 0 n;
          gen_not_one_clause = Input_Not_Equals_Number generator 1 n;
          (powmod_clauses, st1) = PowMod_NBit generator pow mod_name (''FermatTest3_'' @ Z call_count) n st0;
          result_not_one_clause = Input_Not_Equals_Number (''FermatTest3_'' @ Z call_count) 1 n
      in ([gen_not_zero_clause, gen_not_one_clause] @ powmod_clauses @ [result_not_one_clause], st1))"

section \<open>The primality certificate\<close>

text \<open>
  \<open>IsPrime::expand\<close> is a sequence of loops over the candidate primes. The three loop
  bodies that build nested disjunctions are written as functions of their own; the others
  stand in \<open>IsPrime\<close> as they do in the source.

  In the loop over the factor tests, \<^verbatim>\<open>Or_Condition outer_or(inner_or1.expand(), inner_or2.expand())\<close>
  has two arguments that both take a selector number. C++ does not fix the order in which
  the arguments of a call are evaluated; the program as g++ compiles it evaluates the last
  argument first, so \<open>inner_or2\<close> takes the smaller number, and so it does here.
\<close>

definition IsPrime_base_or_product :: "nat \<Rightarrow> nat \<Rightarrow> nat \<Rightarrow> counters \<Rightarrow> string list \<times> counters" where
  "IsPrime_base_or_product call_count n i st =
     (let prime_equals_2 = Input_Equals_Number (''IsPrime_Prime_'' @ Z call_count @ ''_'' @ Z i) 2 n;
          prime_equals_3 = Input_Equals_Number (''IsPrime_Prime_'' @ Z call_count @ ''_'' @ Z i) 3 n;
          (less_than_clauses, st1) =
            LessThan_NBit (''One_NBit_'' @ Z n) (''IsPrime_SumPow_'' @ Z call_count @ ''_'' @ Z i) n st;
          equals_clauses = Equals_NBit (''IsPrime_Product_Plus1_'' @ Z call_count @ ''_'' @ Z i)
                                       (''IsPrime_Prime_'' @ Z call_count @ ''_'' @ Z i) n;
          (inner_or, st2) = Or_Condition prime_equals_2 prime_equals_3 st1;
          inner_and = And_Condition less_than_clauses equals_clauses;
          (outer_clauses, st3) = Or_Condition inner_or inner_and st2
      in (outer_clauses, st3))"

definition IsPrime_factor_test :: "nat \<Rightarrow> nat \<Rightarrow> nat \<Rightarrow> nat \<Rightarrow> counters \<Rightarrow> string list \<times> counters" where
  "IsPrime_factor_test call_count n i j st =
     (let (fermat_clauses, st1) =
            FermatTest3 (''IsPrime_Generator_'' @ Z call_count @ ''_'' @ Z i)
                        (''IsPrime_Div_'' @ Z call_count @ ''_'' @ Z i @ ''_'' @ Z j)
                        (''IsPrime_Prime_'' @ Z call_count @ ''_'' @ Z i) n st;
          pow_zero = Input_Equals_Number (''IsPrime_Pow_'' @ Z call_count @ ''_'' @ Z i @ ''_'' @ Z j) 0 n;
          prime_equals_2 = Input_Equals_Number (''IsPrime_Prime_'' @ Z call_count @ ''_'' @ Z i) 2 n;
          prime_equals_3 = Input_Equals_Number (''IsPrime_Prime_'' @ Z call_count @ ''_'' @ Z i) 3 n;
          (inner_or2, st2) = Or_Condition prime_equals_2 prime_equals_3 st1;
          (inner_or1, st3) = Or_Condition fermat_clauses pow_zero st2;
          (outer_clauses, st4) = Or_Condition inner_or1 inner_or2 st3
      in (outer_clauses, st4))"

definition IsPrime_full_test :: "nat \<Rightarrow> nat \<Rightarrow> nat \<Rightarrow> counters \<Rightarrow> string list \<times> counters" where
  "IsPrime_full_test call_count n i st =
     (let (fermat_clauses, st1) =
            FermatTest2 (''IsPrime_Generator_'' @ Z call_count @ ''_'' @ Z i)
                        (''IsPrime_Prime_'' @ Z call_count @ ''_'' @ Z i) n st;
          prime_equals_2 = Input_Equals_Number (''IsPrime_Prime_'' @ Z call_count @ ''_'' @ Z i) 2 n;
          prime_equals_3 = Input_Equals_Number (''IsPrime_Prime_'' @ Z call_count @ ''_'' @ Z i) 3 n;
          (inner_or, st2) = Or_Condition prime_equals_2 prime_equals_3 st1;
          (outer_clauses, st3) = Or_Condition fermat_clauses inner_or st2
      in (outer_clauses, st3))"

definition IsPrime :: "string \<Rightarrow> nat \<Rightarrow> int \<Rightarrow> counters \<Rightarrow> string list \<times> counters" where
  "IsPrime target n num_prime_arg st =
     (let num_prime = (if num_prime_arg = - 1 then n else nat num_prime_arg);
          call_count = isprime_calls st + 1;
          st0 = st\<lparr>isprime_calls := call_count\<rparr>;
          not_zero = map (\<lambda>i.
            Input_Not_Equals_Number (''IsPrime_Prime_'' @ Z call_count @ ''_'' @ Z i) 0 n) [0..<num_prime];
          not_one = map (\<lambda>i.
            Input_Not_Equals_Number (''IsPrime_Prime_'' @ Z call_count @ ''_'' @ Z i) 1 n) [0..<num_prime];
          (pow_clauses, st1) = for_upto (\<lambda>i. for_upto (\<lambda>j.
            Pow_NBit (''IsPrime_Prime_'' @ Z call_count @ ''_'' @ Z j)
                     (''IsPrime_Pow_'' @ Z call_count @ ''_'' @ Z i @ ''_'' @ Z j)
                     (''IsPrime_PowTemp_'' @ Z call_count @ ''_'' @ Z i @ ''_'' @ Z j)
                     (''IsPrime_PowTemp_Overflow_'' @ Z call_count @ ''_'' @ Z i @ ''_'' @ Z j) n)
            num_prime) num_prime st0;
          powtemp_no_overflow = concat (map (\<lambda>i. map (\<lambda>j.
            ''-<IsPrime_PowTemp_Overflow_'' @ Z call_count @ ''_'' @ Z i @ ''_'' @ Z j @ ''> 0 '')
            [0..<num_prime]) [0..<num_prime]);
          (product_clauses, st2) = for_upto (\<lambda>i.
            Product_NBit (''IsPrime_PowTemp_'' @ Z call_count @ ''_'' @ Z i)
                         (''IsPrime_Product_'' @ Z call_count @ ''_'' @ Z i)
                         (''IsPrime_Product_Overflow_'' @ Z call_count @ ''_'' @ Z i)
                         num_prime n) num_prime st1;
          product_no_overflow = map (\<lambda>i.
            ''-<IsPrime_Product_Overflow_'' @ Z call_count @ ''_'' @ Z i @ ''> 0 '') [0..<num_prime];
          (plus1_clauses, st3) = for_upto (\<lambda>i.
            Add_NBit (''IsPrime_Product_'' @ Z call_count @ ''_'' @ Z i)
                     (''One_NBit_'' @ Z n)
                     (''IsPrime_Product_Plus1_'' @ Z call_count @ ''_'' @ Z i)
                     (''IsPrime_Product_Plus1_Overflow_'' @ Z call_count @ ''_'' @ Z i) n) num_prime st2;
          plus1_no_overflow = map (\<lambda>i.
            ''-<IsPrime_Product_Plus1_Overflow_'' @ Z call_count @ ''_'' @ Z i @ ''> 0 '') [0..<num_prime];
          (sum_clauses, st4) = for_upto (\<lambda>i.
            Sum_NBit (''IsPrime_Pow_'' @ Z call_count @ ''_'' @ Z i)
                     (''IsPrime_SumPow_'' @ Z call_count @ ''_'' @ Z i)
                     (''IsPrime_SumPow_Overflow_'' @ Z call_count @ ''_'' @ Z i)
                     num_prime n) num_prime st3;
          sum_no_overflow = map (\<lambda>i.
            ''-<IsPrime_SumPow_Overflow_'' @ Z call_count @ ''_'' @ Z i @ ''> 0 '') [0..<num_prime];
          (base_clauses, st5) = for_upto (IsPrime_base_or_product call_count n) num_prime st4;
          (minus1_clauses, st6) = for_upto (\<lambda>i.
            Add_NBit (''IsPrime_Prime_Minus1_'' @ Z call_count @ ''_'' @ Z i)
                     (''One_NBit_'' @ Z n)
                     (''IsPrime_Prime_'' @ Z call_count @ ''_'' @ Z i)
                     (''IsPrime_Prime_Minus1_Overflow_'' @ Z call_count @ ''_'' @ Z i) n) num_prime st5;
          minus1_no_overflow = map (\<lambda>i.
            ''-<IsPrime_Prime_Minus1_Overflow_'' @ Z call_count @ ''_'' @ Z i @ ''> 0 '') [0..<num_prime];
          (divmod_clauses, st7) = for_upto (\<lambda>i. for_upto (\<lambda>j.
            DivMod_NBit (''IsPrime_Prime_Minus1_'' @ Z call_count @ ''_'' @ Z i)
                        (''IsPrime_Prime_'' @ Z call_count @ ''_'' @ Z j)
                        (''IsPrime_Div_'' @ Z call_count @ ''_'' @ Z i @ ''_'' @ Z j)
                        (''IsPrime_Mod_'' @ Z call_count @ ''_'' @ Z i @ ''_'' @ Z j) n)
            num_prime) num_prime st6;
          (factor_tests, st8) = for_upto (\<lambda>i. for_upto (IsPrime_factor_test call_count n i)
            num_prime) num_prime st7;
          (full_tests, st9) = for_upto (IsPrime_full_test call_count n) num_prime st8;
          target_clauses = Equals_NBit target (''IsPrime_Prime_'' @ Z call_count @ ''_'' @ Z 0) n
      in (not_zero @ not_one @ pow_clauses @ powtemp_no_overflow @ product_clauses @
          product_no_overflow @ plus1_clauses @ plus1_no_overflow @ sum_clauses @ sum_no_overflow @
          base_clauses @ minus1_clauses @ minus1_no_overflow @ divmod_clauses @ factor_tests @
          full_tests @ target_clauses, st9))"

definition IsComposite :: "string \<Rightarrow> nat \<Rightarrow> counters \<Rightarrow> string list \<times> counters" where
  "IsComposite target n st =
     (let call_count = iscomposite_calls st + 1;
          st0 = st\<lparr>iscomposite_calls := call_count\<rparr>;
          (mul_clauses, st1) = Mul_NBit (''IsComposite_fact1_'' @ Z call_count)
                                        (''IsComposite_fact2_'' @ Z call_count) target
                                        (''IsComposite_Overflow_'' @ Z call_count) n st0
      in (mul_clauses @
          [Input_Not_Equals_Number (''IsComposite_fact1_'' @ Z call_count) 0 n,
           Input_Not_Equals_Number (''IsComposite_fact2_'' @ Z call_count) 0 n,
           Input_Not_Equals_Number (''IsComposite_fact1_'' @ Z call_count) 1 n,
           Input_Not_Equals_Number (''IsComposite_fact2_'' @ Z call_count) 1 n,
           ''-<IsComposite_Overflow_'' @ Z call_count @ ''> 0 ''], st1))"

text \<open>
  The clauses the front end \<open>is_prime\<close> hands to the finaliser for a target \<open>p\<close> at
  width \<open>n\<close>: the certificate, the target pinned, and the constants
  \<open>One_NBit_<n>\<close>, \<open>One_NBit_<2n>\<close> and \<open>Zero_1Bit_<1>\<close>.
\<close>

definition is_prime_conditions :: "nat \<Rightarrow> nat \<Rightarrow> counters \<Rightarrow> string list" where
  "is_prime_conditions p n st =
     fst (IsPrime ''target'' n (int n) st) @
     Input_Equals_Number ''target'' (int p) n @
     Input_Equals_Number (''One_NBit_'' @ Z n) 1 n @
     Input_Equals_Number (''One_NBit_'' @ Z (n * 2)) 1 (n * 2) @
     ['' -<Zero_1Bit_'' @ Z 1 @ ''> 0 '']"

section \<open>The finaliser\<close>

text \<open>
  \<open>generate_cnf\<close> writes to the error stream and to a file, and it computes remainders
  whose divisor can be zero. Its model returns what was written to the error stream and,
  when the file was opened, the lines of the file; a remainder by zero ends the run. Whether
  the file can be opened is a fact of the environment: the argument \<open>can_open\<close>.
\<close>

datatype failure = Modulo_By_Zero | Stoi_Out_Of_Range

record effects =
  err_lines :: "string list"
  out_file :: "string list option"

text \<open>The strings the regular expression matches in a clause, brackets included.\<close>

definition matches :: "string \<Rightarrow> string list" where
  "matches clause = map (\<lambda>(neg, x). ''<'' @ x @ ''>'') (scan (CHR '' '') clause)"

text \<open>
  The three progress loops: \<^verbatim>\<open>if ((i % (size / 20)) == 0) cerr << (5 * i / (size / 20)) << "%..."\<close>
  for \<open>i\<close> from 0 below the number of clauses. The remainder is computed in every iteration, so with
  a divisor of zero the first iteration fails.
\<close>

definition progress :: "nat \<Rightarrow> failure + string list" where
  "progress count =
     (if count = 0 then Inr []
      else if count div 20 = 0 then Inl Modulo_By_Zero
      else Inr (map (\<lambda>i. dec (5 * i div (count div 20)) @ ''%...'')
                  (filter (\<lambda>i. i mod (count div 20) = 0) [0..<count])))"

text \<open>The comparison that \<open>std::sort\<close> is called with.\<close>

definition literal_before :: "string \<Rightarrow> string \<Rightarrow> bool" where
  "literal_before a b =
     (let a_upper = (CHR ''A'' \<le> a ! 1 \<and> a ! 1 \<le> CHR ''Z'');
          b_upper = (CHR ''A'' \<le> b ! 1 \<and> b ! 1 \<le> CHR ''Z'')
      in if a_upper \<and> b_upper then a < b
         else if \<not> a_upper \<and> \<not> b_upper then a < b
         else if a_upper \<and> \<not> b_upper then False
         else True)"

text \<open>
  \<open>std::sort\<close> on distinct strings with a comparison that orders any two of them has one
  possible result; insertion sort computes it.
\<close>

fun insert_by :: "('a \<Rightarrow> 'a \<Rightarrow> bool) \<Rightarrow> 'a \<Rightarrow> 'a list \<Rightarrow> 'a list" where
  "insert_by before x [] = [x]"
| "insert_by before x (y # ys) = (if before x y then x # y # ys else y # insert_by before x ys)"

definition sort_by :: "('a \<Rightarrow> 'a \<Rightarrow> bool) \<Rightarrow> 'a list \<Rightarrow> 'a list" where
  "sort_by before xs = foldr (insert_by before) xs []"

text \<open>
  \<^verbatim>\<open>while ((pos = clause.find(literal, pos)) != npos) { clause.replace(...); pos += ...; }\<close>:
  every occurrence of the literal, from the left, is replaced, and the search goes on
  behind the replacement. A literal is a match of the regular expression and so not empty.
\<close>

function replace_all :: "string \<Rightarrow> string \<Rightarrow> string \<Rightarrow> string" where
  "replace_all literal rep [] = []"
| "replace_all literal rep (c # cs) =
     (if literal \<noteq> [] \<and> take (length literal) (c # cs) = literal
      then rep @ replace_all literal rep (drop (length literal) (c # cs))
      else c # replace_all literal rep cs)"
  by pat_completeness auto
termination
  by (relation "measure (\<lambda>(literal, rep, s). length s)") auto

declare replace_all.simps(2) [simp del]

definition gather_literals :: "string list \<Rightarrow> string list" where
  "gather_literals conditions = sorted_list_of_set (set (concat (map matches conditions)))"

definition sorted_literals :: "string list \<Rightarrow> string list" where
  "sorted_literals conditions = sort_by literal_before (gather_literals conditions)"

definition literal_map :: "string list \<Rightarrow> (string \<times> nat) list" where
  "literal_map literals = map (\<lambda>i. (literals ! i, i + 1)) [0..<length literals]"

definition literal_id :: "string list \<Rightarrow> string \<Rightarrow> nat" where
  "literal_id literals literal = (case map_of (literal_map literals) literal of Some v \<Rightarrow> v | None \<Rightarrow> 0)"

definition replace_clause :: "string list \<Rightarrow> string \<Rightarrow> string" where
  "replace_clause literals clause =
     fold (\<lambda>literal text. replace_all literal (dec (literal_id literals literal)) text)
       (sorted_list_of_set (set (matches clause))) clause"

definition cnf_lines :: "string list \<Rightarrow> string list" where
  "cnf_lines conditions =
     (let literals = sorted_literals conditions;
          replaced = map (replace_clause literals) conditions
      in [''c'', ''c'', ''c''] @
         map (\<lambda>literal. ''cv '' @ literal @ '' '' @ dec (literal_id literals literal))
           (sorted_list_of_set (set literals)) @
         [''p cnf '' @ dec (length literals) @ '' '' @ dec (length replaced)] @
         replaced)"

definition generate_cnf :: "string list \<Rightarrow> string \<Rightarrow> bool \<Rightarrow> failure + effects" where
  "generate_cnf conditions file_path can_open =
     (case progress (length conditions) of
        Inl f \<Rightarrow> Inl f
      | Inr steps \<Rightarrow>
          (let progress_log = [''expand : 1'', ''gather literals...''] @ steps @
                     [''sorting literals...'', ''mapping symbol to integer...'',
                      ''replacing symbol to integer...''] @ steps @ [''writing cnf to file...'']
           in if \<not> can_open
              then Inr \<lparr>err_lines = progress_log @ [''Error: Could not open file '' @ file_path @ '' for writing''],
                        out_file = None\<rparr>
              else Inr \<lparr>err_lines = progress_log @ steps @ [''CNF file generated successfully: '' @ file_path],
                        out_file = Some (cnf_lines conditions)\<rparr>))"

section \<open>The front end \<open>add_cnf\<close>\<close>

text \<open>
  \<open>main\<close> of \<open>add_cnf\<close>: the arguments after the program name, and whether the output
  file can be opened. A run ends with an exit code and the lines written to the standard
  output, or it is ended by a failure (\<open>std::stoi\<close> throws on a number that does not fit
  an \<open>int\<close>, and nothing catches it).
\<close>

datatype run = Exit int "string list" "effects option" | Failed failure

definition all_digits :: "string \<Rightarrow> bool" where
  "all_digits s = (s \<noteq> [] \<and> list_all (\<lambda>c. CHR ''0'' \<le> c \<and> c \<le> CHR ''9'') s)"

definition stoi :: "string \<Rightarrow> failure + nat" where
  "stoi s =
     (let v = foldl (\<lambda>acc c. 10 * acc + (of_char c - 48)) 0 s
      in if v \<le> 2147483647 then Inr v else Inl Stoi_Out_Of_Range)"

fun bit_width :: "nat \<Rightarrow> nat" where
  "bit_width t = (if 0 < t then bit_width (t div 2) + 1 else 0)"

declare bit_width.simps [simp del]

text \<open>
  \<^verbatim>\<open>int sum = num1 + num2\<close>: both numbers are at most 2147483647, and the sum of two
  \<open>int\<close> that does not fit wraps around in the compiled program (C++ leaves it undefined).
  \<open>dec_int\<close> is how an \<open>int\<close> is printed.
\<close>

definition wrap32 :: "int \<Rightarrow> int" where
  "wrap32 v = (v + 2147483648) mod 4294967296 - 2147483648"

definition dec_int :: "int \<Rightarrow> string" where
  "dec_int v = (if v < 0 then ''-'' @ dec (nat (- v)) else dec (nat v))"

definition add_cnf_conditions :: "nat \<Rightarrow> nat \<Rightarrow> nat \<Rightarrow> string list" where
  "add_cnf_conditions num1 num2 final_len =
     fst (Add_NBit ''input1'' ''input2'' ''result'' ''overflow'' final_len init_counters) @
     Input_Equals_Number ''input1'' (int num1) final_len @
     Input_Equals_Number ''input2'' (int num2) final_len @
     [''-<overflow> 0 ''] @
     Input_Equals_Number (''One_NBit_'' @ Z final_len) 1 final_len @
     ['' -<Zero_1Bit_'' @ Z 1 @ ''> 0 '']"

definition add_cnf_main :: "string list \<Rightarrow> bool \<Rightarrow> run" where
  "add_cnf_main args can_open =
     (if length args \<noteq> 2 then Exit 1 [''usage: add_cnf number1 number2.''] None
      else if \<not> all_digits (args ! 0) \<or> \<not> all_digits (args ! 1)
      then Exit 1 [''usage: add_cnf number1 number2.''] None
      else case stoi (args ! 0) of Inl f \<Rightarrow> Failed f | Inr num1 \<Rightarrow>
           case stoi (args ! 1) of Inl f \<Rightarrow> Failed f | Inr num2 \<Rightarrow>
        (let sum_value = wrap32 (int num1 + int num2);
             len = bit_width (max num1 num2);
             result_len = bit_width (nat sum_value);
             final_len = max (len + 1) result_len;
             filename = ''add_'' @ dec num1 @ ''_'' @ dec num2 @ ''.cnf''
         in case generate_cnf (add_cnf_conditions num1 num2 final_len) filename can_open of
              Inl f \<Rightarrow> Failed f
            | Inr e \<Rightarrow>
                Exit 0
                  [''Input 1: '' @ dec num1 @ '' (bit width: '' @ dec len @ '')'',
                   ''Input 2: '' @ dec num2 @ '' (bit width: '' @ dec len @ '')'',
                   ''Expected sum: '' @ dec_int sum_value @ '' (bit width: '' @ dec result_len @ '')'',
                   ''Using bit width: '' @ dec final_len,
                   ''CNF file generated: '' @ filename,
                   ''Expected result: '' @ dec_int sum_value] (Some e)))"

text \<open>What the caller of a front end observes of a run, and the file the run left.\<close>

definition exit_code :: "run \<Rightarrow> int option" where
  "exit_code r = (case r of Exit c out e \<Rightarrow> Some c | Failed f \<Rightarrow> None)"

definition stdout_lines :: "run \<Rightarrow> string list" where
  "stdout_lines r = (case r of Exit c out e \<Rightarrow> out | Failed f \<Rightarrow> [])"

definition written_file :: "run \<Rightarrow> string list option" where
  "written_file r = (case r of Exit c out (Some e) \<Rightarrow> out_file e | _ \<Rightarrow> None)"


section \<open>Describing the emitted file\<close>










section \<open>Prime numbers\<close>

text \<open>
  The property the certificate is about: a number greater than one that no number
  strictly between one and itself divides.
\<close>

definition is_prime :: "nat \<Rightarrow> bool" where
  "is_prime p = (1 < p \<and> list_all (\<lambda>d. \<not> d dvd p) [2..<p])"

section \<open>The value a constant generator pins\<close>

text \<open>
  The number whose \<open>w\<close> bits are those that \<open>Input_Equals_Number\<close> asserts for the value
  \<open>v\<close>. Up to 32 bits it is \<open>v\<close> itself (if \<open>v\<close> fits); from bit 32 on the bits of \<open>v\<close> repeat.
\<close>

definition pinned_value :: "int \<Rightarrow> nat \<Rightarrow> nat" where
  "pinned_value v w = bv (shifted_bit v) w"


section \<open>Example assignments\<close>

definition add_example :: assignment where
  "add_example x = (x \<in> set [''a_0000000000'', ''b_0000000000'',
      ''AddNBit_0000000001_carry_out_0000000001'', ''ov''])"



section \<open>The names the generators make up\<close>

text \<open>
  Every generator builds the names of its internal variables from a fixed prefix, the
  value of its call counter and a tail of indices. The two constants \<open>One_NBit_<n>\<close>
  and \<open>Zero_1Bit_<1>\<close> are named the same way, without a counter behind them.
\<close>

datatype kind = KConst | KAdd | KMul | KLess | KDivMod | KPow | KPowMod | KOr | KSum | KProduct
  | KFermat | KFermat2 | KFermat3 | KIsPrime | KIsComposite

fun count :: "kind \<Rightarrow> counters \<Rightarrow> nat" where
  "count KConst st = 0"
| "count KAdd st = add_nbit_calls st"
| "count KMul st = mul_nbit_calls st"
| "count KLess st = lessthan_nbit_calls st"
| "count KDivMod st = divmod_nbit_calls st"
| "count KPow st = pow_nbit_calls st"
| "count KPowMod st = powmod_nbit_calls st"
| "count KOr st = or_condition_calls st"
| "count KSum st = sum_nbit_calls st"
| "count KProduct st = product_nbit_calls st"
| "count KFermat st = fermat_calls st"
| "count KFermat2 st = fermat2_calls st"
| "count KFermat3 st = fermat3_calls st"
| "count KIsPrime st = isprime_calls st"
| "count KIsComposite st = iscomposite_calls st"

definition table :: "(string \<times> kind) list" where
  "table =
    [(''One_NBit_'', KConst), (''Zero_1Bit_'', KConst),
     (''AddNBit_'', KAdd),
     (''Mul_NBit_Accum1_'', KMul), (''Mul_NBit_Accum2_'', KMul), (''Mul_NBit_CarryOut_'', KMul),
     (''LessThan_NBit_Equals_'', KLess), (''LessThan_NBit_Less_'', KLess),
     (''LessThan_NBit_EqualAccum_'', KLess), (''LessThan_NBit_Result_'', KLess),
     (''DivMod_NBit_Accum_'', KDivMod), (''DivMode_NBit_MulOverflow_'', KDivMod),
     (''DivMode_NBit_AddOverflow_'', KDivMod),
     (''Pow_NBit_Temp1_'', KPow), (''Pow_NBit_Temp1Overflow_'', KPow), (''Pow_NBit_Temp2_'', KPow),
     (''Pow_NBit_PowAccum_'', KPow), (''Pow_NBit_PowAccumOverflow_'', KPow),
     (''Pow_NBit_PowAccumOverflowAccum_'', KPow), (''Pow_NBit_OverflowTemp_'', KPow),
     (''Pow_NBit_PowAccumOverflow_OR_'', KPow), (''Pow_NBit_OverflowTemp_OR_'', KPow),
     (''PowMod_NBit_Base_DoubleSize_'', KPowMod), (''PowMod_NBit_Exp_DoubleSize_'', KPowMod),
     (''PowMod_NBit_Mod_DoubleSize_'', KPowMod), (''PowMod_NBit_PartialResult_'', KPowMod),
     (''PowMod_NBit_CurrentPow_'', KPowMod), (''PowMod_NBit_BitFactor_'', KPowMod),
     (''PowMod_NBit_Multipled_'', KPowMod), (''PowMod_NBit_MultipledOverflow_'', KPowMod),
     (''PowMod_NBit_Div1_'', KPowMod), (''PowMod_NBit_SquareBase_'', KPowMod),
     (''PowMod_NBit_SquareBaseOverflow_'', KPowMod), (''PowMod_NBit_Div2_'', KPowMod),
     (''Or_Condition_'', KOr),
     (''Sum_NBit_Accum_'', KSum), (''Sum_NBit_Overflow_'', KSum),
     (''Product_NBit_Accum_'', KProduct), (''Product_NBit_Overflow_'', KProduct),
     (''FermatTest_'', KFermat),
     (''FermatTest2_Prime_Minus1_'', KFermat2), (''FermatTest2_Prime_Minus1_Overflow_'', KFermat2),
     (''FermatTest3_'', KFermat3),
     (''IsPrime_Prime_'', KIsPrime), (''IsPrime_Pow_'', KIsPrime), (''IsPrime_PowTemp_'', KIsPrime),
     (''IsPrime_PowTemp_Overflow_'', KIsPrime), (''IsPrime_Product_'', KIsPrime),
     (''IsPrime_Product_Overflow_'', KIsPrime), (''IsPrime_Product_Plus1_'', KIsPrime),
     (''IsPrime_Product_Plus1_Overflow_'', KIsPrime), (''IsPrime_SumPow_'', KIsPrime),
     (''IsPrime_SumPow_Overflow_'', KIsPrime), (''IsPrime_Prime_Minus1_'', KIsPrime),
     (''IsPrime_Prime_Minus1_Overflow_'', KIsPrime), (''IsPrime_Div_'', KIsPrime),
     (''IsPrime_Mod_'', KIsPrime), (''IsPrime_Generator_'', KIsPrime),
     (''IsComposite_fact1_'', KIsComposite), (''IsComposite_fact2_'', KIsComposite),
     (''IsComposite_Overflow_'', KIsComposite)]"

definition is_digit :: "char \<Rightarrow> bool" where
  "is_digit c = (CHR ''0'' \<le> c \<and> c \<le> CHR ''9'')"

text \<open>What may follow the counter in a name: nothing, or name characters that do not start with a digit.\<close>

definition tail :: "string \<Rightarrow> bool" where
  "tail r = (list_all name_char r \<and> (case r of [] \<Rightarrow> True | c # _ \<Rightarrow> \<not> is_digit c))"

text \<open>
  The names a caller of the library chooses for its operands: they start with a lowercase
  letter, as \<open>target\<close>, \<open>input1\<close> and \<open>result\<close> do in the front ends, and so differ from every
  name a generator makes up.
\<close>

definition user_name :: "string \<Rightarrow> bool" where
  "user_name x = (list_all name_char x \<and> (case x of [] \<Rightarrow> False | c # _ \<Rightarrow> CHR ''a'' \<le> c \<and> c \<le> CHR ''z''))"

text \<open>
  The names that no call of a generator from the counters \<open>st\<close> on makes up: the names of the
  caller, the constants, and the internal names of the calls made so far.
\<close>

definition stable :: "counters \<Rightarrow> string \<Rightarrow> bool" where
  "stable st x =
     (user_name x \<or>
      (\<exists>P k c r. (P, k) \<in> set table \<and> x = P @ Z c @ r \<and> tail r \<and> (k = KConst \<or> c \<le> count k st)))"

definition agree :: "counters \<Rightarrow> assignment \<Rightarrow> assignment \<Rightarrow> bool" where
  "agree st \<sigma> \<sigma>' = (\<forall>x. stable st x \<longrightarrow> \<sigma>' x = \<sigma> x)"

definition counters_le :: "counters \<Rightarrow> counters \<Rightarrow> bool" where
  "counters_le st st' = (\<forall>k. count k st \<le> count k st')"

text \<open>
  A generator can be satisfied from \<open>\<sigma>\<close>: called at any later state, with an assignment that
  agrees with \<open>\<sigma>\<close> on the stable names, its clauses are satisfied after changing only names
  that were not stable, and they stay satisfied whatever later calls change.
\<close>

type_synonym gen = "counters \<Rightarrow> string list \<times> counters"

definition ext_ok :: "counters \<Rightarrow> assignment \<Rightarrow> gen \<Rightarrow> bool" where
  "ext_ok st \<sigma> g =
     (\<forall>s \<sigma>'. counters_le st s \<and> agree st \<sigma> \<sigma>' \<longrightarrow>
        counters_le s (snd (g s)) \<and>
        (\<exists>\<sigma>''. agree s \<sigma>' \<sigma>'' \<and> (\<forall>\<tau>. agree (snd (g s)) \<sigma>'' \<tau> \<longrightarrow> sat \<tau> (fst (g s)))))"

definition emit :: "string list \<Rightarrow> gen" where
  "emit cs st = (cs, st)"

definition seq :: "gen \<Rightarrow> gen \<Rightarrow> gen" where
  "seq f g st = (let (c1, s1) = f st; (c2, s2) = g s1 in (c1 @ c2, s2))"

text \<open>The number a string of digits denotes.\<close>

definition num :: "string \<Rightarrow> nat" where
  "num s = foldl (\<lambda>a c. 10 * a + (of_char c - 48)) 0 s"

definition compat :: "string \<Rightarrow> string \<Rightarrow> bool" where
  "compat P Q =
     (P = Q \<or>
      (if length P \<le> length Q
       then take (length P) Q \<noteq> P \<or> \<not> is_digit (Q ! length P)
       else take (length Q) P \<noteq> Q \<or> \<not> is_digit (P ! length Q)))"


text \<open>Two assignments give every name that a clause list mentions the same value.\<close>

definition same_on :: "(string \<Rightarrow> bool) \<Rightarrow> (string \<Rightarrow> bool) \<Rightarrow> string list \<Rightarrow> bool" where
  "same_on \<sigma> \<sigma>' cs = (\<forall>x\<in>set (names cs). \<sigma> x = \<sigma>' x)"

section \<open>Reading clauses\<close>

lemma name_char_simps [simp]:
  "\<not> name_char (CHR ''<'')" "\<not> name_char (CHR ''>'')" "\<not> name_char (CHR '' '')"
  "\<not> name_char (CHR ''-'')" "name_char (CHR ''_'')"
  by (simp_all add: name_char_def less_eq_char_def)

lemma takeWhile_name: "list_all name_char x \<Longrightarrow> takeWhile name_char (x @ CHR ''>'' # r) = x"
  by (induction x) auto

lemma dropWhile_name: "list_all name_char x \<Longrightarrow> dropWhile name_char (x @ CHR ''>'' # r) = CHR ''>'' # r"
  by (induction x) auto

lemma scan_name:
  "valid_name x \<Longrightarrow> scan p (CHR ''<'' # x @ CHR ''>'' # r) = (p = CHR ''-'', x) # scan (CHR ''>'') r"
  by (simp add: scan.simps(2) valid_name_def takeWhile_name dropWhile_name)

text \<open>
  Reading a clause piece by piece: \<open>scan_in p acc s\<close> is the search after an opening
  bracket and the name characters \<open>acc\<close>.
\<close>

definition scan_in :: "char \<Rightarrow> string \<Rightarrow> string \<Rightarrow> (bool \<times> string) list" where
  "scan_in p acc s = scan p (CHR ''<'' # acc @ s)"

named_theorems scan_simps

lemma scan_skip [scan_simps]: "c \<noteq> CHR ''<'' \<Longrightarrow> scan p (c # cs) = scan c cs"
  by (simp add: scan.simps(2))

lemma scan_open [scan_simps]: "scan p (CHR ''<'' # s) = scan_in p [] s"
  by (simp add: scan_in_def)

lemma scan_in_name [scan_simps]: "list_all name_char x \<Longrightarrow> scan_in p acc (x @ s) = scan_in p (acc @ x) s"
  by (simp add: scan_in_def)

lemma scan_in_char [scan_simps]: "name_char c \<Longrightarrow> scan_in p acc (c # s) = scan_in p (acc @ [c]) s"
  by (simp add: scan_in_def)

lemma scan_in_close [scan_simps]:
  "list_all name_char acc \<Longrightarrow> acc \<noteq> [] \<Longrightarrow>
   scan_in p acc (CHR ''>'' # s) = (p = CHR ''-'', acc) # scan (CHR ''>'') s"
  by (simp add: scan_in_def scan_name valid_name_def)

lemma name_char_literal [scan_simps]:
  "name_char c =
     ((CHR ''a'' \<le> c \<and> c \<le> CHR ''z'') \<or> (CHR ''A'' \<le> c \<and> c \<le> CHR ''Z'') \<or>
      (CHR ''0'' \<le> c \<and> c \<le> CHR ''9'') \<or> c = CHR ''_'')"
  by (rule name_char_def)

lemmas [scan_simps] = less_eq_char_def clause_lits_def sat_clause_def

lemma digit_char_name: "d < 10 \<Longrightarrow> name_char (digit_char d)"
proof -
  assume "d < 10"
  then have "d \<in> {0, 1, 2, 3, 4, 5, 6, 7, 8, 9}" by auto
  then show ?thesis
    by (auto simp: digit_char_def name_char_def less_eq_char_def)
qed

lemma dec_name: "list_all name_char (dec i)"
proof (induction i rule: dec.induct)
  case (1 i)
  show ?case
  proof (cases "i < 10")
    case True
    then show ?thesis by (simp add: dec.simps [of i] digit_char_name)
  next
    case False
    with 1 show ?thesis by (simp add: dec.simps [of i] digit_char_name)
  qed
qed

lemma Z_name [simp]: "list_all name_char (Z i)"
  using dec_name [of i] by (auto simp: Z_def list_all_iff name_char_def less_eq_char_def)

lemma dec_not_Nil: "dec i \<noteq> []"
  by (simp add: dec.simps [of i])

lemma Z_not_Nil [simp]: "Z i \<noteq> []"
  by (simp add: Z_def dec_not_Nil)

section \<open>Satisfaction of clause lists\<close>

lemma sat_Nil [simp]: "sat \<sigma> []"
  by (simp add: sat_def)

lemma sat_Cons [simp]: "sat \<sigma> (c # cs) \<longleftrightarrow> sat_clause \<sigma> c \<and> sat \<sigma> cs"
  by (simp add: sat_def)

lemma sat_append [simp]: "sat \<sigma> (xs @ ys) \<longleftrightarrow> sat \<sigma> xs \<and> sat \<sigma> ys"
  by (simp add: sat_def)

lemma sat_concat_map: "sat \<sigma> (concat (map f [0..<n])) \<longleftrightarrow> (\<forall>i<n. sat \<sigma> (f i))"
  by (induction n) (auto simp: less_Suc_eq)

lemma sat_map: "sat \<sigma> (map f [0..<n]) \<longleftrightarrow> (\<forall>i<n. sat_clause \<sigma> (f i))"
  by (induction n) (auto simp: less_Suc_eq)

section \<open>Numbers from bits\<close>

lemma bv_less: "bv f n < 2 ^ n"
  by (induction n) auto

lemma bv_cong: "(\<And>i. i < n \<Longrightarrow> f i = g i) \<Longrightarrow> bv f n = bv g n"
  by (induction n) auto

lemma bv_bit_take: "bv (bit a) n = take_bit n (a::nat)"
  by (induction n) (simp_all add: take_bit_Suc_from_most)

lemma bv_bit: "a < 2 ^ n \<Longrightarrow> bv (bit a) n = a"
  by (simp add: bv_bit_take take_bit_nat_eq_self)

lemma pinned_val: "pinned \<sigma> x n a \<Longrightarrow> a < 2 ^ n \<Longrightarrow> val \<sigma> x n = a"
proof -
  assume p: "pinned \<sigma> x n a" and a: "a < 2 ^ n"
  have "bv (\<lambda>i. \<sigma> (x @ ''_'' @ Z i)) n = bv (bit a) n"
    using p by (intro bv_cong) (simp add: pinned_def list_all_iff)
  with a show ?thesis by (simp add: val_def bv_bit)
qed

section \<open>The adder is sound\<close>

lemma sat_CarryOut:
  assumes "valid_name a" "valid_name b" "valid_name ci" "valid_name co"
  shows "sat \<sigma> (CarryOut_Equal_POPCNT_GREATER_THAN_2 a b ci co) \<longleftrightarrow>
         (\<sigma> co = maj3 (\<sigma> a) (\<sigma> b) (\<sigma> ci))"
  using assms
  apply (simp add: CarryOut_Equal_POPCNT_GREATER_THAN_2_def valid_name_def scan_simps)
  apply (auto simp: maj3_def)
  done

lemma sat_Result_XOR:
  assumes "valid_name a" "valid_name b" "valid_name ci" "valid_name r"
  shows "sat \<sigma> (Result_Equal_A_XOR_B_XOR_CarryIn a b ci r) \<longleftrightarrow>
         (\<sigma> r = xor3 (\<sigma> a) (\<sigma> b) (\<sigma> ci))"
  using assms
  apply (simp add: Result_Equal_A_XOR_B_XOR_CarryIn_def valid_name_def scan_simps)
  apply (auto simp: xor3_def)
  done

lemma sat_Add_1Bit:
  assumes "valid_name a" "valid_name b" "valid_name ci" "valid_name r" "valid_name co"
  shows "sat \<sigma> (Add_1Bit a b ci r co) \<longleftrightarrow>
         (\<sigma> co = maj3 (\<sigma> a) (\<sigma> b) (\<sigma> ci)) \<and> (\<sigma> r = xor3 (\<sigma> a) (\<sigma> b) (\<sigma> ci))"
  using assms by (simp add: Add_1Bit_def sat_CarryOut sat_Result_XOR)

lemma ripple_carry:
  assumes "\<And>i. i < n \<Longrightarrow> c (Suc i) = maj3 (a i) (b i) (c i)"
    and "\<And>i. i < n \<Longrightarrow> r i = xor3 (a i) (b i) (c i)"
  shows "bv a n + bv b n + of_bool (c 0) = bv r n + 2 ^ n * of_bool (c n)"
  using assms
proof (induction n)
  case 0
  then show ?case by simp
next
  case (Suc n)
  then have IH: "bv a n + bv b n + of_bool (c 0) = bv r n + 2 ^ n * of_bool (c n)"
    by simp
  have c: "c (Suc n) = maj3 (a n) (b n) (c n)" and r: "r n = xor3 (a n) (b n) (c n)"
    using Suc.prems by simp_all
  have "bv a (Suc n) + bv b (Suc n) + of_bool (c 0) =
        (bv r n + 2 ^ n * of_bool (c n)) + of_bool (a n) * 2 ^ n + of_bool (b n) * 2 ^ n"
    using IH by simp
  also have "\<dots> = bv r (Suc n) + 2 ^ Suc n * of_bool (c (Suc n))"
    using c r by (cases "a n"; cases "b n"; cases "c n") (simp_all add: maj3_def xor3_def)
  finally show ?case .
qed

lemma valid_name_bit [simp]: "valid_name x \<Longrightarrow> valid_name (x @ ''_'' @ Z i)"
  by (simp add: valid_name_def)

lemma valid_name_bit' [simp]: "valid_name x \<Longrightarrow> valid_name (x @ CHR ''_'' # Z i)"
  by (simp add: valid_name_def)

lemma valid_name_parts:
  "list_all name_char x \<Longrightarrow> valid_name y \<Longrightarrow> valid_name (x @ y)"
  "valid_name x \<Longrightarrow> list_all name_char y \<Longrightarrow> valid_name (x @ y)"
  by (simp_all add: valid_name_def)

lemma Add_NBit_sound:
  assumes "valid_name in_a" "valid_name in_b" "valid_name result" "valid_name over_flow"
    and "sat \<sigma> (fst (Add_NBit in_a in_b result over_flow n st))"
  shows "val \<sigma> in_a n + val \<sigma> in_b n = val \<sigma> result n + 2 ^ n * of_bool (\<sigma> over_flow)"
proof -
  define cc where "cc = add_nbit_calls st + 1"
  define c where "c i = \<sigma> (''AddNBit_'' @ Z cc @ ''_carry_out_'' @ Z i)" for i
  have vc: "valid_name (''AddNBit_'' @ Z cc @ ''_carry_out_'' @ Z i)" for i
    by (simp add: valid_name_def scan_simps)
  have s: "sat \<sigma> ((''-<AddNBit_'' @ Z cc @ ''_carry_out_'' @ Z 0 @ ''> 0 '') #
       concat (map (\<lambda>i. Add_1Bit (in_a @ ''_'' @ Z i) (in_b @ ''_'' @ Z i)
                           (''AddNBit_'' @ Z cc @ ''_carry_out_'' @ Z i)
                           (result @ ''_'' @ Z i)
                           (''AddNBit_'' @ Z cc @ ''_carry_out_'' @ Z (i + 1))) [0..<n]) @
       [''-<'' @ over_flow @ ''>  <AddNBit_'' @ Z cc @ ''_carry_out_'' @ Z n @ ''> 0 '',
        '' <'' @ over_flow @ ''> -<AddNBit_'' @ Z cc @ ''_carry_out_'' @ Z n @ ''> 0 ''])"
    using assms(5) by (simp add: Add_NBit_def cc_def Let_def)
  have c0: "\<not> c 0"
    using s by (simp add: c_def scan_simps)
  have ov: "\<sigma> over_flow = c n"
    using s assms(4) by (auto simp add: c_def valid_name_def scan_simps)
  have step: "c (Suc i) = maj3 (\<sigma> (in_a @ ''_'' @ Z i)) (\<sigma> (in_b @ ''_'' @ Z i)) (c i) \<and>
              \<sigma> (result @ ''_'' @ Z i) = xor3 (\<sigma> (in_a @ ''_'' @ Z i)) (\<sigma> (in_b @ ''_'' @ Z i)) (c i)"
    if "i < n" for i
  proof -
    have "sat \<sigma> (Add_1Bit (in_a @ ''_'' @ Z i) (in_b @ ''_'' @ Z i)
                           (''AddNBit_'' @ Z cc @ ''_carry_out_'' @ Z i)
                           (result @ ''_'' @ Z i)
                           (''AddNBit_'' @ Z cc @ ''_carry_out_'' @ Z (i + 1)))"
      using s that by (simp add: sat_concat_map)
    then show ?thesis
      using assms(1-3) vc by (simp add: sat_Add_1Bit c_def del: append.simps)
  qed
  have "bv (\<lambda>i. \<sigma> (in_a @ ''_'' @ Z i)) n + bv (\<lambda>i. \<sigma> (in_b @ ''_'' @ Z i)) n + of_bool (c 0) =
        bv (\<lambda>i. \<sigma> (result @ ''_'' @ Z i)) n + 2 ^ n * of_bool (c n)"
    by (rule ripple_carry) (use step in auto)
  with c0 ov show ?thesis by (simp add: val_def)
qed


section \<open>Disjunction of clause lists\<close>

lemma sat_clause_cong:
  assumes "\<And>x. x \<in> set (clause_names c) \<Longrightarrow> \<sigma> x = \<sigma>' x"
  shows "sat_clause \<sigma> c = sat_clause \<sigma>' c"
proof -
  have "\<sigma> (snd l) = \<sigma>' (snd l)" if "l \<in> set (clause_lits c)" for l
    using assms that by (simp add: clause_names_def)
  then show ?thesis
    by (simp add: sat_clause_def list_ex_iff split_beta)
qed

lemma sat_cong:
  assumes "\<And>x. x \<in> set (names cs) \<Longrightarrow> \<sigma> x = \<sigma>' x"
  shows "sat \<sigma> cs = sat \<sigma>' cs"
proof -
  have "sat_clause \<sigma> c = sat_clause \<sigma>' c" if "c \<in> set cs" for c
    using assms that by (intro sat_clause_cong) (auto simp: names_def)
  then show ?thesis
    by (simp add: sat_def list_all_iff)
qed

lemma sat_AddLiteral_pos:
  "valid_name t \<Longrightarrow> sat \<sigma> (AddLiteralToCondition (''<'' @ t @ ''>'') cs) \<longleftrightarrow> \<sigma> t \<or> sat \<sigma> cs"
  by (induction cs) (auto simp: AddLiteralToCondition_def valid_name_def scan_simps)

lemma sat_AddLiteral_neg:
  "valid_name t \<Longrightarrow> sat \<sigma> (AddLiteralToCondition (''-<'' @ t @ ''>'') cs) \<longleftrightarrow> \<not> \<sigma> t \<or> sat \<sigma> cs"
  by (induction cs) (auto simp: AddLiteralToCondition_def valid_name_def scan_simps)

lemma valid_or_literal: "valid_name (''Or_Condition_'' @ Z k)"
  by (simp add: valid_name_def scan_simps)

lemma sat_Or_aux:
  "valid_name t \<Longrightarrow>
   sat \<sigma> (AddLiteralToCondition (''<'' @ t @ ''>'') c1 @ AddLiteralToCondition (''-'' @ ''<'' @ t @ ''>'') c2) \<longleftrightarrow>
     (\<sigma> t \<or> sat \<sigma> c1) \<and> (\<not> \<sigma> t \<or> sat \<sigma> c2)"
  using sat_AddLiteral_pos [of t \<sigma> c1] sat_AddLiteral_neg [of t \<sigma> c2] by simp

lemma sat_Or_Condition:
  "sat \<sigma> (fst (Or_Condition c1 c2 st)) \<longleftrightarrow>
     (\<sigma> (''Or_Condition_'' @ Z (or_condition_calls st + 1)) \<or> sat \<sigma> c1) \<and>
     (\<not> \<sigma> (''Or_Condition_'' @ Z (or_condition_calls st + 1)) \<or> sat \<sigma> c2)"
  using sat_Or_aux [OF valid_or_literal, of \<sigma> "or_condition_calls st + 1" c1 c2]
  by (simp add: Or_Condition_def Let_def)

lemma Or_Condition_sound:
  "sat \<sigma> (fst (Or_Condition c1 c2 st)) \<Longrightarrow> sat \<sigma> c1 \<or> sat \<sigma> c2"
  by (auto simp: sat_Or_Condition)


section \<open>The finaliser: failures\<close>

lemma progress_Inr: "progress n \<noteq> Inl Modulo_By_Zero \<longleftrightarrow> n = 0 \<or> 20 \<le> n"
  by (auto simp: progress_def)

lemma progress_cases: "progress n = Inl Modulo_By_Zero \<or> (\<exists>steps. progress n = Inr steps)"
  by (auto simp: progress_def)

lemma length_Add_NBit: "length (fst (Add_NBit a b r ov n st)) = 16 * n + 3"
  by (simp add: Add_NBit_def Let_def Add_1Bit_def CarryOut_Equal_POPCNT_GREATER_THAN_2_def
      Result_Equal_A_XOR_B_XOR_CarryIn_def length_concat comp_def sum_list_triv)

lemma length_add_cnf_conditions: "length (add_cnf_conditions a b n) = 19 * n + 5"
  by (simp add: add_cnf_conditions_def length_Add_NBit Input_Equals_Number_def)

lemma generate_cnf_open_failure:
  "generate_cnf conditions file_path False = Inl Modulo_By_Zero \<or>
   (\<exists>progress_log. generate_cnf conditions file_path False =
      Inr \<lparr>err_lines = progress_log @ [''Error: Could not open file '' @ file_path @ '' for writing''],
           out_file = None\<rparr>)"
  using progress_cases [of "length conditions"]
  by (auto simp: generate_cnf_def Let_def)

lemma add_cnf_main_same:
  "exit_code (add_cnf_main args False) = exit_code (add_cnf_main args True) \<and>
   stdout_lines (add_cnf_main args False) = stdout_lines (add_cnf_main args True)"
  by (auto simp: add_cnf_main_def exit_code_def stdout_lines_def generate_cnf_def Let_def
      split: sum.splits)

lemma stoi5: "stoi ''5'' = Inr 5" "stoi ''3'' = Inr 3"
  by (simp_all add: stoi_def)

lemma bw: "bit_width 5 = 3" "bit_width 8 = 4"
  by code_simp+

lemma decs: "dec 5 = ''5''" "dec 3 = ''3''"  "dec 8 = ''8''" "dec 4 = ''4''"
  by code_simp+

lemma sum53: "wrap32 8 = 8" "dec_int 8 = ''8''"
  by (simp_all add: wrap32_def dec_int_def decs)


section \<open>The names that clauses mention\<close>

lemma names_Nil [simp]: "names [] = []"
  by (simp add: names_def)

lemma names_Cons [simp]: "names (c # cs) = clause_names c @ names cs"
  by (simp add: names_def)

lemma names_append [simp]: "names (xs @ ys) = names xs @ names ys"
  by (simp add: names_def)

lemma set_names_concat_map: "set (names (concat (map f xs))) = (\<Union>x\<in>set xs. set (names (f x)))"
  by (induction xs) auto

lemma names_If_Cond_1Bit:
  assumes "valid_name a" "valid_name b" "valid_name c" "valid_name r"
  shows "set (names (If_Cond_A_Else_B_1Bit a b c r)) = {a, b, c, r}"
  using assms
  by (auto simp: If_Cond_A_Else_B_1Bit_def clause_names_def valid_name_def scan_simps)

lemma valid_name_lit [simp]:
  "valid_name (''Pow_NBit_PowAccumOverflowAccum_'' @ Z k @ ''_'' @ Z i)"
  "valid_name (''Zero_1Bit_'' @ Z i)"
  "valid_name (''Pow_NBit_OverflowTemp_'' @ Z k @ ''_'' @ Z i)"
  by (simp_all add: valid_name_def scan_simps)


section \<open>The finaliser: numbering and replacement\<close>





lemma set_insert_by [simp]: "set (insert_by R x ys) = insert x (set ys)"
  by (induction ys) auto

lemma set_sort_by [simp]: "set (sort_by R xs) = set xs"
  by (induction xs) (auto simp: sort_by_def)

lemma length_insert_by [simp]: "length (insert_by R x ys) = Suc (length ys)"
  by (induction ys) auto

lemma length_sort_by [simp]: "length (sort_by R xs) = length xs"
  by (induction xs) (auto simp: sort_by_def)




























section \<open>Gates and words of bits\<close>

lemma sat_And_1Bit:
  assumes "valid_name a" "valid_name b" "valid_name r"
  shows "sat \<sigma> (And_1Bit a b r) \<longleftrightarrow> (\<sigma> r = (\<sigma> a \<and> \<sigma> b))"
  using assms
  apply (simp add: And_1Bit_def valid_name_def scan_simps)
  apply auto
  done

lemma sat_LessThan_1Bit:
  assumes "valid_name a" "valid_name b" "valid_name r"
  shows "sat \<sigma> (LessThan_1Bit a b r) \<longleftrightarrow> (\<sigma> r = (\<not> \<sigma> a \<and> \<sigma> b))"
  using assms
  apply (simp add: LessThan_1Bit_def valid_name_def scan_simps)
  apply auto
  done

lemma sat_Equals_1Bit:
  assumes "valid_name a" "valid_name b" "valid_name r"
  shows "sat \<sigma> (Equals_1Bit a b r) \<longleftrightarrow> (\<sigma> r = (\<sigma> a = \<sigma> b))"
  using assms
  apply (simp add: Equals_1Bit_def valid_name_def scan_simps)
  apply auto
  done

lemma sat_If_Cond_1Bit:
  assumes "valid_name a" "valid_name b" "valid_name c" "valid_name r"
  shows "sat \<sigma> (If_Cond_A_Else_B_1Bit a b c r) \<longleftrightarrow> (\<sigma> r = (if \<sigma> c then \<sigma> a else \<sigma> b))"
  using assms
  apply (simp add: If_Cond_A_Else_B_1Bit_def valid_name_def scan_simps)
  apply auto
  done

lemma sat_Or_1Bit:
  assumes "valid_name a" "valid_name b" "valid_name r"
  shows "sat \<sigma> (Or_1Bit a b r) \<longleftrightarrow> (\<sigma> r = (\<sigma> a \<or> \<sigma> b))"
  using assms
  apply (simp add: Or_1Bit_def valid_name_def scan_simps)
  apply auto
  done

lemma sat_unit_neg: "valid_name x \<Longrightarrow> sat_clause \<sigma> (''-<'' @ x @ ''> 0 '') \<longleftrightarrow> \<not> \<sigma> x"
  by (simp add: valid_name_def scan_simps)

lemma sat_unit_pos: "valid_name x \<Longrightarrow> sat_clause \<sigma> (''<'' @ x @ ''> 0 '') \<longleftrightarrow> \<sigma> x"
  by (simp add: valid_name_def scan_simps)

lemma sat_Equals_NBit:
  assumes "valid_name a" "valid_name b"
  shows "sat \<sigma> (Equals_NBit a b n) \<longleftrightarrow> (\<forall>i<n. \<sigma> (a @ ''_'' @ Z i) = \<sigma> (b @ ''_'' @ Z i))"
  using assms
  apply (simp add: Equals_NBit_def sat_concat_map valid_name_def scan_simps)
  apply auto
  done

lemma sat_Input_Equals_Number:
  assumes "valid_name x"
  shows "sat \<sigma> (Input_Equals_Number x v n) \<longleftrightarrow> (\<forall>i<n. \<sigma> (x @ ''_'' @ Z i) = shifted_bit v i)"
  using assms
  apply (simp add: Input_Equals_Number_def sat_map valid_name_def scan_simps)
  apply auto
  done

lemma sat_If_Cond_NBit:
  assumes "valid_name a" "valid_name b" "valid_name c" "valid_name r"
  shows "sat \<sigma> (If_Cond_A_Else_B_NBit a b c r n) \<longleftrightarrow>
         (\<forall>i<n. \<sigma> (r @ ''_'' @ Z i) = (if \<sigma> c then \<sigma> (a @ ''_'' @ Z i) else \<sigma> (b @ ''_'' @ Z i)))"
  using assms
  by (simp add: If_Cond_A_Else_B_NBit_def sat_concat_map sat_If_Cond_1Bit del: append.simps)

lemma scan_concat:
  assumes "\<And>i r. scan (CHR '' '') (f i @ r) = g i # scan (CHR '' '') r"
  shows "scan (CHR '' '') (concat (map f xs) @ r) = map g xs @ scan (CHR '' '') r"
  by (induction xs) (simp_all add: assms)


lemma sat_map_set: "sat \<sigma> (map f xs) \<longleftrightarrow> (\<forall>x\<in>set xs. sat_clause \<sigma> (f x))"
  by (induction xs) auto

lemma sat_concat_map_set: "sat \<sigma> (concat (map f xs)) \<longleftrightarrow> (\<forall>x\<in>set xs. sat \<sigma> (f x))"
  by (induction xs) auto

lemma sat_for_upto:
  "sat \<sigma> (fst (for_upto body n st)) \<Longrightarrow> i < n \<Longrightarrow> \<exists>s. sat \<sigma> (fst (body i s))"
proof (induction n)
  case 0
  then show ?case by simp
next
  case (Suc n)
  obtain cs st1 where a: "for_upto body n st = (cs, st1)" by (cases "for_upto body n st")
  obtain ds st2 where b: "body n st1 = (ds, st2)" by (cases "body n st1")
  from Suc.prems(1) a b have s: "sat \<sigma> cs" "sat \<sigma> ds" by simp_all
  show ?case
  proof (cases "i = n")
    case True
    with s(2) b have "sat \<sigma> (fst (body i st1))" by simp
    then show ?thesis ..
  next
    case False
    with Suc.prems(2) have "i < n" by simp
    moreover from s(1) a have "sat \<sigma> (fst (for_upto body n st))" by simp
    ultimately show ?thesis using Suc.IH by blast
  qed
qed

lemma bv_zero: "(\<And>i. i < n \<Longrightarrow> \<not> f i) \<Longrightarrow> bv f n = 0"
  by (induction n) auto

lemma bv_eq_0_iff: "bv f n = 0 \<longleftrightarrow> (\<forall>i<n. \<not> f i)"
  by (induction n) (auto simp: less_Suc_eq)

lemma bv_add: "bv f (n + m) = bv f n + 2 ^ n * bv (\<lambda>i. f (i + n)) m"
  by (induction m) (simp_all add: algebra_simps power_add)

lemma bv_inject: "bv f n = bv g n \<Longrightarrow> i < n \<Longrightarrow> f i = g i"
proof (induction n)
  case 0
  then show ?case by simp
next
  case (Suc n)
  have lt: "bv f n < 2 ^ n" "bv g n < 2 ^ n" by (rule bv_less)+
  have top: "f n = g n"
  proof (rule ccontr)
    assume "f n \<noteq> g n"
    then show False using Suc.prems(1) lt by (cases "f n"; cases "g n") simp_all
  qed
  with Suc.prems(1) have "bv f n = bv g n" by simp
  with Suc top show ?case by (cases "i = n") simp_all
qed

lemma bv_and_shift:
  assumes "\<And>i. i < s \<Longrightarrow> \<not> r i"
    and "\<And>i. i < n \<Longrightarrow> r (i + s) = (a i \<and> b)"
    and "\<And>i. s + n \<le> i \<Longrightarrow> i < s + n + k \<Longrightarrow> \<not> r i"
  shows "bv r (s + n + k) = (if b then bv a n * 2 ^ s else 0)"
proof -
  have low: "bv r s = 0" using assms(1) by (rule bv_zero)
  have mid: "bv (\<lambda>i. r (i + s)) n = (if b then bv a n else 0)"
  proof (cases b)
    case True
    then show ?thesis using assms(2) by (simp add: bv_cong [of n "\<lambda>i. r (i + s)" a])
  next
    case False
    then show ?thesis using assms(2) by (simp add: bv_zero)
  qed
  have high: "bv (\<lambda>i. r (i + (s + n))) k = 0"
    using assms(3) by (intro bv_zero) simp
  have "bv r (s + n + k) = bv r (s + n) + 2 ^ (s + n) * bv (\<lambda>i. r (i + (s + n))) k"
    by (rule bv_add)
  also have "bv r (s + n) = bv r s + 2 ^ s * bv (\<lambda>i. r (i + s)) n"
    by (rule bv_add)
  finally show ?thesis using low mid high by simp
qed

lemma sat_Mul_NBit_1Bit_Shift:
  assumes "valid_name a" "valid_name b" "valid_name r"
  shows "sat \<sigma> (Mul_NBit_1Bit_Shift a b r s n) \<longleftrightarrow>
    (\<forall>i<s. \<not> \<sigma> (r @ ''_'' @ Z i)) \<and>
    (\<forall>i<n. \<sigma> (r @ ''_'' @ Z (i + s)) = (\<sigma> (a @ ''_'' @ Z i) \<and> \<sigma> b)) \<and>
    (\<forall>i. s + n \<le> i \<and> i < n * 2 \<longrightarrow> \<not> \<sigma> (r @ ''_'' @ Z i))"
  using assms
  apply (simp add: Mul_NBit_1Bit_Shift_def sat_map_set sat_concat_map_set valid_name_def scan_simps)
  apply auto
  done

lemma val_Mul_NBit_1Bit_Shift:
  assumes "valid_name a" "valid_name b" "valid_name r" "s \<le> n"
    and "sat \<sigma> (Mul_NBit_1Bit_Shift a b r s n)"
  shows "val \<sigma> r (n * 2) = (if \<sigma> b then val \<sigma> a n * 2 ^ s else 0)"
proof -
  have f: "(\<forall>i<s. \<not> \<sigma> (r @ ''_'' @ Z i)) \<and>
    (\<forall>i<n. \<sigma> (r @ ''_'' @ Z (i + s)) = (\<sigma> (a @ ''_'' @ Z i) \<and> \<sigma> b)) \<and>
    (\<forall>i. s + n \<le> i \<and> i < n * 2 \<longrightarrow> \<not> \<sigma> (r @ ''_'' @ Z i))"
    using assms(5) sat_Mul_NBit_1Bit_Shift [OF assms(1-3)] by blast
  have n2: "n * 2 = s + n + (n - s)" using assms(4) by simp
  have "bv (\<lambda>i. \<sigma> (r @ ''_'' @ Z i)) (s + n + (n - s)) =
        (if \<sigma> b then bv (\<lambda>i. \<sigma> (a @ ''_'' @ Z i)) n * 2 ^ s else 0)"
    using f n2 by (intro bv_and_shift) auto
  then show ?thesis unfolding val_def n2 [symmetric] .
qed


lemma sat_clause_or:
  assumes "\<And>i. valid_name (nm i)"
  shows "sat_clause \<sigma> (concat (map (\<lambda>i. '' <'' @ nm i @ ''> '') xs) @ '' 0 '') \<longleftrightarrow>
         (\<exists>i\<in>set xs. \<sigma> (nm i))"
proof -
  have "scan (CHR '' '') ('' <'' @ nm i @ ''> '' @ r) = (False, nm i) # scan (CHR '' '') r" for i r
    using assms [of i] by (simp add: valid_name_def scan_simps)
  then have "scan (CHR '' '') (concat (map (\<lambda>i. '' <'' @ nm i @ ''> '') xs) @ '' 0 '') =
             map (\<lambda>i. (False, nm i)) xs @ scan (CHR '' '') '' 0 ''"
    by (intro scan_concat) simp
  then show ?thesis
    by (simp add: sat_clause_def clause_lits_def scan_skip list_ex_iff)
qed

lemma sat_clause_big:
  assumes "valid_name r" "\<And>i. valid_name (nm i)"
  shows "sat_clause \<sigma> (''-<'' @ r @ ''> '' @ concat (map (\<lambda>i. '' <'' @ nm i @ ''> '') xs) @ '' 0 '') \<longleftrightarrow>
         \<not> \<sigma> r \<or> (\<exists>i\<in>set xs. \<sigma> (nm i))"
proof -
  have "clause_lits (''-<'' @ r @ ''> '' @ concat (map (\<lambda>i. '' <'' @ nm i @ ''> '') xs) @ '' 0 '') =
        (True, r) # clause_lits (concat (map (\<lambda>i. '' <'' @ nm i @ ''> '') xs) @ '' 0 '')"
    using assms(1) by (simp add: valid_name_def scan_simps)
  then show ?thesis
    using sat_clause_or [of nm \<sigma> xs, OF assms(2)] by (simp add: sat_clause_def)
qed

lemma sat_Input_Not_Equals_Number:
  assumes "valid_name x"
  shows "sat_clause \<sigma> (Input_Not_Equals_Number x v n) \<longleftrightarrow> (\<exists>i<n. \<sigma> (x @ ''_'' @ Z i) \<noteq> shifted_bit v i)"
proof -
  define f where "f i = (if shifted_bit v i then ''-<'' @ x @ ''_'' @ Z i @ ''> '' else ''<'' @ x @ ''_'' @ Z i @ ''> '')" for i
  have "scan (CHR '' '') (f i @ r) = (shifted_bit v i, x @ ''_'' @ Z i) # scan (CHR '' '') r" for i r
    using assms by (simp add: f_def valid_name_def scan_simps)
  then have "scan (CHR '' '') (concat (map f [0..<n]) @ '' 0 '') =
             map (\<lambda>i. (shifted_bit v i, x @ ''_'' @ Z i)) [0..<n] @ scan (CHR '' '') '' 0 ''"
    by (intro scan_concat) simp
  moreover have "f = (\<lambda>i. if shifted_bit v i then ''-<'' @ x @ ''_'' @ Z i @ ''> '' else ''<'' @ x @ ''_'' @ Z i @ ''> '')"
    by (rule ext) (simp add: f_def)
  then have "Input_Not_Equals_Number x v n = concat (map f [0..<n]) @ '' 0 ''"
    by (simp add: Input_Not_Equals_Number_def)
  ultimately show ?thesis
    by (auto simp: sat_clause_def clause_lits_def scan_skip list_ex_iff)
qed

lemma sat_Or_NBit_To_1Bit:
  assumes "valid_name a" "valid_name r"
  shows "sat \<sigma> (Or_NBit_To_1Bit a r n) \<longleftrightarrow> (\<sigma> r = (\<exists>i<n. \<sigma> (a @ ''_'' @ Z i)))"
proof -
  have v: "valid_name (a @ ''_'' @ Z i)" for i using assms(1) by simp
  have big: "sat_clause \<sigma> (''-<'' @ r @ ''> '' @ concat (map (\<lambda>i. '' <'' @ (a @ ''_'' @ Z i) @ ''> '') [0..<n]) @ '' 0 '') \<longleftrightarrow>
         \<not> \<sigma> r \<or> (\<exists>i\<in>set [0..<n]. \<sigma> (a @ ''_'' @ Z i))"
    using assms(2) v by (rule sat_clause_big)
  have rev_imp: "sat \<sigma> (map (\<lambda>i. ''<'' @ r @ ''> -<'' @ a @ ''_'' @ Z i @ ''> 0 '') [0..<n]) \<longleftrightarrow>
        (\<forall>i<n. \<sigma> r \<or> \<not> \<sigma> (a @ ''_'' @ Z i))"
    using assms by (simp add: sat_map valid_name_def scan_simps)
  show ?thesis
    using big rev_imp by (auto simp: Or_NBit_To_1Bit_def)
qed

lemma sat_DoubleSize_Assign:
  assumes "valid_name a" "valid_name r" "sat \<sigma> (DoubleSize_Assign a r n)"
  shows "val \<sigma> r (n * 2) = val \<sigma> a n"
proof -
  have e: "\<forall>i<n. \<sigma> (a @ ''_'' @ Z i) = \<sigma> (r @ ''_'' @ Z i)"
    using assms by (simp add: DoubleSize_Assign_def sat_Equals_NBit)
  have z: "\<forall>i. n \<le> i \<and> i < n * 2 \<longrightarrow> \<not> \<sigma> (r @ ''_'' @ Z i)"
    using assms by (simp add: DoubleSize_Assign_def sat_map_set valid_name_def scan_simps)
  have "bv (\<lambda>i. \<sigma> (r @ ''_'' @ Z i)) (n + n) =
        bv (\<lambda>i. \<sigma> (r @ ''_'' @ Z i)) n + 2 ^ n * bv (\<lambda>i. \<sigma> (r @ ''_'' @ Z (i + n))) n"
    by (rule bv_add)
  moreover have "bv (\<lambda>i. \<sigma> (r @ ''_'' @ Z (i + n))) n = 0"
    using z by (intro bv_zero) simp
  moreover have "bv (\<lambda>i. \<sigma> (r @ ''_'' @ Z i)) n = bv (\<lambda>i. \<sigma> (a @ ''_'' @ Z i)) n"
    using e by (intro bv_cong) simp
  ultimately show ?thesis by (simp add: val_def mult_2_right)
qed


section \<open>Multiplication is sound\<close>

lemma sat_iff_pair:
  assumes "valid_name x" "valid_name y"
  shows "sat \<sigma> [''-<'' @ x @ ''>  <'' @ y @ ''> 0 '', '' <'' @ x @ ''> -<'' @ y @ ''> 0 ''] \<longleftrightarrow> \<sigma> x = \<sigma> y"
  using assms
  apply (simp add: valid_name_def scan_simps)
  apply auto
  done

lemma bv_Suc_mult: "a * bv b (Suc i) = a * bv b i + (if b i then a * 2 ^ i else 0)"
  by (simp add: algebra_simps)

lemma shift_add_accumulates:
  assumes P: "\<And>i. i < n \<Longrightarrow> p i = (if b i then a * 2 ^ i else 0)"
    and A0: "acc 0 = 0"
    and step: "\<And>i. i < n \<Longrightarrow> p i + acc i = acc (Suc i) + 2 ^ (n * 2) * of_bool (c i)"
    and a: "a < 2 ^ n"
    and "k \<le> n"
  shows "acc k = a * bv b k"
  using \<open>k \<le> n\<close>
proof (induction k)
  case 0
  then show ?case by (simp add: A0)
next
  case (Suc k)
  then have IH: "acc k = a * bv b k" and k: "k < n" by simp_all
  have "p k + acc k = a * bv b (Suc k)"
    using P [OF k] IH by (simp add: algebra_simps)
  then have eq: "acc (Suc k) + 2 ^ (n * 2) * of_bool (c k) = a * bv b (Suc k)"
    using step [OF k] by simp
  have "bv b (Suc k) < 2 ^ Suc k" by (rule bv_less)
  also have "\<dots> \<le> 2 ^ n" using k by (intro power_increasing) simp_all
  finally have "bv b (Suc k) < 2 ^ n" .
  then have "a * bv b (Suc k) < 2 ^ n * 2 ^ n"
    using a by (intro mult_strict_mono) simp_all
  then have lt: "a * bv b (Suc k) < 2 ^ (n * 2)"
    by (simp add: power_add [symmetric] mult_2_right)
  show ?case
  proof (cases "c k")
    case True
    with eq lt show ?thesis by simp
  next
    case False
    with eq show ?thesis by simp
  qed
qed

lemma Mul_NBit_sound:
  assumes v: "valid_name in_a" "valid_name in_b" "valid_name result" "valid_name over_flow"
    and s: "sat \<sigma> (fst (Mul_NBit in_a in_b result over_flow n st))"
  shows "val \<sigma> result n = (val \<sigma> in_a n * val \<sigma> in_b n) mod 2 ^ n \<and>
         (\<sigma> over_flow \<longleftrightarrow> 2 ^ n \<le> val \<sigma> in_a n * val \<sigma> in_b n)"
proof -
  define cc where "cc = mul_nbit_calls st + 1"
  define st0 where "st0 = st\<lparr>mul_nbit_calls := cc\<rparr>"
  define A1 where "A1 i = ''Mul_NBit_Accum1_'' @ Z cc @ ''_'' @ Z i" for i
  define A2 where "A2 i = ''Mul_NBit_Accum2_'' @ Z cc @ ''_'' @ Z i" for i
  define CO where "CO i = ''Mul_NBit_CarryOut_'' @ Z cc @ ''_'' @ Z i" for i
  have vA: "valid_name (A1 i)" "valid_name (A2 i)" "valid_name (CO i)" for i
    by (simp_all add: A1_def A2_def CO_def valid_name_def scan_simps)
  have s1: "sat \<sigma> (concat (map (\<lambda>i. Mul_NBit_1Bit_Shift in_a (in_b @ ''_'' @ Z i) (A1 i) i n) [0..<n]))"
    using s by (simp add: Mul_NBit_def Let_def split_beta cc_def A1_def)
  have s2: "sat \<sigma> (map (\<lambda>i. ''-<'' @ (A2 0 @ ''_'' @ Z i) @ ''> 0 '') [0..<n * 2])"
    using s by (simp add: Mul_NBit_def Let_def split_beta cc_def A2_def)
  have s3: "sat \<sigma> (fst (for_upto (\<lambda>i. Add_NBit (A1 i) (A2 i) (A2 (i + 1)) (CO i) (n * 2)) n st0))"
    using s by (simp add: Mul_NBit_def Let_def split_beta cc_def st0_def A1_def A2_def CO_def)
  have s4: "sat \<sigma> (concat (map (\<lambda>i.
            [''-<'' @ (result @ ''_'' @ Z i) @ ''>  <'' @ (A2 n @ ''_'' @ Z i) @ ''> 0 '',
             '' <'' @ (result @ ''_'' @ Z i) @ ''> -<'' @ (A2 n @ ''_'' @ Z i) @ ''> 0 '']) [0..<n]))"
    using s by (simp add: Mul_NBit_def Let_def split_beta cc_def A2_def)
  have s5: "sat_clause \<sigma> (''-<'' @ over_flow @ ''> '' @
            concat (map (\<lambda>i. '' <'' @ (A2 n @ ''_'' @ Z (i + n)) @ ''> '') [0..<n]) @ '' 0 '')"
    using s by (simp add: Mul_NBit_def Let_def split_beta cc_def A2_def)
  have s6: "sat \<sigma> (map (\<lambda>i. ''<'' @ over_flow @ ''>  -<'' @ (A2 n @ ''_'' @ Z (i + n)) @ ''> 0 '') [0..<n])"
    using s by (simp add: Mul_NBit_def Let_def split_beta cc_def A2_def)
  have P: "val \<sigma> (A1 i) (n * 2) = (if \<sigma> (in_b @ ''_'' @ Z i) then val \<sigma> in_a n * 2 ^ i else 0)"
    if "i < n" for i
  proof -
    have "sat \<sigma> (Mul_NBit_1Bit_Shift in_a (in_b @ ''_'' @ Z i) (A1 i) i n)"
      using s1 that by (simp add: sat_concat_map)
    then show ?thesis
      using v(1,2) vA(1) that by (intro val_Mul_NBit_1Bit_Shift) simp_all
  qed
  have A0: "val \<sigma> (A2 0) (n * 2) = 0"
  proof -
    have "\<not> \<sigma> (A2 0 @ ''_'' @ Z i)" if "i < n * 2" for i
    proof -
      have "sat_clause \<sigma> (''-<'' @ (A2 0 @ ''_'' @ Z i) @ ''> 0 '')"
        using s2 that by (simp add: sat_map del: append.simps)
      then show ?thesis
        using vA(2) [of 0] by (subst (asm) sat_unit_neg) simp_all
    qed
    then show ?thesis by (simp add: val_def bv_zero)
  qed
  have step: "val \<sigma> (A1 i) (n * 2) + val \<sigma> (A2 i) (n * 2) =
              val \<sigma> (A2 (Suc i)) (n * 2) + 2 ^ (n * 2) * of_bool (\<sigma> (CO i))" if lt: "i < n" for i
  proof -
    obtain s' where "sat \<sigma> (fst (Add_NBit (A1 i) (A2 i) (A2 (i + 1)) (CO i) (n * 2) s'))"
      using sat_for_upto [OF s3 lt] by blast
    then show ?thesis
      using vA by (simp add: Add_NBit_sound)
  qed
  have acc: "val \<sigma> (A2 n) (n * 2) = val \<sigma> in_a n * bv (\<lambda>i. \<sigma> (in_b @ ''_'' @ Z i)) n"
  proof (rule shift_add_accumulates [where p = "\<lambda>i. val \<sigma> (A1 i) (n * 2)" and c = "\<lambda>i. \<sigma> (CO i)"
        and acc = "\<lambda>i. val \<sigma> (A2 i) (n * 2)" and n = n and k = n])
    show "val \<sigma> (A1 i) (n * 2) = (if \<sigma> (in_b @ ''_'' @ Z i) then val \<sigma> in_a n * 2 ^ i else 0)"
      if "i < n" for i using that by (rule P)
    show "val \<sigma> (A2 0) (n * 2) = 0" by (rule A0)
    show "val \<sigma> (A1 i) (n * 2) + val \<sigma> (A2 i) (n * 2) =
          val \<sigma> (A2 (Suc i)) (n * 2) + 2 ^ (n * 2) * of_bool (\<sigma> (CO i))" if "i < n" for i
      using that by (rule step)
    show "val \<sigma> in_a n < 2 ^ n" by (simp add: val_def bv_less)
    show "n \<le> n" by simp
  qed
  define lo where "lo = bv (\<lambda>i. \<sigma> (A2 n @ ''_'' @ Z i)) n"
  define hi where "hi = bv (\<lambda>i. \<sigma> (A2 n @ ''_'' @ Z (i + n))) n"
  have split: "val \<sigma> in_a n * val \<sigma> in_b n = lo + 2 ^ n * hi"
  proof -
    have "bv (\<lambda>i. \<sigma> (A2 n @ ''_'' @ Z i)) (n + n) = lo + 2 ^ n * hi"
      unfolding lo_def hi_def by (rule bv_add)
    with acc show ?thesis by (simp add: val_def mult_2_right)
  qed
  have lo: "lo < 2 ^ n" unfolding lo_def by (rule bv_less)
  have res: "val \<sigma> result n = lo"
  proof -
    have "\<sigma> (result @ ''_'' @ Z i) = \<sigma> (A2 n @ ''_'' @ Z i)" if "i < n" for i
    proof -
      have "sat \<sigma> [''-<'' @ (result @ ''_'' @ Z i) @ ''>  <'' @ (A2 n @ ''_'' @ Z i) @ ''> 0 '',
             '' <'' @ (result @ ''_'' @ Z i) @ ''> -<'' @ (A2 n @ ''_'' @ Z i) @ ''> 0 '']"
        using s4 that by (simp add: sat_concat_map)
      then show ?thesis
        using sat_iff_pair [of "result @ ''_'' @ Z i" "A2 n @ ''_'' @ Z i" \<sigma>] v(3) vA(2) [of n]
        by simp
    qed
    then show ?thesis unfolding val_def lo_def by (intro bv_cong) simp
  qed
  have ov: "\<sigma> over_flow \<longleftrightarrow> hi \<noteq> 0"
  proof -
    have vv: "valid_name (A2 n @ ''_'' @ Z (i + n))" for i using vA(2) by simp
    have "\<not> \<sigma> over_flow \<or> (\<exists>i\<in>set [0..<n]. \<sigma> (A2 n @ ''_'' @ Z (i + n)))"
      using s5 sat_clause_big [of over_flow "\<lambda>i. A2 n @ ''_'' @ Z (i + n)" \<sigma> "[0..<n]", OF v(4) vv]
      by simp
    moreover have "\<sigma> over_flow \<or> \<not> \<sigma> (A2 n @ ''_'' @ Z (i + n))" if "i < n" for i
    proof -
      have "sat_clause \<sigma> (''<'' @ over_flow @ ''>  -<'' @ (A2 n @ ''_'' @ Z (i + n)) @ ''> 0 '')"
        using s6 that by (simp add: sat_map del: append.simps)
      then show ?thesis
        using v(4) vv [of i] by (simp add: valid_name_def scan_simps)
    qed
    ultimately show ?thesis
      unfolding hi_def bv_eq_0_iff by auto
  qed
  from split lo have "(val \<sigma> in_a n * val \<sigma> in_b n) mod 2 ^ n = lo"
    and "(val \<sigma> in_a n * val \<sigma> in_b n) div 2 ^ n = hi"
    by simp_all
  moreover have "(2 ^ n \<le> val \<sigma> in_a n * val \<sigma> in_b n) = ((val \<sigma> in_a n * val \<sigma> in_b n) div 2 ^ n \<noteq> 0)"
    by (simp add: div_eq_0_iff not_less)
  ultimately show ?thesis using res ov by simp
qed


section \<open>Comparison and division are sound\<close>

lemma bv_less_iff:
  "bv a n < bv b n \<longleftrightarrow> (\<exists>i<n. \<not> a i \<and> b i \<and> (\<forall>j. i < j \<and> j < n \<longrightarrow> a j = b j))"
proof (induction n)
  case 0
  then show ?case by simp
next
  case (Suc n)
  have la: "bv a n < 2 ^ n" and lb: "bv b n < 2 ^ n" by (rule bv_less)+
  consider (eq) "a n = b n" | (lt) "\<not> a n" "b n" | (gt) "a n" "\<not> b n" by blast
  then show ?case
  proof cases
    case eq
    then have "bv a (Suc n) < bv b (Suc n) \<longleftrightarrow> bv a n < bv b n" by simp
    also have "\<dots> \<longleftrightarrow> (\<exists>i<n. \<not> a i \<and> b i \<and> (\<forall>j. i < j \<and> j < n \<longrightarrow> a j = b j))"
      by (rule Suc.IH)
    also have "\<dots> \<longleftrightarrow> (\<exists>i<Suc n. \<not> a i \<and> b i \<and> (\<forall>j. i < j \<and> j < Suc n \<longrightarrow> a j = b j))"
      using eq by (auto simp: less_Suc_eq)
    finally show ?thesis .
  next
    case lt
    then have "bv a (Suc n) < bv b (Suc n)" using la by simp
    moreover have "\<exists>i<Suc n. \<not> a i \<and> b i \<and> (\<forall>j. i < j \<and> j < Suc n \<longrightarrow> a j = b j)"
      using lt by (intro exI [of _ n]) auto
    ultimately show ?thesis by simp
  next
    case gt
    then have "\<not> bv a (Suc n) < bv b (Suc n)" using lb by simp
    moreover have "\<not> (\<exists>i<Suc n. \<not> a i \<and> b i \<and> (\<forall>j. i < j \<and> j < Suc n \<longrightarrow> a j = b j))"
    proof
      assume "\<exists>i<Suc n. \<not> a i \<and> b i \<and> (\<forall>j. i < j \<and> j < Suc n \<longrightarrow> a j = b j)"
      then obtain i where i: "i < Suc n" "\<not> a i" "b i" "\<forall>j. i < j \<and> j < Suc n \<longrightarrow> a j = b j"
        by blast
      show False
      proof (cases "i = n")
        case True
        with i gt show False by simp
      next
        case False
        with i(1) have "i < n" by simp
        with i(4) have "a n = b n" by simp
        with gt show False by simp
      qed
    qed
    ultimately show ?thesis by simp
  qed
qed

lemma equal_accum:
  assumes "E n" and "\<And>i. i < n \<Longrightarrow> E i = (E (Suc i) \<and> e i)"
  shows "i \<le> n \<Longrightarrow> E i = (\<forall>j. i \<le> j \<and> j < n \<longrightarrow> e j)"
proof (induction "n - i" arbitrary: i)
  case 0
  then have "i = n" by simp
  then show ?case using assms(1) by auto
next
  case (Suc k)
  then have i: "i < n" and k: "k = n - Suc i" by simp_all
  have "E (Suc i) = (\<forall>j. Suc i \<le> j \<and> j < n \<longrightarrow> e j)"
    using Suc.hyps(1) [OF k] i by simp
  moreover have "E i = (E (Suc i) \<and> e i)" using assms(2) i by simp
  moreover have "(\<forall>j. i \<le> j \<and> j < n \<longrightarrow> e j) = (e i \<and> (\<forall>j. Suc i \<le> j \<and> j < n \<longrightarrow> e j))"
  proof (intro iffI conjI allI impI)
    assume "\<forall>j. i \<le> j \<and> j < n \<longrightarrow> e j"
    then show "e i" using i by simp
  next
    fix j assume "\<forall>j. i \<le> j \<and> j < n \<longrightarrow> e j" "Suc i \<le> j \<and> j < n"
    then show "e j" by simp
  next
    fix j assume a: "e i \<and> (\<forall>j. Suc i \<le> j \<and> j < n \<longrightarrow> e j)" "i \<le> j \<and> j < n"
    show "e j"
    proof (cases "j = i")
      case True
      with a show ?thesis by simp
    next
      case False
      with a(2) have "Suc i \<le> j" by simp
      with a show ?thesis by simp
    qed
  qed
  ultimately show ?case by blast
qed

lemma LessThan_NBit_sound:
  assumes v: "valid_name in_a" "valid_name in_b"
    and s: "sat \<sigma> (fst (LessThan_NBit in_a in_b n st))"
  shows "val \<sigma> in_a n < val \<sigma> in_b n"
proof -
  define cc where "cc = lessthan_nbit_calls st + 1"
  define EQ where "EQ i = ''LessThan_NBit_Equals_'' @ Z cc @ ''_'' @ Z i" for i
  define LT where "LT i = ''LessThan_NBit_Less_'' @ Z cc @ ''_'' @ Z i" for i
  define EA where "EA i = ''LessThan_NBit_EqualAccum_'' @ Z cc @ ''_'' @ Z i" for i
  define RS where "RS i = ''LessThan_NBit_Result_'' @ Z cc @ ''_'' @ Z i" for i
  have vn: "valid_name (EQ i)" "valid_name (LT i)" "valid_name (EA i)" "valid_name (RS i)" for i
    by (simp_all add: EQ_def LT_def EA_def RS_def valid_name_def scan_simps)
  have s1: "sat \<sigma> (concat (map (\<lambda>i. Equals_1Bit (in_a @ ''_'' @ Z i) (in_b @ ''_'' @ Z i) (EQ i)) [0..<n]))"
    using s by (simp add: LessThan_NBit_def Let_def cc_def EQ_def)
  have s2: "sat \<sigma> (concat (map (\<lambda>i. LessThan_1Bit (in_a @ ''_'' @ Z i) (in_b @ ''_'' @ Z i) (LT i)) [0..<n]))"
    using s by (simp add: LessThan_NBit_def Let_def cc_def LT_def)
  have s3: "sat_clause \<sigma> (''<'' @ EA n @ ''> 0 '')"
    using s by (simp add: LessThan_NBit_def Let_def cc_def EA_def)
  have s4: "sat \<sigma> (concat (map (\<lambda>i. And_1Bit (EA (i + 1)) (EQ i) (EA i)) [0..<n]))"
    using s by (simp add: LessThan_NBit_def Let_def cc_def EA_def EQ_def)
  have s5: "sat \<sigma> (concat (map (\<lambda>i. And_1Bit (EA (i + 1)) (LT i) (RS i)) [0..<n]))"
    using s by (simp add: LessThan_NBit_def Let_def cc_def EA_def LT_def RS_def)
  have s6: "sat_clause \<sigma> (concat (map (\<lambda>i. '' <'' @ RS i @ ''> '') [0..<n]) @ '' 0 '')"
    using s by (simp add: LessThan_NBit_def Let_def cc_def RS_def)
  have eq: "\<sigma> (EQ i) = (\<sigma> (in_a @ ''_'' @ Z i) = \<sigma> (in_b @ ''_'' @ Z i))" if "i < n" for i
    using s1 that sat_Equals_1Bit [of "in_a @ ''_'' @ Z i" "in_b @ ''_'' @ Z i" "EQ i" \<sigma>] v vn(1) [of i]
    by (simp add: sat_concat_map)
  have lt: "\<sigma> (LT i) = (\<not> \<sigma> (in_a @ ''_'' @ Z i) \<and> \<sigma> (in_b @ ''_'' @ Z i))" if "i < n" for i
    using s2 that sat_LessThan_1Bit [of "in_a @ ''_'' @ Z i" "in_b @ ''_'' @ Z i" "LT i" \<sigma>] v vn(2) [of i]
    by (simp add: sat_concat_map)
  have ean: "\<sigma> (EA n)"
    using s3 sat_unit_pos [of "EA n" \<sigma>] vn(3) [of n] by simp
  have ea: "\<sigma> (EA i) = (\<sigma> (EA (Suc i)) \<and> \<sigma> (EQ i))" if "i < n" for i
    using s4 that sat_And_1Bit [of "EA (i + 1)" "EQ i" "EA i" \<sigma>] vn by (simp add: sat_concat_map)
  have rs: "\<sigma> (RS i) = (\<sigma> (EA (Suc i)) \<and> \<sigma> (LT i))" if "i < n" for i
    using s5 that sat_And_1Bit [of "EA (i + 1)" "LT i" "RS i" \<sigma>] vn by (simp add: sat_concat_map)
  have acc: "\<sigma> (EA i) = (\<forall>j. i \<le> j \<and> j < n \<longrightarrow> \<sigma> (EQ j))" if "i \<le> n" for i
    using ean ea that by (rule equal_accum [where E = "\<lambda>i. \<sigma> (EA i)" and e = "\<lambda>i. \<sigma> (EQ i)"])
  obtain i where i: "i < n" "\<sigma> (RS i)"
    using s6 sat_clause_or [of RS \<sigma> "[0..<n]"] vn(4) by auto
  have "\<sigma> (EA (Suc i))" "\<sigma> (LT i)" using rs i by simp_all
  then have "\<forall>j. i < j \<and> j < n \<longrightarrow> \<sigma> (in_a @ ''_'' @ Z j) = \<sigma> (in_b @ ''_'' @ Z j)"
    and "\<not> \<sigma> (in_a @ ''_'' @ Z i) \<and> \<sigma> (in_b @ ''_'' @ Z i)"
    using acc [of "Suc i"] i(1) eq lt by (auto simp: Suc_le_eq)
  with i(1) show ?thesis
    unfolding val_def bv_less_iff by blast
qed

lemma DivMod_NBit_sound:
  assumes v: "valid_name in_a" "valid_name in_b" "valid_name div_name" "valid_name mod_name"
    and s: "sat \<sigma> (fst (DivMod_NBit in_a in_b div_name mod_name n st))"
  shows "val \<sigma> in_b n * val \<sigma> div_name n + val \<sigma> mod_name n = val \<sigma> in_a n \<and>
         val \<sigma> mod_name n < val \<sigma> in_b n"
proof -
  define cc where "cc = divmod_nbit_calls st + 1"
  define AC where "AC = ''DivMod_NBit_Accum_'' @ Z cc"
  define MO where "MO = ''DivMode_NBit_MulOverflow_'' @ Z cc"
  define AO where "AO = ''DivMode_NBit_AddOverflow_'' @ Z cc"
  have vn: "valid_name AC" "valid_name MO" "valid_name AO"
    by (simp_all add: AC_def MO_def AO_def valid_name_def scan_simps)
  define s0 where "s0 = st\<lparr>divmod_nbit_calls := cc\<rparr>"
  define s1 where "s1 = snd (Mul_NBit in_b div_name AC MO n s0)"
  define s2 where "s2 = snd (Add_NBit AC mod_name in_a AO n s1)"
  have m: "sat \<sigma> (fst (Mul_NBit in_b div_name AC MO n s0))"
    using s by (simp add: DivMod_NBit_def Let_def split_beta cc_def AC_def MO_def AO_def s0_def)
  have a: "sat \<sigma> (fst (Add_NBit AC mod_name in_a AO n s1))"
    using s by (simp add: DivMod_NBit_def Let_def split_beta cc_def AC_def MO_def AO_def s0_def s1_def)
  have l: "sat \<sigma> (fst (LessThan_NBit mod_name in_b n s2))"
    using s by (simp add: DivMod_NBit_def Let_def split_beta cc_def AC_def MO_def AO_def s0_def s1_def s2_def)
  have u: "sat \<sigma> [''-<'' @ MO @ ''> 0 '', ''-<'' @ AO @ ''> 0 '']"
    using s by (simp add: DivMod_NBit_def Let_def split_beta cc_def AC_def MO_def AO_def)
  have no: "\<not> \<sigma> MO" "\<not> \<sigma> AO"
    using u sat_unit_neg [of MO \<sigma>] sat_unit_neg [of AO \<sigma>] vn by simp_all
  have "val \<sigma> AC n = (val \<sigma> in_b n * val \<sigma> div_name n) mod 2 ^ n"
    and "\<sigma> MO \<longleftrightarrow> 2 ^ n \<le> val \<sigma> in_b n * val \<sigma> div_name n"
    using Mul_NBit_sound [OF v(2,3) vn(1,2) m] by simp_all
  with no have ac: "val \<sigma> AC n = val \<sigma> in_b n * val \<sigma> div_name n" by simp
  have "val \<sigma> AC n + val \<sigma> mod_name n = val \<sigma> in_a n + 2 ^ n * of_bool (\<sigma> AO)"
    using vn(1) v(4) v(1) vn(3) a by (rule Add_NBit_sound)
  with no ac have "val \<sigma> in_b n * val \<sigma> div_name n + val \<sigma> mod_name n = val \<sigma> in_a n" by simp
  moreover have "val \<sigma> mod_name n < val \<sigma> in_b n"
    using v(4,2) l by (rule LessThan_NBit_sound)
  ultimately show ?thesis ..
qed

lemma DivMod_NBit_values:
  assumes "valid_name in_a" "valid_name in_b" "valid_name div_name" "valid_name mod_name"
    and "sat \<sigma> (fst (DivMod_NBit in_a in_b div_name mod_name n st))"
  shows "val \<sigma> div_name n = val \<sigma> in_a n div val \<sigma> in_b n"
    and "val \<sigma> mod_name n = val \<sigma> in_a n mod val \<sigma> in_b n"
    and "0 < val \<sigma> in_b n"
proof -
  have e: "val \<sigma> in_b n * val \<sigma> div_name n + val \<sigma> mod_name n = val \<sigma> in_a n"
    and l: "val \<sigma> mod_name n < val \<sigma> in_b n"
    using DivMod_NBit_sound [OF assms] by simp_all
  from l show "0 < val \<sigma> in_b n" by simp
  from e l show "val \<sigma> div_name n = val \<sigma> in_a n div val \<sigma> in_b n"
    by (metis add.commute div_mult_self2 div_less add.left_neutral less_nat_zero_code mult.commute)
  from e l show "val \<sigma> mod_name n = val \<sigma> in_a n mod val \<sigma> in_b n"
    by (metis mod_less mod_mult_self4 mult.commute add.commute)
qed


section \<open>Modular exponentiation is sound\<close>

lemma bv_bit_int: "0 \<le> v \<Longrightarrow> bv (bit (v::int)) n = take_bit n (nat v)"
proof -
  assume "0 \<le> v"
  then have "bit v i = bit (nat v) i" for i
    by (metis bit_of_nat_iff_bit int_nat_eq)
  then have "bv (bit v) n = bv (bit (nat v)) n" by (intro bv_cong) simp
  then show ?thesis by (simp add: bv_bit_take)
qed

lemma shifted_bit_low: "i < 32 \<Longrightarrow> shifted_bit v i = bit v i"
  by (simp add: shifted_bit_def)

lemma val_Input_Equals_Number:
  assumes "valid_name x" "0 \<le> v" "sat \<sigma> (Input_Equals_Number x v n)" "n \<le> 32"
  shows "val \<sigma> x n = take_bit n (nat v)"
proof -
  have "\<forall>i<n. \<sigma> (x @ ''_'' @ Z i) = bit v i"
    using assms(1,3,4) by (simp add: sat_Input_Equals_Number shifted_bit_low)
  then have "bv (\<lambda>i. \<sigma> (x @ ''_'' @ Z i)) n = bv (bit v) n"
    by (intro bv_cong) simp
  with assms(2) show ?thesis by (simp add: val_def bv_bit_int)
qed

lemma val_Input_Equals_Number_pinned:
  assumes "valid_name x" "sat \<sigma> (Input_Equals_Number x v n)"
  shows "val \<sigma> x n = pinned_value v n"
proof -
  have "\<forall>i<n. \<sigma> (x @ ''_'' @ Z i) = shifted_bit v i"
    using assms by (simp add: sat_Input_Equals_Number)
  then show ?thesis unfolding val_def pinned_value_def by (intro bv_cong) simp
qed

lemma pinned_value_low:
  assumes "0 \<le> v" "n \<le> 32"
  shows "pinned_value v n = take_bit n (nat v)"
proof -
  have "bv (shifted_bit v) n = bv (bit v) n"
    using assms(2) by (intro bv_cong) (simp add: shifted_bit_low)
  then show ?thesis using assms(1) by (simp add: pinned_value_def bv_bit_int)
qed

lemma val_Equals_NBit:
  assumes "valid_name a" "valid_name b" "sat \<sigma> (Equals_NBit a b n)"
  shows "val \<sigma> a n = val \<sigma> b n"
proof -
  have "\<forall>i<n. \<sigma> (a @ ''_'' @ Z i) = \<sigma> (b @ ''_'' @ Z i)"
    using assms by (simp add: sat_Equals_NBit)
  then show ?thesis unfolding val_def by (intro bv_cong) simp
qed

lemma val_If_Cond_NBit:
  assumes "valid_name a" "valid_name b" "valid_name c" "valid_name r"
    and "sat \<sigma> (If_Cond_A_Else_B_NBit a b c r n)"
  shows "val \<sigma> r n = (if \<sigma> c then val \<sigma> a n else val \<sigma> b n)"
proof -
  have "\<forall>i<n. \<sigma> (r @ ''_'' @ Z i) = (if \<sigma> c then \<sigma> (a @ ''_'' @ Z i) else \<sigma> (b @ ''_'' @ Z i))"
    using assms by (simp add: sat_If_Cond_NBit)
  then show ?thesis unfolding val_def by (cases "\<sigma> c") (auto intro!: bv_cong)
qed

lemma val_low_half: "val \<sigma> x n = val \<sigma> x (n * 2) mod 2 ^ n"
proof -
  have "bv (\<lambda>i. \<sigma> (x @ ''_'' @ Z i)) (n + n) =
        bv (\<lambda>i. \<sigma> (x @ ''_'' @ Z i)) n + 2 ^ n * bv (\<lambda>i. \<sigma> (x @ ''_'' @ Z (i + n))) n"
    by (rule bv_add)
  moreover have "bv (\<lambda>i. \<sigma> (x @ ''_'' @ Z i)) n < 2 ^ n" by (rule bv_less)
  ultimately show ?thesis by (simp add: val_def mult_2_right)
qed

lemma val_less: "val \<sigma> x n < 2 ^ n"
  by (simp add: val_def bv_less)

lemma PowMod_step_sound:
  assumes s: "sat \<sigma> (fst (PowMod_step cc n i st))"
    and one: "val \<sigma> (''One_NBit_'' @ Z (n * 2)) (n * 2) = 1"
    and pr: "val \<sigma> (''PowMod_NBit_PartialResult_'' @ Z cc @ ''_'' @ Z i) (n * 2) < 2 ^ n \<or>
             \<not> \<sigma> (''PowMod_NBit_Exp_DoubleSize_'' @ Z cc @ ''_'' @ Z i)"
    and cp: "val \<sigma> (''PowMod_NBit_CurrentPow_'' @ Z cc @ ''_'' @ Z i) (n * 2) < 2 ^ n"
    and n: "0 < n"
  shows "0 < val \<sigma> (''PowMod_NBit_Mod_DoubleSize_'' @ Z cc) (n * 2) \<and>
     val \<sigma> (''PowMod_NBit_PartialResult_'' @ Z cc @ ''_'' @ Z (i + 1)) (n * 2) =
       (val \<sigma> (''PowMod_NBit_PartialResult_'' @ Z cc @ ''_'' @ Z i) (n * 2) *
        (if \<sigma> (''PowMod_NBit_Exp_DoubleSize_'' @ Z cc @ ''_'' @ Z i)
         then val \<sigma> (''PowMod_NBit_CurrentPow_'' @ Z cc @ ''_'' @ Z i) (n * 2) else 1))
       mod val \<sigma> (''PowMod_NBit_Mod_DoubleSize_'' @ Z cc) (n * 2) \<and>
     val \<sigma> (''PowMod_NBit_CurrentPow_'' @ Z cc @ ''_'' @ Z (i + 1)) (n * 2) =
       (val \<sigma> (''PowMod_NBit_CurrentPow_'' @ Z cc @ ''_'' @ Z i) (n * 2) *
        val \<sigma> (''PowMod_NBit_CurrentPow_'' @ Z cc @ ''_'' @ Z i) (n * 2))
       mod val \<sigma> (''PowMod_NBit_Mod_DoubleSize_'' @ Z cc) (n * 2)"
proof -
  define PR where "PR j = ''PowMod_NBit_PartialResult_'' @ Z cc @ ''_'' @ Z j" for j
  define CP where "CP j = ''PowMod_NBit_CurrentPow_'' @ Z cc @ ''_'' @ Z j" for j
  define ED where "ED = ''PowMod_NBit_Exp_DoubleSize_'' @ Z cc @ ''_'' @ Z i"
  define MD where "MD = ''PowMod_NBit_Mod_DoubleSize_'' @ Z cc"
  define BF where "BF = ''PowMod_NBit_BitFactor_'' @ Z cc @ ''_'' @ Z i"
  define MU where "MU = ''PowMod_NBit_Multipled_'' @ Z cc @ ''_'' @ Z i"
  define MO where "MO = ''PowMod_NBit_MultipledOverflow_'' @ Z cc @ ''_'' @ Z i"
  define D1 where "D1 = ''PowMod_NBit_Div1_'' @ Z cc @ ''_'' @ Z i"
  define SQ where "SQ = ''PowMod_NBit_SquareBase_'' @ Z cc @ ''_'' @ Z i"
  define SO where "SO = ''PowMod_NBit_SquareBaseOverflow_'' @ Z cc @ ''_'' @ Z i"
  define D2 where "D2 = ''PowMod_NBit_Div2_'' @ Z cc @ ''_'' @ Z i"
  define ONE where "ONE = ''One_NBit_'' @ Z (n * 2)"
  note defs = PR_def CP_def ED_def MD_def BF_def MU_def MO_def D1_def SQ_def SO_def D2_def ONE_def
  have vn: "valid_name (PR j)" "valid_name (CP j)" "valid_name ED" "valid_name MD" "valid_name BF"
    "valid_name MU" "valid_name MO" "valid_name D1" "valid_name SQ" "valid_name SO" "valid_name D2"
    "valid_name ONE" for j
    by (simp_all add: defs valid_name_def scan_simps)
  define s1 where "s1 = snd (Mul_NBit (PR i) BF MU MO (n * 2) st)"
  define s2 where "s2 = snd (DivMod_NBit MU MD D1 (PR (i + 1)) (n * 2) s1)"
  define s3 where "s3 = snd (Mul_NBit (CP i) (CP i) SQ SO (n * 2) s2)"
  have a1: "sat \<sigma> (If_Cond_A_Else_B_NBit (CP i) ONE ED BF (n * 2))"
    using s by (simp add: PowMod_step_def Let_def split_beta defs)
  have a2: "sat \<sigma> (fst (Mul_NBit (PR i) BF MU MO (n * 2) st))"
    using s by (simp add: PowMod_step_def Let_def split_beta defs)
  have a3: "sat \<sigma> (fst (DivMod_NBit MU MD D1 (PR (i + 1)) (n * 2) s1))"
    using s by (simp add: PowMod_step_def Let_def split_beta defs s1_def)
  have a4: "sat \<sigma> (fst (Mul_NBit (CP i) (CP i) SQ SO (n * 2) s2))"
    using s by (simp add: PowMod_step_def Let_def split_beta defs s1_def s2_def)
  have a5: "sat \<sigma> (fst (DivMod_NBit SQ MD D2 (CP (i + 1)) (n * 2) s3))"
    using s by (simp add: PowMod_step_def Let_def split_beta defs s1_def s2_def s3_def)
  have bf: "val \<sigma> BF (n * 2) = (if \<sigma> ED then val \<sigma> (CP i) (n * 2) else 1)"
    using val_If_Cond_NBit [OF vn(2) vn(12) vn(3) vn(5) a1] one by (simp add: ONE_def)
  have one_lt: "(1::nat) < 2 ^ n" using n one_less_power [of "2::nat" n] by simp
  have bf_lt: "val \<sigma> BF (n * 2) < 2 ^ n"
    using bf cp one_lt by (simp add: CP_def)
  have w: "(2::nat) ^ (n * 2) = 2 ^ n * 2 ^ n"
    by (simp add: power_add [symmetric] mult_2_right)
  have "val \<sigma> (PR i) (n * 2) * val \<sigma> BF (n * 2) < 2 ^ n * 2 ^ n"
  proof (cases "val \<sigma> (PR i) (n * 2) < 2 ^ n")
    case True
    then show ?thesis using bf_lt by (intro mult_strict_mono) simp_all
  next
    case False
    then have "val \<sigma> BF (n * 2) = 1" using pr bf by (simp add: PR_def ED_def)
    then show ?thesis using val_less [of \<sigma> "PR i" "n * 2"] w by simp
  qed
  then have ml: "val \<sigma> MU (n * 2) = val \<sigma> (PR i) (n * 2) * val \<sigma> BF (n * 2)"
    using Mul_NBit_sound [OF vn(1) vn(5) vn(6) vn(7) a2] w by simp
  have "val \<sigma> (CP i) (n * 2) * val \<sigma> (CP i) (n * 2) < 2 ^ n * 2 ^ n"
    using cp by (intro mult_strict_mono) (simp_all add: CP_def)
  then have sq: "val \<sigma> SQ (n * 2) = val \<sigma> (CP i) (n * 2) * val \<sigma> (CP i) (n * 2)"
    using Mul_NBit_sound [OF vn(2) vn(2) vn(9) vn(10) a4] w by simp
  have d1: "val \<sigma> (PR (i + 1)) (n * 2) = val \<sigma> MU (n * 2) mod val \<sigma> MD (n * 2)"
    and pos: "0 < val \<sigma> MD (n * 2)"
    using DivMod_NBit_values [OF vn(6) vn(4) vn(8) vn(1) a3] by simp_all
  have d2: "val \<sigma> (CP (i + 1)) (n * 2) = val \<sigma> SQ (n * 2) mod val \<sigma> MD (n * 2)"
    using DivMod_NBit_values [OF vn(9) vn(4) vn(11) vn(2) a5] by simp
  show ?thesis
    using pos d1 d2 ml sq bf by (simp add: defs)
qed


lemma square_and_multiply:
  fixes b m :: nat
  assumes pr0: "pr 0 = c" and cp0: "cp 0 = b"
    and prs: "\<And>i. i < n \<Longrightarrow> pr (Suc i) = (pr i * (if e i then cp i else 1)) mod m"
    and cps: "\<And>i. i < n \<Longrightarrow> cp (Suc i) = (cp i * cp i) mod m"
  shows "i \<le> n \<Longrightarrow> pr i mod m = (c * b ^ bv e i) mod m \<and> cp i mod m = b ^ (2 ^ i) mod m"
proof (induction i)
  case 0
  then show ?case by (simp add: pr0 cp0)
next
  case (Suc i)
  then have IH: "pr i mod m = (c * b ^ bv e i) mod m" "cp i mod m = b ^ (2 ^ i) mod m" and i: "i < n"
    by simp_all
  have c: "cp (Suc i) mod m = b ^ (2 ^ Suc i) mod m"
  proof -
    have "cp (Suc i) mod m = (cp i mod m * (cp i mod m)) mod m"
      using cps [OF i] by (simp add: mod_mult_eq)
    also have "\<dots> = (b ^ (2 ^ i) * b ^ (2 ^ i)) mod m"
      using IH(2) by (simp add: mod_mult_eq)
    also have "b ^ (2 ^ i) * b ^ (2 ^ i) = b ^ (2 ^ Suc i)"
      by (simp add: power_add [symmetric] mult_2)
    finally show ?thesis .
  qed
  have p: "pr (Suc i) mod m = (c * b ^ bv e (Suc i)) mod m"
  proof (cases "e i")
    case True
    then have "pr (Suc i) mod m = (pr i mod m * (cp i mod m)) mod m"
      using prs [OF i] by (simp add: mod_mult_eq)
    also have "\<dots> = ((c * b ^ bv e i) * b ^ (2 ^ i)) mod m"
      using IH by (simp add: mod_mult_eq)
    finally show ?thesis using True by (simp add: power_add mult.assoc)
  next
    case False
    then show ?thesis using prs [OF i] IH(1) by simp
  qed
  from p c show ?case ..
qed

lemma PowMod_NBit_value:
  assumes v: "valid_name base" "valid_name exp" "valid_name mod_name" "valid_name result"
    and s: "sat \<sigma> (fst (PowMod_NBit base exp mod_name result n st))"
    and one: "val \<sigma> (''One_NBit_'' @ Z (n * 2)) (n * 2) = 1"
    and m: "2 \<le> val \<sigma> mod_name n"
    and w: "n * 2 \<le> 32 \<or> \<not> \<sigma> (exp @ ''_'' @ Z 0)"
  shows "val \<sigma> result n =
         (pinned_value 1 (n * 2) * val \<sigma> base n ^ val \<sigma> exp n) mod val \<sigma> mod_name n"
proof -
  define cc where "cc = powmod_nbit_calls st + 1"
  define st0 where "st0 = st\<lparr>powmod_nbit_calls := cc\<rparr>"
  define PR where "PR j = ''PowMod_NBit_PartialResult_'' @ Z cc @ ''_'' @ Z j" for j
  define CP where "CP j = ''PowMod_NBit_CurrentPow_'' @ Z cc @ ''_'' @ Z j" for j
  define BD where "BD = ''PowMod_NBit_Base_DoubleSize_'' @ Z cc"
  define ED where "ED = ''PowMod_NBit_Exp_DoubleSize_'' @ Z cc"
  define MD where "MD = ''PowMod_NBit_Mod_DoubleSize_'' @ Z cc"
  note defs = PR_def CP_def BD_def ED_def MD_def
  have vn: "valid_name (PR j)" "valid_name (CP j)" "valid_name BD" "valid_name ED" "valid_name MD" for j
    by (simp_all add: defs valid_name_def scan_simps)
  have n: "0 < n"
  proof (rule ccontr)
    assume "\<not> 0 < n"
    then have "val \<sigma> mod_name n = 0" by (simp add: val_def)
    with m show False by simp
  qed
  have a1: "sat \<sigma> (DoubleSize_Assign base BD n)"
    using s by (simp add: PowMod_NBit_def Let_def split_beta cc_def defs)
  have a2: "sat \<sigma> (DoubleSize_Assign exp ED n)"
    using s by (simp add: PowMod_NBit_def Let_def split_beta cc_def defs)
  have a3: "sat \<sigma> (DoubleSize_Assign mod_name MD n)"
    using s by (simp add: PowMod_NBit_def Let_def split_beta cc_def defs)
  have a4: "sat \<sigma> (Input_Equals_Number (PR 0) 1 (n * 2))"
    using s by (simp add: PowMod_NBit_def Let_def split_beta cc_def defs)
  have a5: "sat \<sigma> (Equals_NBit (CP 0) BD (n * 2))"
    using s by (simp add: PowMod_NBit_def Let_def split_beta cc_def defs)
  have a6: "sat \<sigma> (fst (for_upto (PowMod_step cc n) n st0))"
    using s by (simp add: PowMod_NBit_def Let_def split_beta cc_def st0_def)
  have a7: "sat \<sigma> (Equals_NBit result (PR n) n)"
    using s by (simp add: PowMod_NBit_def Let_def split_beta cc_def defs)
  define b where "b = val \<sigma> base n"
  define md where "md = val \<sigma> mod_name n"
  define e where "e i = \<sigma> (ED @ ''_'' @ Z i)" for i
  have bd: "val \<sigma> BD (n * 2) = b"
    using sat_DoubleSize_Assign [OF v(1) vn(3) a1] by (simp add: b_def)
  have mdv: "val \<sigma> MD (n * 2) = md"
    using sat_DoubleSize_Assign [OF v(3) vn(5) a3] by (simp add: md_def)
  have md_lt: "md < 2 ^ n" unfolding md_def by (rule val_less)
  have ev: "bv e n = val \<sigma> exp n"
  proof -
    have "sat \<sigma> (Equals_NBit exp ED n)"
      using a2 by (simp add: DoubleSize_Assign_def)
    then have "val \<sigma> exp n = val \<sigma> ED n"
      using v(2) vn(4) by (intro val_Equals_NBit)
    moreover have "e = (\<lambda>i. \<sigma> (ED @ ''_'' @ Z i))"
      by (rule ext) (simp add: e_def)
    ultimately show ?thesis by (simp add: val_def)
  qed
  have pr0: "val \<sigma> (PR 0) (n * 2) = pinned_value 1 (n * 2)"
    using vn(1) a4 by (rule val_Input_Equals_Number_pinned)
  have e0: "e 0 = \<sigma> (exp @ ''_'' @ Z 0)"
  proof -
    have "sat \<sigma> (Equals_NBit exp ED n)"
      using a2 by (simp add: DoubleSize_Assign_def)
    then show ?thesis using v(2) vn(4) n by (simp add: sat_Equals_NBit e_def)
  qed
  have one_lt: "(1::nat) < 2 ^ n" using n one_less_power [of "2::nat" n] by simp
  have pr0_ok: "val \<sigma> (PR 0) (n * 2) < 2 ^ n \<or> \<not> e 0"
  proof (cases "n * 2 \<le> 32")
    case True
    then have "pinned_value 1 (n * 2) = 1" using n by (simp add: pinned_value_low)
    then show ?thesis using pr0 one_lt by simp
  next
    case False
    then show ?thesis using w e0 by simp
  qed
  have cp0: "val \<sigma> (CP 0) (n * 2) = b"
    using val_Equals_NBit [OF vn(2) vn(3) a5] bd by simp
  have b_lt: "b < 2 ^ n" unfolding b_def by (rule val_less)
  have bounds: "(0 < i \<longrightarrow> val \<sigma> (PR i) (n * 2) < 2 ^ n) \<and> val \<sigma> (CP i) (n * 2) < 2 ^ n \<and>
      (i < n \<longrightarrow>
       val \<sigma> (PR (Suc i)) (n * 2) =
         (val \<sigma> (PR i) (n * 2) * (if e i then val \<sigma> (CP i) (n * 2) else 1)) mod md \<and>
       val \<sigma> (CP (Suc i)) (n * 2) = (val \<sigma> (CP i) (n * 2) * val \<sigma> (CP i) (n * 2)) mod md)"
    if "i \<le> n" for i
    using that
  proof (induction i)
    case 0
    have lt0: "val \<sigma> (CP 0) (n * 2) < 2 ^ n"
      using cp0 b_lt by simp
    have "val \<sigma> (PR (Suc 0)) (n * 2) =
         (val \<sigma> (PR 0) (n * 2) * (if e 0 then val \<sigma> (CP 0) (n * 2) else 1)) mod md \<and>
       val \<sigma> (CP (Suc 0)) (n * 2) = (val \<sigma> (CP 0) (n * 2) * val \<sigma> (CP 0) (n * 2)) mod md"
    proof -
      obtain s' where "sat \<sigma> (fst (PowMod_step cc n 0 s'))"
        using sat_for_upto [OF a6 n] by blast
      from PowMod_step_sound [OF this one _ _ n] lt0 pr0_ok mdv show ?thesis
        by (simp add: defs e_def)
    qed
    with lt0 show ?case by simp
  next
    case (Suc i)
    then have i: "i < n" by simp
    with Suc have st: "val \<sigma> (PR (Suc i)) (n * 2) =
         (val \<sigma> (PR i) (n * 2) * (if e i then val \<sigma> (CP i) (n * 2) else 1)) mod md"
       "val \<sigma> (CP (Suc i)) (n * 2) = (val \<sigma> (CP i) (n * 2) * val \<sigma> (CP i) (n * 2)) mod md"
      by simp_all
    have mdpos: "0 < md" using m by (simp add: md_def)
    have lt: "val \<sigma> (PR (Suc i)) (n * 2) < 2 ^ n" "val \<sigma> (CP (Suc i)) (n * 2) < 2 ^ n"
      using st mdpos md_lt
      by (metis (no_types, lifting) mod_less_divisor less_trans)+
    have "val \<sigma> (PR (Suc (Suc i))) (n * 2) =
         (val \<sigma> (PR (Suc i)) (n * 2) * (if e (Suc i) then val \<sigma> (CP (Suc i)) (n * 2) else 1)) mod md \<and>
       val \<sigma> (CP (Suc (Suc i))) (n * 2) = (val \<sigma> (CP (Suc i)) (n * 2) * val \<sigma> (CP (Suc i)) (n * 2)) mod md"
      if lt': "Suc i < n"
    proof -
      obtain s' where "sat \<sigma> (fst (PowMod_step cc n (Suc i) s'))"
        using sat_for_upto [OF a6 lt'] by blast
      from PowMod_step_sound [OF this one _ _ n] lt mdv show ?thesis
        by (simp add: defs e_def)
    qed
    with lt show ?case by simp
  qed
  have main: "val \<sigma> (PR n) (n * 2) mod md = (pinned_value 1 (n * 2) * b ^ bv e n) mod md \<and>
              val \<sigma> (CP n) (n * 2) mod md = b ^ (2 ^ n) mod md"
  proof (rule square_and_multiply [where pr = "\<lambda>i. val \<sigma> (PR i) (n * 2)"
        and cp = "\<lambda>i. val \<sigma> (CP i) (n * 2)" and n = n])
    show "val \<sigma> (PR 0) (n * 2) = pinned_value 1 (n * 2)" by (rule pr0)
    show "val \<sigma> (CP 0) (n * 2) = b" by (rule cp0)
    show "val \<sigma> (PR (Suc i)) (n * 2) =
         (val \<sigma> (PR i) (n * 2) * (if e i then val \<sigma> (CP i) (n * 2) else 1)) mod md" if "i < n" for i
      using bounds [of i] that by simp
    show "val \<sigma> (CP (Suc i)) (n * 2) = (val \<sigma> (CP i) (n * 2) * val \<sigma> (CP i) (n * 2)) mod md"
      if "i < n" for i
      using bounds [of i] that by simp
    show "n \<le> n" by simp
  qed
  have "val \<sigma> result n = val \<sigma> (PR n) n"
    using v(4) vn(1) a7 by (rule val_Equals_NBit)
  also have "\<dots> = val \<sigma> (PR n) (n * 2) mod 2 ^ n" by (rule val_low_half)
  also have "\<dots> = val \<sigma> (PR n) (n * 2)"
    using bounds [of n] n by simp
  finally have r: "val \<sigma> result n = val \<sigma> (PR n) (n * 2)" .
  have "val \<sigma> (PR n) (n * 2) < md"
  proof -
    obtain k where k: "n = Suc k" using n by (cases n) simp_all
    have "val \<sigma> (PR (Suc k)) (n * 2) =
         (val \<sigma> (PR k) (n * 2) * (if e k then val \<sigma> (CP k) (n * 2) else 1)) mod md"
      using bounds [of k] k by simp
    then show ?thesis using m k by (simp add: md_def)
  qed
  then have "val \<sigma> (PR n) (n * 2) mod md = val \<sigma> (PR n) (n * 2)" by simp
  then show ?thesis using r main ev by (simp add: b_def md_def)
qed

lemma PowMod_NBit_sound:
  assumes v: "valid_name base" "valid_name exp" "valid_name mod_name" "valid_name result"
    and s: "sat \<sigma> (fst (PowMod_NBit base exp mod_name result n st))"
    and one: "val \<sigma> (''One_NBit_'' @ Z (n * 2)) (n * 2) = 1"
    and m: "2 \<le> val \<sigma> mod_name n"
    and w: "n * 2 \<le> 32"
  shows "val \<sigma> result n = (val \<sigma> base n ^ val \<sigma> exp n) mod val \<sigma> mod_name n"
proof -
  have n: "0 < n"
  proof (rule ccontr)
    assume "\<not> 0 < n"
    then have "val \<sigma> mod_name n = 0" by (simp add: val_def)
    with m show False by simp
  qed
  have "pinned_value 1 (n * 2) = 1" using w n by (simp add: pinned_value_low)
  then show ?thesis using PowMod_NBit_value [OF v s one m] w by simp
qed


section \<open>Exponentiation is sound\<close>

lemma repeated_squaring:
  fixes a :: nat
  assumes t0: "t 0 = a"
    and sq: "\<And>i. i < k \<Longrightarrow> t (Suc i) = t i * t i"
  shows "i \<le> k \<Longrightarrow> t i = a ^ (2 ^ i)"
proof (induction i)
  case 0
  then show ?case by (simp add: t0)
next
  case (Suc i)
  then have "t i = a ^ (2 ^ i)" "i < k" by simp_all
  then have "t (Suc i) = a ^ (2 ^ i) * a ^ (2 ^ i)" using sq by simp
  then show ?case by (simp add: power_add [symmetric] mult_2)
qed

lemma or_accum:
  assumes "\<not> oa 0" and "\<And>i. i < n \<Longrightarrow> oa (Suc i) = (oa i \<or> t i)"
  shows "j \<le> n \<Longrightarrow> oa j = (\<exists>k<j. t k)"
proof (induction j)
  case 0
  then show ?case using assms(1) by simp
next
  case (Suc j)
  then have "oa j = (\<exists>k<j. t k)" "j < n" by simp_all
  then show ?case using assms(2) [of j] by (auto simp: less_Suc_eq)
qed

lemma Pow_NBit_sound:
  assumes v: "valid_name in_a" "valid_name in_b" "valid_name result" "valid_name over_flow"
    and s: "sat \<sigma> (fst (Pow_NBit in_a in_b result over_flow n st))"
    and one: "val \<sigma> (''One_NBit_'' @ Z n) n = 1"
    and no: "\<not> \<sigma> over_flow"
    and w: "n \<le> 32"
  shows "val \<sigma> result n = val \<sigma> in_a n ^ val \<sigma> in_b n"
proof -
  define cc where "cc = pow_nbit_calls st + 1"
  define st0 where "st0 = st\<lparr>pow_nbit_calls := cc\<rparr>"
  define T where "T i = ''Pow_NBit_Temp1_'' @ Z cc @ ''_'' @ Z i" for i
  define TOV where "TOV i = ''Pow_NBit_Temp1Overflow_'' @ Z cc @ ''_'' @ Z i" for i
  define S where "S i = ''Pow_NBit_Temp2_'' @ Z cc @ ''_'' @ Z i" for i
  define PA where "PA i = ''Pow_NBit_PowAccum_'' @ Z cc @ ''_'' @ Z i" for i
  define PAO where "PAO = ''Pow_NBit_PowAccumOverflow_'' @ Z cc"
  define OA where "OA i = ''Pow_NBit_PowAccumOverflowAccum_'' @ Z cc @ ''_'' @ Z i" for i
  define OT where "OT = ''Pow_NBit_OverflowTemp_'' @ Z cc"
  define POR where "POR = ''Pow_NBit_PowAccumOverflow_OR_'' @ Z cc"
  define OTR where "OTR = ''Pow_NBit_OverflowTemp_OR_'' @ Z cc"
  define ONE where "ONE = ''One_NBit_'' @ Z n"
  define ZERO where "ZERO = ''Zero_1Bit_'' @ Z 1"
  note defs = T_def TOV_def S_def PA_def PAO_def OA_def OT_def POR_def OTR_def ONE_def ZERO_def
  have vn: "valid_name (T i)" "valid_name (TOV i)" "valid_name (S i)" "valid_name (PA i)"
    "valid_name PAO" "valid_name (OA i)" "valid_name OT" "valid_name POR" "valid_name OTR"
    "valid_name ONE" "valid_name ZERO" for i
    by (simp_all add: defs valid_name_def scan_simps)
  define st1 where "st1 = snd (for_upto (\<lambda>i. Mul_NBit (T i) (T i) (T (i + 1)) (TOV i) n) n st0)"
  have a1: "sat \<sigma> (Equals_NBit (T 0) in_a n)"
    using s by (simp add: Pow_NBit_def Let_def split_beta cc_def defs)
  have a2: "sat \<sigma> (fst (for_upto (\<lambda>i. Mul_NBit (T i) (T i) (T (i + 1)) (TOV i) n) n st0))"
    using s by (simp add: Pow_NBit_def Let_def split_beta cc_def st0_def defs)
  have a3: "sat \<sigma> (concat (map (\<lambda>i. If_Cond_A_Else_B_NBit (T i) ONE (in_b @ ''_'' @ Z i) (S i) n) [0..<n]))"
    using s by (simp add: Pow_NBit_def Let_def split_beta cc_def defs)
  have a4: "sat \<sigma> (Input_Equals_Number (PA 0) 1 n)"
    using s by (simp add: Pow_NBit_def Let_def split_beta cc_def defs)
  have a5: "sat \<sigma> (fst (for_upto (\<lambda>i. Mul_NBit (S i) (PA i) (PA (i + 1)) (PAO @ ''_'' @ Z i) n) n st1))"
    using s by (simp add: Pow_NBit_def Let_def split_beta cc_def st0_def st1_def defs)
  have a6: "sat \<sigma> (Equals_NBit result (PA n) n)"
    using s by (simp add: Pow_NBit_def Let_def split_beta cc_def defs)
  have a7: "sat_clause \<sigma> (''-<'' @ OA 0 @ ''> 0 '')"
    using s by (simp add: Pow_NBit_def Let_def split_beta cc_def defs)
  have a8: "sat \<sigma> (concat (map (\<lambda>i. Or_1Bit (OA i) (TOV i) (OA (i + 1))) [0..<n]))"
    using s by (simp add: Pow_NBit_def Let_def split_beta cc_def defs)
  have a9: "sat \<sigma> (concat (map (\<lambda>i. If_Cond_A_Else_B_1Bit (OA (i + 1)) ZERO (in_b @ ''_'' @ Z (i + 1))
                 (OT @ ''_'' @ Z i)) [0..<n]))"
    using s by (simp add: Pow_NBit_def Let_def split_beta cc_def defs)
  have a10: "sat \<sigma> (Or_NBit_To_1Bit PAO POR n)"
    using s by (simp add: Pow_NBit_def Let_def split_beta cc_def defs)
  have a11: "sat \<sigma> (Or_NBit_To_1Bit OT OTR n)"
    using s by (simp add: Pow_NBit_def Let_def split_beta cc_def defs)
  have a12: "sat \<sigma> (Or_1Bit POR OTR over_flow)"
    using s by (simp add: Pow_NBit_def Let_def split_beta cc_def defs)
  define a where "a = val \<sigma> in_a n"
  define e where "e i = \<sigma> (in_b @ ''_'' @ Z i)" for i
  have e_eq: "e = (\<lambda>i. \<sigma> (in_b @ ''_'' @ Z i))" by (rule ext) (simp add: e_def)
  have npos: "0 < n"
  proof (rule ccontr)
    assume "\<not> 0 < n"
    then have "val \<sigma> (''One_NBit_'' @ Z n) n = 0" by (simp add: val_def)
    with one show False by simp
  qed
  have "\<not> \<sigma> POR" "\<not> \<sigma> OTR"
    using a12 no sat_Or_1Bit [OF vn(8) vn(9) v(4)] by simp_all
  then have no_pao: "\<not> \<sigma> (PAO @ ''_'' @ Z i)" and no_ot: "\<not> \<sigma> (OT @ ''_'' @ Z i)" if "i < n" for i
    using a10 a11 sat_Or_NBit_To_1Bit [OF vn(5) vn(8)] sat_Or_NBit_To_1Bit [OF vn(7) vn(9)] that
    by auto
  have t0: "val \<sigma> (T 0) n = a"
    using val_Equals_NBit [OF vn(1) v(1) a1] by (simp add: a_def)
  have sq: "val \<sigma> (T (Suc i)) n = (val \<sigma> (T i) n * val \<sigma> (T i) n) mod 2 ^ n \<and>
            (\<sigma> (TOV i) \<longleftrightarrow> 2 ^ n \<le> val \<sigma> (T i) n * val \<sigma> (T i) n)" if lt: "i < n" for i
  proof -
    obtain s' where "sat \<sigma> (fst (Mul_NBit (T i) (T i) (T (i + 1)) (TOV i) n s'))"
      using sat_for_upto [OF a2 lt] by blast
    from Mul_NBit_sound [OF vn(1) vn(1) vn(1) vn(2) this] show ?thesis by simp
  qed
  have oa: "\<sigma> (OA j) = (\<exists>k<j. \<sigma> (TOV k))" if "j \<le> n" for j
  proof (rule or_accum [where oa = "\<lambda>i. \<sigma> (OA i)" and t = "\<lambda>i. \<sigma> (TOV i)" and n = n])
    show "\<not> \<sigma> (OA 0)" using a7 sat_unit_neg [OF vn(6)] by simp
    show "\<sigma> (OA (Suc i)) = (\<sigma> (OA i) \<or> \<sigma> (TOV i))" if "i < n" for i
      using a8 that sat_Or_1Bit [OF vn(6) vn(2) vn(6), of \<sigma> i i "i + 1"] by (simp add: sat_concat_map)
    show "j \<le> n" by (rule that)
  qed
  have ot: "\<not> (\<sigma> (in_b @ ''_'' @ Z (Suc i)) \<and> \<sigma> (OA (Suc i)))" if lt: "i < n" for i
  proof -
    have "sat \<sigma> (If_Cond_A_Else_B_1Bit (OA (i + 1)) ZERO (in_b @ ''_'' @ Z (i + 1)) (OT @ ''_'' @ Z i))"
      using a9 lt by (simp add: sat_concat_map)
    then have "\<sigma> (OT @ ''_'' @ Z i) =
        (if \<sigma> (in_b @ ''_'' @ Z (i + 1)) then \<sigma> (OA (i + 1)) else \<sigma> ZERO)"
      using sat_If_Cond_1Bit [of "OA (i + 1)" ZERO "in_b @ ''_'' @ Z (i + 1)" "OT @ ''_'' @ Z i" \<sigma>]
        vn v(2) by simp
    with no_ot [OF lt] show ?thesis by (auto split: if_splits)
  qed
  have exact: "val \<sigma> (T i) n = a ^ (2 ^ i)" if lt: "i < n" and ei: "e i" for i
  proof (cases i)
    case 0
    then show ?thesis using t0 by simp
  next
    case (Suc j)
    have j: "j < n" using lt Suc by simp
    have "\<not> \<sigma> (OA (Suc j))" using ot [OF j] ei Suc by (simp add: e_def)
    then have nov: "\<not> \<sigma> (TOV k)" if "k < Suc j" for k
      using oa [of "Suc j"] lt Suc that by auto
    have "val \<sigma> (T i) n = a ^ (2 ^ i)"
    proof (rule repeated_squaring [where t = "\<lambda>i. val \<sigma> (T i) n" and k = i])
      show "val \<sigma> (T 0) n = a" by (rule t0)
      show "val \<sigma> (T (Suc k)) n = val \<sigma> (T k) n * val \<sigma> (T k) n" if "k < i" for k
      proof -
        have k: "k < n" "k < Suc j" using that lt Suc by simp_all
        have "val \<sigma> (T k) n * val \<sigma> (T k) n < 2 ^ n"
          using sq [OF k(1)] nov [OF k(2)] by simp
        then show ?thesis using sq [OF k(1)] by simp
      qed
      show "i \<le> i" by simp
    qed
    then show ?thesis .
  qed
  have sel: "val \<sigma> (S i) n = (if e i then a ^ (2 ^ i) else 1)" if lt: "i < n" for i
  proof -
    have "sat \<sigma> (If_Cond_A_Else_B_NBit (T i) ONE (in_b @ ''_'' @ Z i) (S i) n)"
      using a3 lt by (simp add: sat_concat_map)
    then have "val \<sigma> (S i) n = (if e i then val \<sigma> (T i) n else val \<sigma> ONE n)"
      using val_If_Cond_NBit [of "T i" ONE "in_b @ ''_'' @ Z i" "S i" \<sigma> n] vn v(2)
      by (simp add: e_def)
    then show ?thesis using exact [OF lt] one by (simp add: ONE_def)
  qed
  have pa0: "val \<sigma> (PA 0) n = 1"
    using val_Input_Equals_Number [OF vn(4) _ a4 w] npos by simp
  have acc: "val \<sigma> (PA i) n = a ^ bv e i" if "i \<le> n" for i
    using that
  proof (induction i)
    case 0
    then show ?case using pa0 by simp
  next
    case (Suc i)
    then have IH: "val \<sigma> (PA i) n = a ^ bv e i" and lt: "i < n" by simp_all
    obtain s' where "sat \<sigma> (fst (Mul_NBit (S i) (PA i) (PA (i + 1)) (PAO @ ''_'' @ Z i) n s'))"
      using sat_for_upto [OF a5 lt] by blast
    then have m: "val \<sigma> (PA (i + 1)) n = (val \<sigma> (S i) n * val \<sigma> (PA i) n) mod 2 ^ n"
      "\<sigma> (PAO @ ''_'' @ Z i) \<longleftrightarrow> 2 ^ n \<le> val \<sigma> (S i) n * val \<sigma> (PA i) n"
      using Mul_NBit_sound [of "S i" "PA i" "PA (i + 1)" "PAO @ ''_'' @ Z i" \<sigma> n s'] vn by simp_all
    have "val \<sigma> (S i) n * val \<sigma> (PA i) n < 2 ^ n"
      using m(2) no_pao [OF lt] by simp
    then have "val \<sigma> (PA (Suc i)) n = val \<sigma> (S i) n * val \<sigma> (PA i) n"
      using m(1) by simp
    then show ?case using sel [OF lt] IH by (simp add: power_add)
  qed
  have "val \<sigma> result n = val \<sigma> (PA n) n"
    using v(3) vn(4) a6 by (rule val_Equals_NBit)
  then show ?thesis using acc [of n] by (simp add: a_def val_def e_eq)
qed

lemma val_Input_Equals_zero:
  assumes "valid_name x" "sat \<sigma> (Input_Equals_Number x 0 n)"
  shows "val \<sigma> x n = 0"
proof -
  have "\<forall>i<n. \<not> \<sigma> (x @ ''_'' @ Z i)"
    using assms by (simp add: sat_Input_Equals_Number shifted_bit_def)
  then show ?thesis by (simp add: val_def bv_zero)
qed

lemma Sum_NBit_sound:
  assumes v: "valid_name input" "valid_name output" "valid_name overflow"
    and s: "sat \<sigma> (fst (Sum_NBit input output overflow k n st))"
    and no: "\<not> \<sigma> overflow"
  shows "val \<sigma> output n = (\<Sum>i<k. val \<sigma> (input @ ''_'' @ Z i) n)"
proof -
  define cc where "cc = sum_nbit_calls st + 1"
  define st0 where "st0 = st\<lparr>sum_nbit_calls := cc\<rparr>"
  define A where "A i = ''Sum_NBit_Accum_'' @ Z cc @ ''_'' @ Z i" for i
  define OV where "OV = ''Sum_NBit_Overflow_'' @ Z cc"
  have vn: "valid_name (A i)" "valid_name OV" for i
    by (simp_all add: A_def OV_def valid_name_def scan_simps)
  have a1: "sat \<sigma> (Input_Equals_Number (A 0) 0 n)"
    using s by (simp add: Sum_NBit_def Let_def split_beta cc_def A_def)
  have a2: "sat \<sigma> (fst (for_upto (\<lambda>i. Add_NBit (input @ ''_'' @ Z i) (A i) (A (i + 1)) (OV @ ''_'' @ Z i) n) k st0))"
    using s by (simp add: Sum_NBit_def Let_def split_beta cc_def st0_def A_def OV_def)
  have a3: "sat \<sigma> (Equals_NBit output (A k) n)"
    using s by (simp add: Sum_NBit_def Let_def split_beta cc_def A_def)
  have a4: "sat \<sigma> (Or_NBit_To_1Bit OV overflow k)"
    using s by (simp add: Sum_NBit_def Let_def split_beta cc_def OV_def)
  have nov: "\<not> \<sigma> (OV @ ''_'' @ Z i)" if "i < k" for i
    using a4 no that sat_Or_NBit_To_1Bit [OF vn(2) v(3)] by auto
  have acc: "val \<sigma> (A i) n = (\<Sum>j<i. val \<sigma> (input @ ''_'' @ Z j) n)" if "i \<le> k" for i
    using that
  proof (induction i)
    case 0
    then show ?case using val_Input_Equals_zero [OF vn(1) a1] by simp
  next
    case (Suc i)
    then have IH: "val \<sigma> (A i) n = (\<Sum>j<i. val \<sigma> (input @ ''_'' @ Z j) n)" and lt: "i < k"
      by simp_all
    obtain s' where "sat \<sigma> (fst (Add_NBit (input @ ''_'' @ Z i) (A i) (A (i + 1)) (OV @ ''_'' @ Z i) n s'))"
      using sat_for_upto [OF a2 lt] by blast
    then have "val \<sigma> (input @ ''_'' @ Z i) n + val \<sigma> (A i) n =
               val \<sigma> (A (i + 1)) n + 2 ^ n * of_bool (\<sigma> (OV @ ''_'' @ Z i))"
      using Add_NBit_sound [of "input @ ''_'' @ Z i" "A i" "A (i + 1)" "OV @ ''_'' @ Z i" \<sigma> n s']
        vn v(1) by simp
    then show ?case using nov [OF lt] IH by simp
  qed
  have "val \<sigma> output n = val \<sigma> (A k) n"
    using v(2) vn(1) a3 by (rule val_Equals_NBit)
  then show ?thesis using acc [of k] by simp
qed

lemma Product_NBit_sound:
  assumes v: "valid_name input" "valid_name output" "valid_name overflow"
    and s: "sat \<sigma> (fst (Product_NBit input output overflow k n st))"
    and no: "\<not> \<sigma> overflow"
    and n: "0 < n" and w: "n \<le> 32"
  shows "val \<sigma> output n = (\<Prod>i<k. val \<sigma> (input @ ''_'' @ Z i) n)"
proof -
  define cc where "cc = product_nbit_calls st + 1"
  define st0 where "st0 = st\<lparr>product_nbit_calls := cc\<rparr>"
  define A where "A i = ''Product_NBit_Accum_'' @ Z cc @ ''_'' @ Z i" for i
  define OV where "OV = ''Product_NBit_Overflow_'' @ Z cc"
  have vn: "valid_name (A i)" "valid_name OV" for i
    by (simp_all add: A_def OV_def valid_name_def scan_simps)
  have a1: "sat \<sigma> (Input_Equals_Number (A 0) 1 n)"
    using s by (simp add: Product_NBit_def Let_def split_beta cc_def A_def)
  have a2: "sat \<sigma> (fst (for_upto (\<lambda>i. Mul_NBit (input @ ''_'' @ Z i) (A i) (A (i + 1)) (OV @ ''_'' @ Z i) n) k st0))"
    using s by (simp add: Product_NBit_def Let_def split_beta cc_def st0_def A_def OV_def)
  have a3: "sat \<sigma> (Equals_NBit output (A k) n)"
    using s by (simp add: Product_NBit_def Let_def split_beta cc_def A_def)
  have a4: "sat \<sigma> (Or_NBit_To_1Bit OV overflow k)"
    using s by (simp add: Product_NBit_def Let_def split_beta cc_def OV_def)
  have nov: "\<not> \<sigma> (OV @ ''_'' @ Z i)" if "i < k" for i
    using a4 no that sat_Or_NBit_To_1Bit [OF vn(2) v(3)] by auto
  have acc: "val \<sigma> (A i) n = (\<Prod>j<i. val \<sigma> (input @ ''_'' @ Z j) n)" if "i \<le> k" for i
    using that
  proof (induction i)
    case 0
    then show ?case using val_Input_Equals_Number [OF vn(1) _ a1 w] n by simp
  next
    case (Suc i)
    then have IH: "val \<sigma> (A i) n = (\<Prod>j<i. val \<sigma> (input @ ''_'' @ Z j) n)" and lt: "i < k"
      by simp_all
    obtain s' where "sat \<sigma> (fst (Mul_NBit (input @ ''_'' @ Z i) (A i) (A (i + 1)) (OV @ ''_'' @ Z i) n s'))"
      using sat_for_upto [OF a2 lt] by blast
    then have m: "val \<sigma> (A (i + 1)) n = (val \<sigma> (input @ ''_'' @ Z i) n * val \<sigma> (A i) n) mod 2 ^ n"
      "\<sigma> (OV @ ''_'' @ Z i) \<longleftrightarrow> 2 ^ n \<le> val \<sigma> (input @ ''_'' @ Z i) n * val \<sigma> (A i) n"
      using Mul_NBit_sound [of "input @ ''_'' @ Z i" "A i" "A (i + 1)" "OV @ ''_'' @ Z i" \<sigma> n s']
        vn v(1) by simp_all
    have "val \<sigma> (input @ ''_'' @ Z i) n * val \<sigma> (A i) n < 2 ^ n"
      using m(2) nov [OF lt] by simp
    then have "val \<sigma> (A (Suc i)) n = val \<sigma> (input @ ''_'' @ Z i) n * val \<sigma> (A i) n"
      using m(1) by simp
    then show ?case using IH by (simp add: mult.commute)
  qed
  have "val \<sigma> output n = val \<sigma> (A k) n"
    using v(2) vn(1) a3 by (rule val_Equals_NBit)
  then show ?thesis using acc [of k] by simp
qed

lemma val_not_equals:
  assumes "valid_name x" "sat_clause \<sigma> (Input_Not_Equals_Number x (int a) n)" "n \<le> 32"
  shows "val \<sigma> x n \<noteq> a"
proof
  assume e: "val \<sigma> x n = a"
  then have "a < 2 ^ n" using val_less [of \<sigma> x n] by simp
  then have "bv (\<lambda>i. \<sigma> (x @ ''_'' @ Z i)) n = bv (bit a) n"
    using e by (simp add: val_def bv_bit)
  then have "\<sigma> (x @ ''_'' @ Z i) = bit a i" if "i < n" for i
    using that by (rule bv_inject)
  moreover obtain i where i: "i < n" "\<sigma> (x @ ''_'' @ Z i) \<noteq> shifted_bit (int a) i"
    using assms(1,2) by (auto simp: sat_Input_Not_Equals_Number)
  moreover have "shifted_bit (int a) i = bit (int a) i"
    using i(1) assms(3) by (intro shifted_bit_low) simp
  ultimately show False by (simp add: bit_of_nat_iff_bit)
qed

lemma FermatTest_sound:
  assumes v: "valid_name generator" "valid_name pow" "valid_name mod_name"
    and s: "sat \<sigma> (fst (FermatTest generator pow mod_name n st))"
    and one: "val \<sigma> (''One_NBit_'' @ Z (n * 2)) (n * 2) = 1"
    and m: "2 \<le> val \<sigma> mod_name n"
    and w: "n * 2 \<le> 32"
  shows "val \<sigma> generator n \<noteq> 0 \<and> val \<sigma> generator n \<noteq> 1 \<and>
         (val \<sigma> generator n ^ val \<sigma> pow n) mod val \<sigma> mod_name n = 1"
proof -
  define R where "R = ''FermatTest_'' @ Z (fermat_calls st + 1)"
  have vr: "valid_name R" by (simp add: R_def valid_name_def scan_simps)
  have n: "0 < n" using m val_less [of \<sigma> mod_name n] by (cases n) simp_all
  have a1: "sat_clause \<sigma> (Input_Not_Equals_Number generator (int 0) n)"
    and a2: "sat_clause \<sigma> (Input_Not_Equals_Number generator (int 1) n)"
    and a3: "sat \<sigma> (fst (PowMod_NBit generator pow mod_name R n (st\<lparr>fermat_calls := fermat_calls st + 1\<rparr>)))"
    and a4: "sat \<sigma> (Input_Equals_Number R 1 n)"
    using s by (simp_all add: FermatTest_def Let_def split_beta R_def)
  have w': "n \<le> 32" using w by simp
  have "val \<sigma> R n = 1" using val_Input_Equals_Number [OF vr _ a4 w'] n by simp
  then show ?thesis
    using PowMod_NBit_sound [OF v vr a3 one m w] val_not_equals [OF v(1) a1 w']
      val_not_equals [OF v(1) a2 w']
    by simp
qed

lemma FermatTest3_sound:
  assumes v: "valid_name generator" "valid_name pow" "valid_name mod_name"
    and s: "sat \<sigma> (fst (FermatTest3 generator pow mod_name n st))"
    and one: "val \<sigma> (''One_NBit_'' @ Z (n * 2)) (n * 2) = 1"
    and m: "2 \<le> val \<sigma> mod_name n"
    and w: "n * 2 \<le> 32"
  shows "val \<sigma> generator n \<noteq> 0 \<and> val \<sigma> generator n \<noteq> 1 \<and>
         (val \<sigma> generator n ^ val \<sigma> pow n) mod val \<sigma> mod_name n \<noteq> 1"
proof -
  define R where "R = ''FermatTest3_'' @ Z (fermat3_calls st + 1)"
  have vr: "valid_name R" by (simp add: R_def valid_name_def scan_simps)
  have a1: "sat_clause \<sigma> (Input_Not_Equals_Number generator (int 0) n)"
    and a2: "sat_clause \<sigma> (Input_Not_Equals_Number generator (int 1) n)"
    and a3: "sat \<sigma> (fst (PowMod_NBit generator pow mod_name R n (st\<lparr>fermat3_calls := fermat3_calls st + 1\<rparr>)))"
    and a4: "sat_clause \<sigma> (Input_Not_Equals_Number R (int 1) n)"
    using s by (simp_all add: FermatTest3_def Let_def split_beta R_def)
  have w': "n \<le> 32" using w by simp
  show ?thesis
    using PowMod_NBit_sound [OF v vr a3 one m w] val_not_equals [OF v(1) a1 w']
      val_not_equals [OF v(1) a2 w'] val_not_equals [OF vr a4 w'] by simp
qed

lemma FermatTest2_sound:
  assumes v: "valid_name generator" "valid_name prime"
    and s: "sat \<sigma> (fst (FermatTest2 generator prime n st))"
    and one: "val \<sigma> (''One_NBit_'' @ Z n) n = 1"
    and one2: "val \<sigma> (''One_NBit_'' @ Z (n * 2)) (n * 2) = 1"
    and m: "2 \<le> val \<sigma> prime n"
    and w: "n * 2 \<le> 32"
  shows "val \<sigma> generator n \<noteq> 0 \<and> val \<sigma> generator n \<noteq> 1 \<and>
         (val \<sigma> generator n ^ (val \<sigma> prime n - 1)) mod val \<sigma> prime n = 1"
proof -
  define cc where "cc = fermat2_calls st + 1"
  define M where "M = ''FermatTest2_Prime_Minus1_'' @ Z cc"
  define OV where "OV = ''FermatTest2_Prime_Minus1_Overflow_'' @ Z cc"
  define ONE where "ONE = ''One_NBit_'' @ Z n"
  define st0 where "st0 = st\<lparr>fermat2_calls := cc\<rparr>"
  define st1 where "st1 = snd (Add_NBit M ONE prime OV n st0)"
  have vn: "valid_name M" "valid_name OV" "valid_name ONE"
    by (simp_all add: M_def OV_def ONE_def valid_name_def scan_simps)
  have a1: "sat \<sigma> (fst (Add_NBit M ONE prime OV n st0))"
    using s by (simp add: FermatTest2_def Let_def split_beta cc_def M_def OV_def ONE_def st0_def)
  have a2: "sat_clause \<sigma> (''-<'' @ OV @ ''> 0 '')"
    using s by (simp add: FermatTest2_def Let_def split_beta cc_def M_def OV_def ONE_def st0_def)
  have a3: "sat \<sigma> (fst (FermatTest generator M prime n st1))"
    using s by (simp add: FermatTest2_def Let_def split_beta cc_def M_def OV_def ONE_def st0_def st1_def)
  have "\<not> \<sigma> OV" using a2 sat_unit_neg [OF vn(2)] by simp
  then have "val \<sigma> M n + 1 = val \<sigma> prime n"
    using Add_NBit_sound [OF vn(1) vn(3) v(2) vn(2) a1] one by (simp add: ONE_def)
  then have "val \<sigma> M n = val \<sigma> prime n - 1" by simp
  then show ?thesis
    using FermatTest_sound [OF v(1) vn(1) v(2) a3 one2 m w] by simp
qed


section \<open>Primes and the converse of Fermat's little theorem\<close>

lemma is_prime_iff: "is_prime p \<longleftrightarrow> 1 < p \<and> (\<forall>d. d dvd p \<longrightarrow> d = 1 \<or> d = p)"
proof
  assume a: "is_prime p"
  then have p: "1 < p" and nd: "\<And>d. 2 \<le> d \<Longrightarrow> d < p \<Longrightarrow> \<not> d dvd p"
    by (auto simp: is_prime_def list_all_iff)
  have "d = 1 \<or> d = p" if d: "d dvd p" for d
  proof -
    have "d \<le> p" using d p by (intro dvd_imp_le) simp_all
    moreover have "d \<noteq> 0" using d p by (intro notI) simp
    ultimately show ?thesis using nd [of d] d by (cases "d = 1"; cases "d = p") auto
  qed
  with p show "1 < p \<and> (\<forall>d. d dvd p \<longrightarrow> d = 1 \<or> d = p)" by simp
next
  assume "1 < p \<and> (\<forall>d. d dvd p \<longrightarrow> d = 1 \<or> d = p)"
  then show "is_prime p" by (auto simp: is_prime_def list_all_iff)
qed

lemma is_prime_2: "is_prime 2"
  by (simp add: is_prime_def)

lemma is_prime_3: "is_prime 3"
  by code_simp

lemma prime_factor_exists: "1 < m \<Longrightarrow> \<exists>q. is_prime q \<and> q dvd m"
proof (induction m rule: less_induct)
  case (less m)
  show ?case
  proof (cases "is_prime m")
    case True
    then show ?thesis by auto
  next
    case False
    then obtain d where d: "d dvd m" "d \<noteq> 1" "d \<noteq> m"
      using less.prems by (auto simp: is_prime_iff)
    then have "d \<le> m" using less.prems by (intro dvd_imp_le) simp_all
    moreover have "d \<noteq> 0" using d less.prems by (intro notI) simp
    ultimately have "1 < d" "d < m" using d by simp_all
    then obtain q where "is_prime q" "q dvd d" using less.IH by blast
    then show ?thesis using d(1) dvd_trans by blast
  qed
qed

lemma prime_coprime: "is_prime q \<Longrightarrow> \<not> q dvd a \<Longrightarrow> coprime q a"
proof (rule coprimeI)
  fix c assume q: "is_prime q" and n: "\<not> q dvd a" and c: "c dvd q" "c dvd a"
  then have "c = 1 \<or> c = q" by (simp add: is_prime_iff)
  then show "is_unit c" using c(2) n by auto
qed

lemma prime_dvd_mult:
  assumes "is_prime q" "q dvd a * b"
  shows "q dvd a \<or> q dvd b"
proof (cases "q dvd a")
  case False
  then have "coprime q a" using assms(1) by (rule prime_coprime [rotated])
  then show ?thesis using assms(2) by (simp add: coprime_dvd_mult_right_iff)
qed simp

lemma prime_dvd_power: "is_prime q \<Longrightarrow> q dvd a ^ e \<Longrightarrow> q dvd a"
proof (induction e)
  case 0
  then show ?case by (simp add: is_prime_iff)
next
  case (Suc e)
  then show ?case using prime_dvd_mult [of q a "a ^ e"] by auto
qed

lemma prime_dvd_prod: "is_prime q \<Longrightarrow> q dvd (\<Prod>j<k. f j) \<Longrightarrow> \<exists>j<k::nat. q dvd f j"
proof (induction k)
  case 0
  then show ?case by (simp add: is_prime_iff)
next
  case (Suc k)
  then have "q dvd (\<Prod>j<k. f j) \<or> q dvd f k"
    using prime_dvd_mult [of q "\<Prod>j<k. f j" "f k"] by simp
  then show ?case using Suc by (auto simp: less_Suc_eq)
qed

lemma prime_dvd_prime: "is_prime q \<Longrightarrow> is_prime r \<Longrightarrow> q dvd r \<Longrightarrow> q = r"
  by (auto simp: is_prime_iff)

lemma lehmer:
  fixes p g :: nat
  assumes p: "2 \<le> p" and one: "g ^ (p - 1) mod p = 1"
    and q: "\<And>q. is_prime q \<Longrightarrow> q dvd p - 1 \<Longrightarrow> g ^ ((p - 1) div q) mod p \<noteq> 1"
  shows "is_prime p"
proof -
  define ord where "ord = (LEAST d. 0 < d \<and> g ^ d mod p = 1)"
  have ex: "0 < p - 1 \<and> g ^ (p - 1) mod p = 1" using p one by simp
  have ord: "0 < ord" "g ^ ord mod p = 1"
    using LeastI [of "\<lambda>d. 0 < d \<and> g ^ d mod p = 1", OF ex] by (simp_all add: ord_def)
  have least: "ord \<le> d" if "0 < d" "g ^ d mod p = 1" for d
    unfolding ord_def using that by (intro Least_le) simp
  have mult: "g ^ (ord * t) mod p = 1" for t
  proof -
    have "g ^ (ord * t) mod p = (g ^ ord mod p) ^ t mod p"
      by (simp add: power_mult power_mod)
    then show ?thesis using ord(2) p by simp
  qed
  have dvd: "ord dvd k" if k: "g ^ k mod p = 1" for k
  proof -
    have "g ^ k = g ^ (ord * (k div ord)) * g ^ (k mod ord)"
      by (simp add: power_add [symmetric])
    then have "g ^ k mod p = (g ^ (ord * (k div ord)) mod p) * (g ^ (k mod ord) mod p) mod p"
      by (simp add: mod_mult_eq)
    then have "g ^ (k mod ord) mod p = 1" using k mult by simp
    moreover have "k mod ord < ord" using ord(1) by simp
    ultimately have "\<not> 0 < k mod ord" using least [of "k mod ord"] by auto
    then show ?thesis by auto
  qed
  have ord_eq: "ord = p - 1"
  proof (rule ccontr)
    assume ne: "ord \<noteq> p - 1"
    obtain m where m: "p - 1 = ord * m" using dvd [OF one] by (auto elim: dvdE)
    have "m \<noteq> 0" using m p by (intro notI) simp
    moreover have "m \<noteq> 1" using m ne by auto
    ultimately have "1 < m" by simp
    then obtain r where r: "is_prime r" "r dvd m" using prime_factor_exists by blast
    then obtain m' where m': "m = r * m'" by (auto elim: dvdE)
    have r0: "0 < r" using r(1) by (simp add: is_prime_iff)
    have "(p - 1) div r = ord * m'" using m m' r0 by simp
    moreover have "r dvd p - 1" using m m' by simp
    ultimately show False using q [OF r(1)] mult [of m'] by simp
  qed
  have inv: "g ^ i * g ^ (p - 1 - i) mod p = 1" if "i \<le> p - 1" for i
  proof -
    have "i + (p - 1 - i) = p - 1" using that by simp
    then have "g ^ i * g ^ (p - 1 - i) = g ^ (p - 1)"
      using power_add [of g i "p - 1 - i"] by simp
    then show ?thesis using one by simp
  qed
  have inj: "inj_on (\<lambda>i. g ^ i mod p) {..<p - 1}"
  proof (rule linorder_inj_onI)
    fix i j assume ij: "i < j" and "i \<in> {..<p - 1}" and "j \<in> {..<p - 1}"
    then have j: "j < p - 1" by simp
    show "g ^ i mod p \<noteq> g ^ j mod p"
    proof
      assume e: "g ^ i mod p = g ^ j mod p"
      have "g ^ (p - 1 - i) * g ^ i mod p = g ^ (p - 1 - i) * g ^ j mod p"
        using e by (intro mod_mult_cong) simp_all
      moreover have "g ^ (p - 1 - i) * g ^ i = g ^ (p - 1)"
        using ij j by (simp add: power_add [symmetric])
      moreover have "g ^ (p - 1 - i) * g ^ j = g ^ (p - 1) * g ^ (j - i)"
        using ij j by (simp add: power_add [symmetric])
      ultimately have "1 = g ^ (p - 1) * g ^ (j - i) mod p" using one by simp
      also have "\<dots> = (g ^ (p - 1) mod p) * (g ^ (j - i) mod p) mod p"
        by (simp add: mod_mult_eq)
      finally have "g ^ (j - i) mod p = 1" using one by simp
      then have "ord \<le> j - i" using ij by (intro least) simp_all
      then show False using ord_eq j ij by simp
    qed
  qed auto
  have cop: "g ^ i mod p \<in> {x \<in> {1..<p}. coprime x p}" if "i \<in> {..<p - 1}" for i
  proof -
    define x where "x = g ^ i mod p"
    have i: "i \<le> p - 1" using that by simp
    have "x * g ^ (p - 1 - i) mod p = g ^ i * g ^ (p - 1 - i) mod p"
      unfolding x_def by (simp add: mod_mult_left_eq)
    then have xy: "x * g ^ (p - 1 - i) mod p = 1" using inv [OF i] by simp
    have "coprime x p"
    proof (rule coprimeI)
      fix c assume "c dvd x" "c dvd p"
      then have "c dvd x * g ^ (p - 1 - i) mod p" by (intro dvd_mod) simp_all
      then show "is_unit c" using xy by simp
    qed
    moreover have "x \<noteq> 0" using xy by (intro notI) simp
    moreover have "x < p" using p by (simp add: x_def)
    ultimately show ?thesis by (simp add: x_def)
  qed
  have "card ((\<lambda>i. g ^ i mod p) ` {..<p - 1}) = p - 1"
    using inj by (simp add: card_image)
  moreover have sub: "(\<lambda>i. g ^ i mod p) ` {..<p - 1} \<subseteq> {x \<in> {1..<p}. coprime x p}"
    using cop by blast
  ultimately have "p - 1 \<le> card {x \<in> {1..<p}. coprime x p}"
    using card_mono [OF _ sub] by simp
  then have "card {1..<p} \<le> card {x \<in> {1..<p}. coprime x p}" by simp
  then have all: "{x \<in> {1..<p}. coprime x p} = {1..<p}"
    by (intro card_seteq) auto
  have "d = 1 \<or> d = p" if d: "d dvd p" for d
  proof (rule ccontr)
    assume n: "\<not> (d = 1 \<or> d = p)"
    have "d \<le> p" using d p by (intro dvd_imp_le) simp_all
    moreover have "d \<noteq> 0" using d p by (intro notI) simp
    ultimately have "d \<in> {1..<p}" using n by simp
    then have "coprime d p" using all by blast
    then have "d = 1" using d by (simp add: coprime_absorb_left)
    with n show False by simp
  qed
  then show ?thesis using p by (simp add: is_prime_iff)
qed


section \<open>The certificate is sound\<close>

lemma val_small:
  assumes "valid_name x" "sat \<sigma> (Input_Equals_Number x (int a) n)" "a < 2 ^ n" "n \<le> 32"
  shows "val \<sigma> x n = a"
  using val_Input_Equals_Number [OF assms(1) _ assms(2) assms(4)] assms(3)
  by (simp add: take_bit_nat_eq_self)

lemma two_or_three:
  assumes "valid_name x" "2 \<le> n"
    and "sat \<sigma> (Input_Equals_Number x 2 n) \<or> sat \<sigma> (Input_Equals_Number x 3 n)"
    and "n \<le> 32"
  shows "val \<sigma> x n = 2 \<or> val \<sigma> x n = 3"
proof -
  have "(2::nat) ^ 2 \<le> 2 ^ n" using assms(2) by (intro power_increasing) simp_all
  then have "(2::nat) < 2 ^ n" "(3::nat) < 2 ^ n" by simp_all
  then show ?thesis
    using val_small [OF assms(1), of \<sigma> 2 n] val_small [OF assms(1), of \<sigma> 3 n] assms(3,4) by auto
qed

lemma IsPrime_base_or_product_sound:
  assumes "sat \<sigma> (fst (IsPrime_base_or_product cc n i st))" "2 \<le> n" "n \<le> 32"
  shows "val \<sigma> (''IsPrime_Prime_'' @ Z cc @ ''_'' @ Z i) n = 2 \<or>
         val \<sigma> (''IsPrime_Prime_'' @ Z cc @ ''_'' @ Z i) n = 3 \<or>
         val \<sigma> (''IsPrime_Product_Plus1_'' @ Z cc @ ''_'' @ Z i) n =
         val \<sigma> (''IsPrime_Prime_'' @ Z cc @ ''_'' @ Z i) n"
proof -
  define PR where "PR = ''IsPrime_Prime_'' @ Z cc @ ''_'' @ Z i"
  define P1 where "P1 = ''IsPrime_Product_Plus1_'' @ Z cc @ ''_'' @ Z i"
  have vn: "valid_name PR" "valid_name P1"
    by (simp_all add: PR_def P1_def valid_name_def scan_simps)
  define s1 where "s1 = snd (LessThan_NBit (''One_NBit_'' @ Z n) (''IsPrime_SumPow_'' @ Z cc @ ''_'' @ Z i) n st)"
  define s2 where "s2 = snd (Or_Condition (Input_Equals_Number PR 2 n) (Input_Equals_Number PR 3 n) s1)"
  define inner where "inner = fst (Or_Condition (Input_Equals_Number PR 2 n) (Input_Equals_Number PR 3 n) s1)"
  define both where "both = fst (LessThan_NBit (''One_NBit_'' @ Z n) (''IsPrime_SumPow_'' @ Z cc @ ''_'' @ Z i) n st) @
         Equals_NBit P1 PR n"
  have "fst (IsPrime_base_or_product cc n i st) = fst (Or_Condition inner both s2)"
    by (simp add: IsPrime_base_or_product_def Let_def split_beta And_Condition_def
        PR_def P1_def s1_def s2_def inner_def both_def)
  then have "sat \<sigma> inner \<or> sat \<sigma> both"
    using assms(1) Or_Condition_sound [of \<sigma> inner both s2] by simp
  then have "val \<sigma> PR n = 2 \<or> val \<sigma> PR n = 3 \<or> val \<sigma> P1 n = val \<sigma> PR n"
  proof
    assume "sat \<sigma> inner"
    then have "sat \<sigma> (Input_Equals_Number PR 2 n) \<or> sat \<sigma> (Input_Equals_Number PR 3 n)"
      unfolding inner_def by (rule Or_Condition_sound)
    then show ?thesis using two_or_three [OF vn(1) assms(2) _ assms(3)] by blast
  next
    assume "sat \<sigma> both"
    then have "sat \<sigma> (Equals_NBit P1 PR n)" by (simp add: both_def)
    then show ?thesis using val_Equals_NBit [OF vn(2) vn(1)] by blast
  qed
  then show ?thesis by (simp add: PR_def P1_def)
qed

lemma IsPrime_factor_test_sound:
  assumes s: "sat \<sigma> (fst (IsPrime_factor_test cc n i j st))" and n: "2 \<le> n"
    and one: "val \<sigma> (''One_NBit_'' @ Z (n * 2)) (n * 2) = 1"
    and p: "2 \<le> val \<sigma> (''IsPrime_Prime_'' @ Z cc @ ''_'' @ Z i) n"
    and w: "n * 2 \<le> 32"
  shows "val \<sigma> (''IsPrime_Prime_'' @ Z cc @ ''_'' @ Z i) n = 2 \<or>
         val \<sigma> (''IsPrime_Prime_'' @ Z cc @ ''_'' @ Z i) n = 3 \<or>
         val \<sigma> (''IsPrime_Pow_'' @ Z cc @ ''_'' @ Z i @ ''_'' @ Z j) n = 0 \<or>
         (val \<sigma> (''IsPrime_Generator_'' @ Z cc @ ''_'' @ Z i) n ^
          val \<sigma> (''IsPrime_Div_'' @ Z cc @ ''_'' @ Z i @ ''_'' @ Z j) n) mod
         val \<sigma> (''IsPrime_Prime_'' @ Z cc @ ''_'' @ Z i) n \<noteq> 1"
proof -
  define PR where "PR = ''IsPrime_Prime_'' @ Z cc @ ''_'' @ Z i"
  define PW where "PW = ''IsPrime_Pow_'' @ Z cc @ ''_'' @ Z i @ ''_'' @ Z j"
  define GN where "GN = ''IsPrime_Generator_'' @ Z cc @ ''_'' @ Z i"
  define DV where "DV = ''IsPrime_Div_'' @ Z cc @ ''_'' @ Z i @ ''_'' @ Z j"
  have vn: "valid_name PR" "valid_name PW" "valid_name GN" "valid_name DV"
    by (simp_all add: PR_def PW_def GN_def DV_def valid_name_def scan_simps)
  define s1 where "s1 = snd (FermatTest3 GN DV PR n st)"
  define fermat where "fermat = fst (FermatTest3 GN DV PR n st)"
  define s2 where "s2 = snd (Or_Condition (Input_Equals_Number PR 2 n) (Input_Equals_Number PR 3 n) s1)"
  define or2 where "or2 = fst (Or_Condition (Input_Equals_Number PR 2 n) (Input_Equals_Number PR 3 n) s1)"
  define s3 where "s3 = snd (Or_Condition fermat (Input_Equals_Number PW 0 n) s2)"
  define or1 where "or1 = fst (Or_Condition fermat (Input_Equals_Number PW 0 n) s2)"
  have w': "n \<le> 32" using w by simp
  have "fst (IsPrime_factor_test cc n i j st) = fst (Or_Condition or1 or2 s3)"
    by (simp add: IsPrime_factor_test_def Let_def split_beta
        PR_def PW_def GN_def DV_def s1_def s2_def s3_def fermat_def or1_def or2_def)
  then have "sat \<sigma> or1 \<or> sat \<sigma> or2"
    using s Or_Condition_sound [of \<sigma> or1 or2 s3] by simp
  then consider "sat \<sigma> fermat" | "sat \<sigma> (Input_Equals_Number PW 0 n)"
    | "sat \<sigma> (Input_Equals_Number PR 2 n) \<or> sat \<sigma> (Input_Equals_Number PR 3 n)"
    unfolding or1_def or2_def using Or_Condition_sound by blast
  then have "val \<sigma> PR n = 2 \<or> val \<sigma> PR n = 3 \<or> val \<sigma> PW n = 0 \<or>
         (val \<sigma> GN n ^ val \<sigma> DV n) mod val \<sigma> PR n \<noteq> 1"
  proof cases
    case 1
    have "2 \<le> val \<sigma> PR n" using p by (simp add: PR_def)
    then show ?thesis
      using FermatTest3_sound [OF vn(3) vn(4) vn(1) _ one _ w, of st] 1 unfolding fermat_def by blast
  next
    case 2
    then have "val \<sigma> PW n = 0" using val_Input_Equals_zero [OF vn(2), of \<sigma> n] by simp
    then show ?thesis by blast
  next
    case 3
    then show ?thesis using two_or_three [OF vn(1) n _ w'] by blast
  qed
  then show ?thesis by (simp add: PR_def PW_def GN_def DV_def)
qed

lemma IsPrime_full_test_sound:
  assumes s: "sat \<sigma> (fst (IsPrime_full_test cc n i st))" and n: "2 \<le> n"
    and one: "val \<sigma> (''One_NBit_'' @ Z n) n = 1"
    and one2: "val \<sigma> (''One_NBit_'' @ Z (n * 2)) (n * 2) = 1"
    and p: "2 \<le> val \<sigma> (''IsPrime_Prime_'' @ Z cc @ ''_'' @ Z i) n"
    and w: "n * 2 \<le> 32"
  shows "val \<sigma> (''IsPrime_Prime_'' @ Z cc @ ''_'' @ Z i) n = 2 \<or>
         val \<sigma> (''IsPrime_Prime_'' @ Z cc @ ''_'' @ Z i) n = 3 \<or>
         (val \<sigma> (''IsPrime_Generator_'' @ Z cc @ ''_'' @ Z i) n ^
          (val \<sigma> (''IsPrime_Prime_'' @ Z cc @ ''_'' @ Z i) n - 1)) mod
         val \<sigma> (''IsPrime_Prime_'' @ Z cc @ ''_'' @ Z i) n = 1"
proof -
  define PR where "PR = ''IsPrime_Prime_'' @ Z cc @ ''_'' @ Z i"
  define GN where "GN = ''IsPrime_Generator_'' @ Z cc @ ''_'' @ Z i"
  have vn: "valid_name PR" "valid_name GN"
    by (simp_all add: PR_def GN_def valid_name_def scan_simps)
  have w': "n \<le> 32" using w by simp
  define s1 where "s1 = snd (FermatTest2 GN PR n st)"
  define fermat where "fermat = fst (FermatTest2 GN PR n st)"
  define s2 where "s2 = snd (Or_Condition (Input_Equals_Number PR 2 n) (Input_Equals_Number PR 3 n) s1)"
  define inner where "inner = fst (Or_Condition (Input_Equals_Number PR 2 n) (Input_Equals_Number PR 3 n) s1)"
  have "fst (IsPrime_full_test cc n i st) = fst (Or_Condition fermat inner s2)"
    by (simp add: IsPrime_full_test_def Let_def split_beta
        PR_def GN_def s1_def s2_def fermat_def inner_def)
  then have "sat \<sigma> fermat \<or> sat \<sigma> inner"
    using s Or_Condition_sound [of \<sigma> fermat inner s2] by simp
  then consider "sat \<sigma> fermat"
    | "sat \<sigma> (Input_Equals_Number PR 2 n) \<or> sat \<sigma> (Input_Equals_Number PR 3 n)"
    unfolding inner_def using Or_Condition_sound by blast
  then have "val \<sigma> PR n = 2 \<or> val \<sigma> PR n = 3 \<or>
         (val \<sigma> GN n ^ (val \<sigma> PR n - 1)) mod val \<sigma> PR n = 1"
  proof cases
    case 1
    have "2 \<le> val \<sigma> PR n" using p by (simp add: PR_def)
    then show ?thesis
      using FermatTest2_sound [OF vn(2) vn(1) _ one one2 _ w, of st] 1 unfolding fermat_def by blast
  next
    case 2
    then show ?thesis using two_or_three [OF vn(1) n _ w'] by blast
  qed
  then show ?thesis by (simp add: PR_def GN_def)
qed

lemma sat_for_upto2:
  assumes "sat \<sigma> (fst (for_upto (\<lambda>i. for_upto (body i) k) m st))" "i < m" "j < k"
  shows "\<exists>s. sat \<sigma> (fst (body i j s))"
proof -
  obtain s where "sat \<sigma> (fst (for_upto (body i) k s))"
    using sat_for_upto [OF assms(1,2)] by blast
  then show ?thesis using assms(3) by (rule sat_for_upto)
qed

lemma IsPrime_sound:
  assumes s: "sat \<sigma> (fst (IsPrime target n (int k) st))"
    and vt: "valid_name target"
    and n: "2 \<le> n" and k: "0 < k"
    and one: "val \<sigma> (''One_NBit_'' @ Z n) n = 1"
    and one2: "val \<sigma> (''One_NBit_'' @ Z (n * 2)) (n * 2) = 1"
    and w: "n * 2 \<le> 32"
  shows "is_prime (val \<sigma> target n)"
proof -
  define cc where "cc = isprime_calls st + 1"
  define PR where "PR i = ''IsPrime_Prime_'' @ Z cc @ ''_'' @ Z i" for i
  define PW where "PW i = ''IsPrime_Pow_'' @ Z cc @ ''_'' @ Z i" for i
  define PT where "PT i = ''IsPrime_PowTemp_'' @ Z cc @ ''_'' @ Z i" for i
  define PTO where "PTO i = ''IsPrime_PowTemp_Overflow_'' @ Z cc @ ''_'' @ Z i" for i
  define PD where "PD i = ''IsPrime_Product_'' @ Z cc @ ''_'' @ Z i" for i
  define PDO where "PDO i = ''IsPrime_Product_Overflow_'' @ Z cc @ ''_'' @ Z i" for i
  define P1 where "P1 i = ''IsPrime_Product_Plus1_'' @ Z cc @ ''_'' @ Z i" for i
  define P1O where "P1O i = ''IsPrime_Product_Plus1_Overflow_'' @ Z cc @ ''_'' @ Z i" for i
  define M1 where "M1 i = ''IsPrime_Prime_Minus1_'' @ Z cc @ ''_'' @ Z i" for i
  define M1O where "M1O i = ''IsPrime_Prime_Minus1_Overflow_'' @ Z cc @ ''_'' @ Z i" for i
  define DV where "DV i = ''IsPrime_Div_'' @ Z cc @ ''_'' @ Z i" for i
  define MD where "MD i = ''IsPrime_Mod_'' @ Z cc @ ''_'' @ Z i" for i
  define GN where "GN i = ''IsPrime_Generator_'' @ Z cc @ ''_'' @ Z i" for i
  define ONE where "ONE = ''One_NBit_'' @ Z n"
  note defs = PR_def PW_def PT_def PTO_def PD_def PDO_def P1_def P1O_def M1_def M1O_def
    DV_def MD_def GN_def ONE_def
  have vn: "valid_name (PR i)" "valid_name (PW i)" "valid_name (PT i)" "valid_name (PTO i)"
    "valid_name (PD i)" "valid_name (PDO i)" "valid_name (P1 i)" "valid_name (P1O i)"
    "valid_name (M1 i)" "valid_name (M1O i)" "valid_name (DV i)" "valid_name (MD i)"
    "valid_name (GN i)" "valid_name ONE" for i
    by (simp_all add: defs valid_name_def scan_simps)
  have np: "(if int k = - 1 then n else nat (int k)) = k" by simp
  note unf = IsPrime_def Let_def split_beta np cc_def defs
  have b1: "sat \<sigma> (map (\<lambda>i. Input_Not_Equals_Number (PR i) 0 n) [0..<k])"
    using s by (simp add: unf)
  have b2: "sat \<sigma> (map (\<lambda>i. Input_Not_Equals_Number (PR i) 1 n) [0..<k])"
    using s by (simp add: unf)
  have b3: "\<exists>s. sat \<sigma> (fst (for_upto (\<lambda>i. for_upto (\<lambda>j.
      Pow_NBit (PR j) (PW i @ ''_'' @ Z j) (PT i @ ''_'' @ Z j) (PTO i @ ''_'' @ Z j) n) k) k s))"
    using s by (simp add: unf) blast
  have b4: "sat \<sigma> (concat (map (\<lambda>i. map (\<lambda>j. ''-<'' @ PTO i @ ''_'' @ Z j @ ''> 0 '') [0..<k]) [0..<k]))"
    using s by (simp add: unf)
  have b5: "\<exists>s. sat \<sigma> (fst (for_upto (\<lambda>i. Product_NBit (PT i) (PD i) (PDO i) k n) k s))"
    using s by (simp add: unf) blast
  have b6: "sat \<sigma> (map (\<lambda>i. ''-<'' @ PDO i @ ''> 0 '') [0..<k])"
    using s by (simp add: unf)
  have b7: "\<exists>s. sat \<sigma> (fst (for_upto (\<lambda>i. Add_NBit (PD i) ONE (P1 i) (P1O i) n) k s))"
    using s by (simp add: unf) blast
  have b8: "sat \<sigma> (map (\<lambda>i. ''-<'' @ P1O i @ ''> 0 '') [0..<k])"
    using s by (simp add: unf)
  have b9: "\<exists>s. sat \<sigma> (fst (for_upto (IsPrime_base_or_product cc n) k s))"
    using s by (simp add: unf) blast
  have b10: "\<exists>s. sat \<sigma> (fst (for_upto (\<lambda>i. Add_NBit (M1 i) ONE (PR i) (M1O i) n) k s))"
    using s by (simp add: unf) blast
  have b11: "sat \<sigma> (map (\<lambda>i. ''-<'' @ M1O i @ ''> 0 '') [0..<k])"
    using s by (simp add: unf)
  have b12: "\<exists>s. sat \<sigma> (fst (for_upto (\<lambda>i. for_upto (\<lambda>j.
      DivMod_NBit (M1 i) (PR j) (DV i @ ''_'' @ Z j) (MD i @ ''_'' @ Z j) n) k) k s))"
    using s by (simp add: unf) blast
  have b13: "\<exists>s. sat \<sigma> (fst (for_upto (\<lambda>i. for_upto (IsPrime_factor_test cc n i) k) k s))"
    using s by (simp add: unf) blast
  have b14: "\<exists>s. sat \<sigma> (fst (for_upto (IsPrime_full_test cc n) k s))"
    using s by (simp add: unf) blast
  have b15: "sat \<sigma> (Equals_NBit target (PR 0) n)"
    using s by (simp add: unf)
  define P where "P i = val \<sigma> (PR i) n" for i
  define E where "E i j = val \<sigma> (PW i @ ''_'' @ Z j) n" for i j
  define G where "G i = val \<sigma> (GN i) n" for i
  have n0: "0 < n" using n by simp
  have w': "n \<le> 32" using w by simp
  have ge2: "2 \<le> P i" if i: "i < k" for i
  proof -
    have "sat_clause \<sigma> (Input_Not_Equals_Number (PR i) (int 0) n)"
      "sat_clause \<sigma> (Input_Not_Equals_Number (PR i) (int 1) n)"
      using b1 b2 i by (simp_all add: sat_map)
    then have "P i \<noteq> 0" "P i \<noteq> 1"
      unfolding P_def using val_not_equals [OF vn(1) _ w'] by blast+
    then show ?thesis by simp
  qed
  have pow: "val \<sigma> (PT i @ ''_'' @ Z j) n = P j ^ E i j" if ij: "i < k" "j < k" for i j
  proof -
    obtain s' where "sat \<sigma> (fst (Pow_NBit (PR j) (PW i @ ''_'' @ Z j) (PT i @ ''_'' @ Z j)
        (PTO i @ ''_'' @ Z j) n s'))"
      using b3 sat_for_upto2 [where body = "\<lambda>i j. Pow_NBit (PR j) (PW i @ ''_'' @ Z j)
        (PT i @ ''_'' @ Z j) (PTO i @ ''_'' @ Z j) n", OF _ ij] by blast
    moreover have "\<not> \<sigma> (PTO i @ ''_'' @ Z j)"
      using b4 ij sat_unit_neg [of "PTO i @ ''_'' @ Z j" \<sigma>] vn(4) [of i]
      by (simp add: sat_concat_map sat_map)
    ultimately show ?thesis
      using Pow_NBit_sound [of "PR j" "PW i @ ''_'' @ Z j" "PT i @ ''_'' @ Z j" "PTO i @ ''_'' @ Z j"
          \<sigma> n s'] vn one w'
      by (simp add: P_def E_def)
  qed
  have prod: "val \<sigma> (PD i) n = (\<Prod>j<k. P j ^ E i j)" if i: "i < k" for i
  proof -
    obtain s' where "sat \<sigma> (fst (Product_NBit (PT i) (PD i) (PDO i) k n s'))"
      using b5 sat_for_upto [where body = "\<lambda>i. Product_NBit (PT i) (PD i) (PDO i) k n", OF _ i]
      by blast
    moreover have "\<not> \<sigma> (PDO i)"
      using b6 i sat_unit_neg [OF vn(6), of \<sigma> i] by (simp add: sat_map)
    ultimately have "val \<sigma> (PD i) n = (\<Prod>j<k. val \<sigma> (PT i @ ''_'' @ Z j) n)"
      using Product_NBit_sound [OF vn(3) vn(5) vn(6) _ _ n0 w'] by blast
    then show ?thesis using pow [OF i] by simp
  qed
  have plus1: "val \<sigma> (P1 i) n = val \<sigma> (PD i) n + 1" if i: "i < k" for i
  proof -
    obtain s' where "sat \<sigma> (fst (Add_NBit (PD i) ONE (P1 i) (P1O i) n s'))"
      using b7 sat_for_upto [where body = "\<lambda>i. Add_NBit (PD i) ONE (P1 i) (P1O i) n", OF _ i]
      by blast
    moreover have "\<not> \<sigma> (P1O i)"
      using b8 i sat_unit_neg [OF vn(8), of \<sigma> i] by (simp add: sat_map)
    ultimately show ?thesis
      using Add_NBit_sound [OF vn(5) vn(14) vn(7) vn(8), of \<sigma> i i i n s'] one
      by (simp add: ONE_def)
  qed
  have base: "P i = 2 \<or> P i = 3 \<or> P i = (\<Prod>j<k. P j ^ E i j) + 1" if i: "i < k" for i
  proof -
    obtain s' where "sat \<sigma> (fst (IsPrime_base_or_product cc n i s'))"
      using b9 sat_for_upto [where body = "IsPrime_base_or_product cc n", OF _ i] by blast
    then have "P i = 2 \<or> P i = 3 \<or> val \<sigma> (P1 i) n = P i"
      unfolding P_def PR_def P1_def using n w' by (rule IsPrime_base_or_product_sound)
    then show ?thesis using plus1 [OF i] prod [OF i] by auto
  qed
  have minus1: "val \<sigma> (M1 i) n = P i - 1" if i: "i < k" for i
  proof -
    obtain s' where "sat \<sigma> (fst (Add_NBit (M1 i) ONE (PR i) (M1O i) n s'))"
      using b10 sat_for_upto [where body = "\<lambda>i. Add_NBit (M1 i) ONE (PR i) (M1O i) n", OF _ i]
      by blast
    moreover have "\<not> \<sigma> (M1O i)"
      using b11 i sat_unit_neg [OF vn(10), of \<sigma> i] by (simp add: sat_map)
    ultimately show ?thesis
      using Add_NBit_sound [OF vn(9) vn(14) vn(1) vn(10), of \<sigma> i i i n s'] one
      by (simp add: ONE_def P_def)
  qed
  have dv: "val \<sigma> (DV i @ ''_'' @ Z j) n = (P i - 1) div P j" if ij: "i < k" "j < k" for i j
  proof -
    obtain s' where "sat \<sigma> (fst (DivMod_NBit (M1 i) (PR j) (DV i @ ''_'' @ Z j) (MD i @ ''_'' @ Z j) n s'))"
      using b12 sat_for_upto2 [where body = "\<lambda>i j. DivMod_NBit (M1 i) (PR j) (DV i @ ''_'' @ Z j)
        (MD i @ ''_'' @ Z j) n", OF _ ij] by blast
    then show ?thesis
      using DivMod_NBit_values(1) [of "M1 i" "PR j" "DV i @ ''_'' @ Z j" "MD i @ ''_'' @ Z j" \<sigma> n s']
        vn minus1 [OF ij(1)]
      by (simp add: P_def)
  qed
  have factor: "P i = 2 \<or> P i = 3 \<or> E i j = 0 \<or> G i ^ ((P i - 1) div P j) mod P i \<noteq> 1"
    if ij: "i < k" "j < k" for i j
  proof -
    obtain s' where "sat \<sigma> (fst (IsPrime_factor_test cc n i j s'))"
      using b13 sat_for_upto2 [where body = "IsPrime_factor_test cc n", OF _ ij] by blast
    then have "val \<sigma> (''IsPrime_Prime_'' @ Z cc @ ''_'' @ Z i) n = 2 \<or>
         val \<sigma> (''IsPrime_Prime_'' @ Z cc @ ''_'' @ Z i) n = 3 \<or>
         val \<sigma> (''IsPrime_Pow_'' @ Z cc @ ''_'' @ Z i @ ''_'' @ Z j) n = 0 \<or>
         (val \<sigma> (''IsPrime_Generator_'' @ Z cc @ ''_'' @ Z i) n ^
          val \<sigma> (''IsPrime_Div_'' @ Z cc @ ''_'' @ Z i @ ''_'' @ Z j) n) mod
         val \<sigma> (''IsPrime_Prime_'' @ Z cc @ ''_'' @ Z i) n \<noteq> 1"
      using n one2 ge2 [OF ij(1)] w unfolding P_def PR_def
      by (rule IsPrime_factor_test_sound)
    then show ?thesis using dv [OF ij] by (simp add: P_def E_def G_def defs)
  qed
  have full: "P i = 2 \<or> P i = 3 \<or> G i ^ (P i - 1) mod P i = 1" if i: "i < k" for i
  proof -
    obtain s' where "sat \<sigma> (fst (IsPrime_full_test cc n i s'))"
      using b14 sat_for_upto [where body = "IsPrime_full_test cc n", OF _ i] by blast
    then show ?thesis
      unfolding P_def G_def PR_def GN_def
      using n one one2 ge2 [OF i, unfolded P_def PR_def] w
      by (rule IsPrime_full_test_sound)
  qed
  have all_prime: "\<forall>i<k. P i = v \<longrightarrow> is_prime v" for v
  proof (induction v rule: less_induct)
    case (less v)
    show ?case
    proof (intro allI impI)
      fix i assume i: "i < k" and v: "P i = v"
      show "is_prime v"
      proof (cases "v = 2 \<or> v = 3")
        case True
        then show ?thesis using is_prime_2 is_prime_3 by auto
      next
        case False
        then have pm: "v - 1 = (\<Prod>j<k. P j ^ E i j)" and f: "G i ^ (v - 1) mod v = 1"
          using base [OF i] full [OF i] v by auto
        show ?thesis
        proof (rule lehmer)
          show "2 \<le> v" using ge2 [OF i] v by simp
          show "G i ^ (v - 1) mod v = 1" by (rule f)
          fix q assume q: "is_prime q" "q dvd v - 1"
          then obtain j where j: "j < k" "q dvd P j ^ E i j"
            using prime_dvd_prod [of q "\<lambda>j. P j ^ E i j" k] pm by auto
          have e: "E i j \<noteq> 0" using j(2) q(1) by (intro notI) (simp add: is_prime_iff)
          have qd: "q dvd P j" using q(1) j(2) by (rule prime_dvd_power)
          have "P j dvd P j ^ E i j" using e by (intro dvd_power) simp
          also have "P j ^ E i j dvd (\<Prod>j<k. P j ^ E i j)" using j(1) by (intro dvd_prodI) simp_all
          finally have "P j dvd v - 1" using pm by simp
          moreover have "0 < v - 1" using ge2 [OF i] v by simp
          ultimately have "P j \<le> v - 1" by (intro dvd_imp_le)
          then have "P j < v" using ge2 [OF i] v by simp
          then have "is_prime (P j)" using less.IH [of "P j"] j(1) by simp
          then have "q = P j" using q(1) qd by (intro prime_dvd_prime)
          then show "G i ^ ((v - 1) div q) mod v \<noteq> 1"
            using factor [OF i j(1)] False e v by auto
        qed
      qed
    qed
  qed
  have "val \<sigma> target n = P 0"
    unfolding P_def using vt vn(1) b15 by (rule val_Equals_NBit)
  then show ?thesis using all_prime [of "P 0"] k by simp
qed


section \<open>Names that later calls leave alone\<close>

lemma table_compat: "list_all (\<lambda>P. list_all (compat P) (map fst table)) (map fst table)"
  by code_simp

lemma table_distinct: "distinct (map fst table)"
  by code_simp

lemma table_upper:
  "list_all (\<lambda>(P, k). P \<noteq> [] \<and> list_all name_char P \<and> CHR ''A'' \<le> hd P \<and> hd P \<le> CHR ''Z'') table"
  by code_simp

lemma digit_char_digit: "d < 10 \<Longrightarrow> is_digit (digit_char d)"
proof -
  assume "d < 10"
  then have "d \<in> {0, 1, 2, 3, 4, 5, 6, 7, 8, 9}" by auto
  then show ?thesis
    by (auto simp: digit_char_def is_digit_def less_eq_char_def)
qed

lemma digit_char_value: "d < 10 \<Longrightarrow> of_char (digit_char d) - 48 = d"
proof -
  assume "d < 10"
  then have "d \<in> {0, 1, 2, 3, 4, 5, 6, 7, 8, 9}" by auto
  then show ?thesis
    by (auto simp: digit_char_def)
qed

lemma dec_digits: "list_all is_digit (dec i)"
proof (induction i rule: dec.induct)
  case (1 i)
  show ?case
  proof (cases "i < 10")
    case True
    then show ?thesis by (simp add: dec.simps [of i] digit_char_digit)
  next
    case False
    with 1 show ?thesis by (simp add: dec.simps [of i] digit_char_digit)
  qed
qed

lemma Z_digits [simp]: "list_all is_digit (Z i)"
  using dec_digits [of i] by (auto simp: Z_def list_all_iff is_digit_def)

lemma num_append: "num (s @ [c]) = 10 * num s + (of_char c - 48)"
  by (simp add: num_def)

lemma num_dec: "num (dec i) = i"
proof (induction i rule: dec.induct)
  case (1 i)
  show ?case
  proof (cases "i < 10")
    case True
    then show ?thesis by (simp add: dec.simps [of i] num_def digit_char_value)
  next
    case False
    then have "num (dec (i div 10)) = i div 10" using 1 by simp
    then show ?thesis
      using False by (simp add: dec.simps [of i] num_append digit_char_value)
  qed
qed

lemma num_zeros: "num (replicate k (CHR ''0'') @ s) = num s"
proof (induction k)
  case 0
  then show ?case by simp
next
  case (Suc k)
  have "num (CHR ''0'' # t) = num t" for t
  proof (induction t rule: rev_induct)
    case Nil
    then show ?case by (simp add: num_def)
  next
    case (snoc c t)
    have "num (CHR ''0'' # t @ [c]) = num ((CHR ''0'' # t) @ [c])" by simp
    also have "\<dots> = 10 * num (CHR ''0'' # t) + (of_char c - 48)" by (rule num_append)
    finally show ?case using snoc by (simp add: num_append)
  qed
  then show ?case using Suc by simp
qed

lemma num_Z: "num (Z i) = i"
  by (simp add: Z_def num_zeros num_dec)

lemma Z_inj [simp]: "Z a = Z b \<longleftrightarrow> a = b"
proof
  assume "Z a = Z b"
  then have "num (Z a) = num (Z b)" by (rule arg_cong)
  then show "a = b" by (simp only: num_Z)
qed simp

lemma tail_takeWhile: "tail r \<Longrightarrow> takeWhile is_digit (Z c @ r) = Z c"
proof -
  assume t: "tail r"
  have d: "\<And>x. x \<in> set (Z c) \<Longrightarrow> is_digit x" using Z_digits [of c] by (simp add: list_all_iff)
  then have "takeWhile is_digit (Z c @ r) = Z c @ takeWhile is_digit r" by (rule takeWhile_append2)
  moreover have "takeWhile is_digit r = []" using t by (cases r) (simp_all add: tail_def)
  ultimately show ?thesis by simp
qed

lemma Z_tail_inj:
  assumes "tail r" "tail r'" "Z c @ r = Z c' @ r'"
  shows "c = c' \<and> r = r'"
proof -
  have "Z c = Z c'"
    using tail_takeWhile [OF assms(1), of c] tail_takeWhile [OF assms(2), of c'] assms(3) by simp
  then show ?thesis using assms(3) by simp
qed

lemma hd_Z_digit: "is_digit (hd (Z c))"
  using Z_digits [of c] Z_not_Nil [of c] by (cases "Z c") simp_all

lemma compat_prefix:
  assumes "compat P Q" "P @ Z c @ r = Q @ Z c' @ r'"
  shows "P = Q"
proof (rule ccontr)
  assume ne: "P \<noteq> Q"
  obtain u where u: "(P = Q @ u \<and> u @ Z c @ r = Z c' @ r') \<or> (P @ u = Q \<and> Z c @ r = u @ Z c' @ r')"
    using assms(2) append_eq_append_conv2 [of P "Z c @ r" Q "Z c' @ r'"] by blast
  then show False
  proof
    assume a: "P = Q @ u \<and> u @ Z c @ r = Z c' @ r'"
    then have un: "u \<noteq> []" using ne by auto
    then have "hd u = hd (Z c')" using a by (cases u; cases "Z c'") auto
    then have "is_digit (P ! length Q)" using a un hd_Z_digit [of c'] by (cases u) (auto simp: nth_append)
    moreover have "take (length Q) P = Q" "\<not> length P \<le> length Q" using a un by auto
    ultimately show False using assms(1) ne by (simp add: compat_def)
  next
    assume a: "P @ u = Q \<and> Z c @ r = u @ Z c' @ r'"
    then have un: "u \<noteq> []" using ne by auto
    then have "hd u = hd (Z c)" using a by (cases u; cases "Z c") auto
    then have "is_digit (Q ! length P)" using a un hd_Z_digit [of c] by (cases u) (auto simp: nth_append)
    moreover have "take (length P) Q = P" "length P \<le> length Q" using a un by auto
    ultimately show False using assms(1) ne by (simp add: compat_def)
  qed
qed

lemma reading_unique:
  assumes "(P, k) \<in> set table" "(Q, k') \<in> set table" "tail r" "tail r'"
    and "P @ Z c @ r = Q @ Z c' @ r'"
  shows "P = Q \<and> k = k' \<and> c = c' \<and> r = r'"
proof -
  have "P \<in> set (map fst table)" "Q \<in> set (map fst table)"
    using assms(1,2) by force+
  then have "compat P Q" using table_compat by (auto simp: list_all_iff)
  then have pq: "P = Q" using assms(5) by (rule compat_prefix)
  then have "k = k'" using assms(1,2) eq_key_imp_eq_value [OF table_distinct, of Q k k'] by simp
  moreover have "Z c @ r = Z c' @ r'" using assms(5) pq by simp
  then have "c = c' \<and> r = r'" by (rule Z_tail_inj [OF assms(3,4)])
  ultimately show ?thesis using pq by blast
qed

lemma table_prefix:
  assumes "(P, k) \<in> set table"
  shows "P \<noteq> []" "list_all name_char P" "CHR ''A'' \<le> hd P" "hd P \<le> CHR ''Z''"
  using assms table_upper by (auto simp: list_all_iff)

lemma tail_name: "tail r \<Longrightarrow> list_all name_char r"
  by (simp add: tail_def)

lemma tail_append: "tail r \<Longrightarrow> tail s \<Longrightarrow> tail (r @ s)"
  by (cases r) (simp_all add: tail_def)

lemma tail_bit [simp]: "tail (CHR ''_'' # Z i)" "tail []"
  by (simp_all add: tail_def is_digit_def less_eq_char_def)

lemma tail_Cons: "name_char c \<Longrightarrow> \<not> is_digit c \<Longrightarrow> list_all name_char r \<Longrightarrow> tail (c # r)"
  by (simp add: tail_def)

lemma user_name_append: "user_name x \<Longrightarrow> list_all name_char s \<Longrightarrow> user_name (x @ s)"
  by (cases x) (simp_all add: user_name_def)

lemma stableE:
  assumes "stable st x"
  obtains "user_name x"
  | P k c r where "(P, k) \<in> set table" "x = P @ Z c @ r" "tail r" "k = KConst \<or> c \<le> count k st"
  using assms unfolding stable_def by blast

lemma stable_user: "user_name x \<Longrightarrow> stable st x"
  by (simp add: stable_def)

lemma stable_form:
  "(P, k) \<in> set table \<Longrightarrow> tail r \<Longrightarrow> k = KConst \<or> c \<le> count k st \<Longrightarrow> stable st (P @ Z c @ r)"
  unfolding stable_def by blast

lemma stable_append:
  assumes "stable st x" "tail s"
  shows "stable st (x @ s)"
  using assms(1)
proof (cases rule: stableE)
  case 1
  then show ?thesis using assms(2) by (simp add: stable_user user_name_append tail_name)
next
  case (2 P k c r)
  have "stable st (P @ Z c @ (r @ s))"
    using 2(1) _ 2(4) by (rule stable_form) (simp add: tail_append 2(3) assms(2))
  then show ?thesis using 2(2) by simp
qed

lemma stable_bit [simp]: "stable st x \<Longrightarrow> stable st (x @ CHR ''_'' # Z i)"
  by (rule stable_append) simp_all

lemma stable_mono:
  assumes "counters_le st st'" "stable st x"
  shows "stable st' x"
  using assms(2)
proof (cases rule: stableE)
  case 1
  then show ?thesis by (rule stable_user)
next
  case (2 P k c r)
  have "k = KConst \<or> c \<le> count k st'"
    using 2(4) assms(1) by (auto simp: counters_le_def intro: le_trans)
  then show ?thesis unfolding 2(2) using 2(1,3) by (intro stable_form)
qed

lemma stable_own: "(P, k) \<in> set table \<Longrightarrow> tail r \<Longrightarrow> c \<le> count k st \<Longrightarrow> stable st (P @ Z c @ r)"
  unfolding stable_def by blast

lemma stable_const: "(P, KConst) \<in> set table \<Longrightarrow> tail r \<Longrightarrow> stable st (P @ Z c @ r)"
  unfolding stable_def by blast

lemma stable_valid:
  assumes "stable st x"
  shows "valid_name x"
  using assms
proof (cases rule: stableE)
  case 1
  then show ?thesis by (cases x) (simp_all add: user_name_def valid_name_def)
next
  case (2 P k c r)
  then show ?thesis using table_prefix(1,2) [of P k] by (simp add: valid_name_def tail_name)
qed

lemma not_stable_future:
  assumes "(P, k) \<in> set table" "k \<noteq> KConst" "tail r" "count k st < c"
  shows "\<not> stable st (P @ Z c @ r)"
proof
  assume "stable st (P @ Z c @ r)"
  then consider "user_name (P @ Z c @ r)"
    | Q k' c' r' where "(Q, k') \<in> set table" "P @ Z c @ r = Q @ Z c' @ r'" "tail r'"
        "k' = KConst \<or> c' \<le> count k' st"
    unfolding stable_def by blast
  then show False
  proof cases
    case 1
    then show ?thesis
      using table_prefix [OF assms(1)] by (cases P) (auto simp: user_name_def less_eq_char_def)
  next
    case 2
    then have "k = k' \<and> c = c'" using reading_unique [OF assms(1) 2(1) assms(3) 2(3) 2(2)] by simp
    then show ?thesis using 2(4) assms(2,4) by auto
  qed
qed

lemma agree_refl [simp]: "agree st \<sigma> \<sigma>"
  by (simp add: agree_def)

lemma agree_trans: "agree st \<sigma> \<sigma>' \<Longrightarrow> agree st' \<sigma>' \<sigma>'' \<Longrightarrow> counters_le st st' \<Longrightarrow> agree st \<sigma> \<sigma>''"
  unfolding agree_def using stable_mono [of st st'] by auto

lemma agree_mono: "agree st' \<sigma> \<sigma>' \<Longrightarrow> counters_le st st' \<Longrightarrow> agree st \<sigma> \<sigma>'"
  unfolding agree_def using stable_mono [of st st'] by auto

lemma agree_bit: "agree st \<sigma> \<sigma>' \<Longrightarrow> stable st x \<Longrightarrow> \<sigma>' x = \<sigma> x"
  by (simp add: agree_def)

lemma agree_val: "agree st \<sigma> \<sigma>' \<Longrightarrow> stable st x \<Longrightarrow> val \<sigma>' x n = val \<sigma> x n"
  unfolding val_def by (intro bv_cong) (simp add: agree_def)

lemma counters_le_refl [simp]: "counters_le st st"
  by (simp add: counters_le_def)

lemma counters_le_trans: "counters_le a b \<Longrightarrow> counters_le b c \<Longrightarrow> counters_le a c"
  unfolding counters_le_def by (meson le_trans)

lemma future_assign:
  "\<exists>\<sigma>'. (\<forall>P k c r. (P, k) \<in> set table \<and> k \<noteq> KConst \<and> tail r \<and> count k st < c \<longrightarrow>
            \<sigma>' (P @ Z c @ r) = V P c r) \<and> agree st \<sigma> \<sigma>'"
proof -
  define own where "own x = (\<exists>P k c r. (P, k) \<in> set table \<and> k \<noteq> KConst \<and> tail r \<and> count k st < c \<and>
      x = P @ Z c @ r)" for x
  define rd where "rd x = (SOME t. case t of (P, c, r) \<Rightarrow>
      (\<exists>k. (P, k) \<in> set table) \<and> tail r \<and> x = P @ Z c @ r)" for x
  define \<sigma>' where "\<sigma>' x = (if own x then (case rd x of (P, c, r) \<Rightarrow> V P c r) else \<sigma> x)" for x
  have rd: "rd (P @ Z c @ r) = (P, c, r)" if "(P, k) \<in> set table" "tail r" for P k c r
  proof -
    have "(case rd (P @ Z c @ r) of (Q, c', r') \<Rightarrow>
        (\<exists>k. (Q, k) \<in> set table) \<and> tail r' \<and> P @ Z c @ r = Q @ Z c' @ r')"
      unfolding rd_def
      by (rule someI [where x = "(P, c, r)"]) (use that in auto)
    then obtain Q c' r' k' where "rd (P @ Z c @ r) = (Q, c', r')" "(Q, k') \<in> set table" "tail r'"
      "P @ Z c @ r = Q @ Z c' @ r'"
      by (cases "rd (P @ Z c @ r)") auto
    then show ?thesis using reading_unique [OF that(1) _ that(2), of Q k' r' c c'] by simp
  qed
  have "\<sigma>' (P @ Z c @ r) = V P c r"
    if "(P, k) \<in> set table" "k \<noteq> KConst" "tail r" "count k st < c" for P k c r
  proof -
    have "own (P @ Z c @ r)" unfolding own_def using that by blast
    then show ?thesis using rd [OF that(1,3)] by (simp add: \<sigma>'_def)
  qed
  moreover have "\<sigma>' x = \<sigma> x" if "stable st x" for x
  proof -
    have "\<not> own x" unfolding own_def using that not_stable_future by blast
    then show ?thesis by (simp add: \<sigma>'_def)
  qed
  ultimately show ?thesis unfolding agree_def by blast
qed

lemma ext_okD:
  assumes "ext_ok st \<sigma> g" "counters_le st s" "agree st \<sigma> \<sigma>'"
  obtains \<sigma>'' where "counters_le s (snd (g s))" "agree s \<sigma>' \<sigma>''"
    "\<And>\<tau>. agree (snd (g s)) \<sigma>'' \<tau> \<Longrightarrow> sat \<tau> (fst (g s))"
  using assms unfolding ext_ok_def by blast

lemma ext_okI:
  assumes "\<And>s \<sigma>'. counters_le st s \<Longrightarrow> agree st \<sigma> \<sigma>' \<Longrightarrow>
     counters_le s (snd (g s)) \<and>
     (\<exists>\<sigma>''. agree s \<sigma>' \<sigma>'' \<and> (\<forall>\<tau>. agree (snd (g s)) \<sigma>'' \<tau> \<longrightarrow> sat \<tau> (fst (g s))))"
  shows "ext_ok st \<sigma> g"
  using assms unfolding ext_ok_def by blast

lemma ext_ok_emit:
  assumes "\<And>\<tau>. agree st \<sigma> \<tau> \<Longrightarrow> sat \<tau> cs"
  shows "ext_ok st \<sigma> (emit cs)"
proof (rule ext_okI)
  fix s \<sigma>' assume le: "counters_le st s" and ag: "agree st \<sigma> \<sigma>'"
  have "sat \<tau> cs" if "agree s \<sigma>' \<tau>" for \<tau>
    using assms agree_trans [OF ag that le] by simp
  then show "counters_le s (snd (emit cs s)) \<and>
     (\<exists>\<sigma>''. agree s \<sigma>' \<sigma>'' \<and> (\<forall>\<tau>. agree (snd (emit cs s)) \<sigma>'' \<tau> \<longrightarrow> sat \<tau> (fst (emit cs s))))"
    by (auto simp: emit_def intro!: exI [of _ \<sigma>'])
qed

lemma ext_ok_seq:
  assumes f: "ext_ok st \<sigma> f" and g: "ext_ok st \<sigma> g"
  shows "ext_ok st \<sigma> (seq f g)"
proof (rule ext_okI)
  fix s \<sigma>' assume le: "counters_le st s" and ag: "agree st \<sigma> \<sigma>'"
  obtain \<sigma>1 where f1: "counters_le s (snd (f s))" "agree s \<sigma>' \<sigma>1"
    "\<And>\<tau>. agree (snd (f s)) \<sigma>1 \<tau> \<Longrightarrow> sat \<tau> (fst (f s))"
    using ext_okD [OF f le ag] by blast
  define s1 where "s1 = snd (f s)"
  have le1: "counters_le st s1" using le f1(1) unfolding s1_def by (rule counters_le_trans)
  have ag1: "agree st \<sigma> \<sigma>1" using ag f1(2) le by (rule agree_trans)
  obtain \<sigma>2 where g2: "counters_le s1 (snd (g s1))" "agree s1 \<sigma>1 \<sigma>2"
    "\<And>\<tau>. agree (snd (g s1)) \<sigma>2 \<tau> \<Longrightarrow> sat \<tau> (fst (g s1))"
    using ext_okD [OF g le1 ag1] by blast
  have r: "fst (seq f g s) = fst (f s) @ fst (g s1)" "snd (seq f g s) = snd (g s1)"
    by (simp_all add: seq_def split_beta s1_def)
  have "counters_le s (snd (seq f g s))"
    using f1(1) g2(1) unfolding r s1_def by (rule counters_le_trans)
  moreover have "agree s \<sigma>' \<sigma>2"
    using f1(2) g2(2) f1(1) [folded s1_def] by (rule agree_trans)
  moreover have "sat \<tau> (fst (seq f g s))" if t: "agree (snd (seq f g s)) \<sigma>2 \<tau>" for \<tau>
  proof -
    have "agree s1 \<sigma>1 \<tau>" using g2(2) t [unfolded r] g2(1) by (rule agree_trans)
    then have "sat \<tau> (fst (f s))" unfolding s1_def by (rule f1(3))
    moreover have "sat \<tau> (fst (g s1))" using t [unfolded r] by (rule g2(3))
    ultimately show ?thesis by (simp add: r)
  qed
  ultimately show "counters_le s (snd (seq f g s)) \<and>
     (\<exists>\<sigma>''. agree s \<sigma>' \<sigma>'' \<and> (\<forall>\<tau>. agree (snd (seq f g s)) \<sigma>'' \<tau> \<longrightarrow> sat \<tau> (fst (seq f g s))))"
    by blast
qed

lemma for_upto_seq: "for_upto body (Suc k) = seq (for_upto body k) (body k)"
  by (rule ext) (simp add: seq_def)

lemma for_upto_emit: "for_upto body 0 = emit []"
  by (rule ext) (simp add: emit_def)

lemma ext_ok_for_upto:
  assumes "\<And>i. i < k \<Longrightarrow> ext_ok st \<sigma> (body i)"
  shows "ext_ok st \<sigma> (for_upto body k)"
  using assms
proof (induction k)
  case 0
  show ?case unfolding for_upto_emit by (rule ext_ok_emit) simp
next
  case (Suc k)
  show ?case unfolding for_upto_seq
    by (rule ext_ok_seq) (simp_all add: Suc)
qed

lemma ext_ok_mono:
  assumes "ext_ok st \<sigma> g" "counters_le st st'" "agree st \<sigma> \<sigma>'"
  shows "ext_ok st' \<sigma>' g"
proof (rule ext_okI)
  fix s \<tau> assume le: "counters_le st' s" and ag: "agree st' \<sigma>' \<tau>"
  have "counters_le st s" using assms(2) le by (rule counters_le_trans)
  moreover have "agree st \<sigma> \<tau>" using assms(3) ag assms(2) by (rule agree_trans)
  ultimately show "counters_le s (snd (g s)) \<and>
     (\<exists>\<sigma>''. agree s \<tau> \<sigma>'' \<and> (\<forall>\<tau>. agree (snd (g s)) \<sigma>'' \<tau> \<longrightarrow> sat \<tau> (fst (g s))))"
    using assms(1) unfolding ext_ok_def by blast
qed

lemma ext_ok_sat:
  assumes "ext_ok st \<sigma> g"
  shows "\<exists>\<sigma>'. agree st \<sigma> \<sigma>' \<and> sat \<sigma>' (fst (g st))"
proof -
  obtain \<sigma>'' where "agree st \<sigma> \<sigma>''" "\<And>\<tau>. agree (snd (g st)) \<sigma>'' \<tau> \<Longrightarrow> sat \<tau> (fst (g st))"
    using ext_okD [OF assms counters_le_refl agree_refl] by blast
  then show ?thesis using agree_refl by blast
qed

lemma counters_le_count:
  "counters_le st st' \<Longrightarrow> count k st \<le> count k st'"
  by (simp add: counters_le_def)

lemma counters_leI:
  assumes "add_nbit_calls st \<le> add_nbit_calls st'" "mul_nbit_calls st \<le> mul_nbit_calls st'"
    "lessthan_nbit_calls st \<le> lessthan_nbit_calls st'" "divmod_nbit_calls st \<le> divmod_nbit_calls st'"
    "pow_nbit_calls st \<le> pow_nbit_calls st'" "powmod_nbit_calls st \<le> powmod_nbit_calls st'"
    "or_condition_calls st \<le> or_condition_calls st'" "sum_nbit_calls st \<le> sum_nbit_calls st'"
    "product_nbit_calls st \<le> product_nbit_calls st'" "fermat_calls st \<le> fermat_calls st'"
    "fermat2_calls st \<le> fermat2_calls st'" "fermat3_calls st \<le> fermat3_calls st'"
    "isprime_calls st \<le> isprime_calls st'" "iscomposite_calls st \<le> iscomposite_calls st'"
  shows "counters_le st st'"
  unfolding counters_le_def
proof
  fix k show "count k st \<le> count k st'" using assms by (cases k) simp_all
qed


section \<open>The generators can be satisfied\<close>

lemma table_mem:
  "(''AddNBit_'', KAdd) \<in> set table"
  "(''Mul_NBit_Accum1_'', KMul) \<in> set table"
  "(''Mul_NBit_Accum2_'', KMul) \<in> set table"
  "(''Mul_NBit_CarryOut_'', KMul) \<in> set table"
  "(''LessThan_NBit_Equals_'', KLess) \<in> set table"
  "(''LessThan_NBit_Less_'', KLess) \<in> set table"
  "(''LessThan_NBit_EqualAccum_'', KLess) \<in> set table"
  "(''LessThan_NBit_Result_'', KLess) \<in> set table"
  "(''DivMod_NBit_Accum_'', KDivMod) \<in> set table"
  "(''DivMode_NBit_MulOverflow_'', KDivMod) \<in> set table"
  "(''DivMode_NBit_AddOverflow_'', KDivMod) \<in> set table"
  "(''One_NBit_'', KConst) \<in> set table"
  "(''Zero_1Bit_'', KConst) \<in> set table"
  by (simp_all add: table_def)

lemma tail_us: "list_all name_char r \<Longrightarrow> tail (CHR ''_'' # r)"
  by (simp add: tail_def is_digit_def less_eq_char_def)

lemmas tail_simps = tail_us name_char_def less_eq_char_def

lemma tail_carry: "tail (''_carry_out_'' @ Z i)"
  by (simp add: tail_simps)

lemma add_unique:
  fixes r r' :: nat
  assumes "r + 2 ^ n * of_bool c = r' + 2 ^ n * of_bool c'" "r < 2 ^ n" "r' < 2 ^ n"
  shows "r = r' \<and> c = c'"
  using assms by (cases c; cases c') auto

lemma ownD:
  assumes "\<forall>P k c t. (P, k) \<in> set table \<and> k \<noteq> KConst \<and> tail t \<and> count k s < c \<longrightarrow>
        \<sigma> (P @ Z c @ t) = V P c t"
    and "(P, k) \<in> set table" "k \<noteq> KConst" "tail t" "count k s < c"
  shows "\<sigma> (P @ Z c @ t) = V P c t"
  using assms by blast

lemma Add_NBit_ext:
  assumes st: "stable st in_a" "stable st in_b" "stable st result" "stable st over_flow"
    and R: "val \<sigma> in_a n + val \<sigma> in_b n = val \<sigma> result n + 2 ^ n * of_bool (\<sigma> over_flow)"
  shows "ext_ok st \<sigma> (Add_NBit in_a in_b result over_flow n)"
proof (rule ext_okI)
  fix s \<sigma>' assume le: "counters_le st s" and ag: "agree st \<sigma> \<sigma>'"
  define cc where "cc = add_nbit_calls s + 1"
  define s1 where "s1 = s\<lparr>add_nbit_calls := cc\<rparr>"
  define C where "C i = ''AddNBit_'' @ Z cc @ ''_carry_out_'' @ Z i" for i
  define a where "a = (\<lambda>i. \<sigma>' (in_a @ ''_'' @ Z i))"
  define b where "b = (\<lambda>i. \<sigma>' (in_b @ ''_'' @ Z i))"
  define r where "r = (\<lambda>i. \<sigma>' (result @ ''_'' @ Z i))"
  define c where "c = rec_nat False (\<lambda>i ci. maj3 (a i) (b i) ci)"
  have c0: "\<not> c 0" and cS: "c (Suc i) = maj3 (a i) (b i) (c i)" for i
    by (simp_all add: c_def)
  have sts: "stable s in_a" "stable s in_b" "stable s result" "stable s over_flow"
    using st le stable_mono by blast+
  have le1: "counters_le s s1"
    by (rule counters_leI) (simp_all add: s1_def cc_def)
  have R': "bv a n + bv b n = bv r n + 2 ^ n * of_bool (\<sigma>' over_flow)"
    using R agree_val [OF ag st(1), of n] agree_val [OF ag st(2), of n] agree_val [OF ag st(3), of n]
      agree_bit [OF ag st(4)]
    by (simp add: val_def a_def b_def r_def)
  have "bv a n + bv b n + of_bool (c 0) = bv (\<lambda>i. xor3 (a i) (b i) (c i)) n + 2 ^ n * of_bool (c n)"
    by (rule ripple_carry) (simp_all add: cS)
  then have "bv r n + 2 ^ n * of_bool (\<sigma>' over_flow) =
      bv (\<lambda>i. xor3 (a i) (b i) (c i)) n + 2 ^ n * of_bool (c n)"
    using R' c0 by simp
  then have u: "bv r n = bv (\<lambda>i. xor3 (a i) (b i) (c i)) n \<and> \<sigma>' over_flow = c n"
    by (rule add_unique) (simp_all add: bv_less)
  then have ri: "r i = xor3 (a i) (b i) (c i)" if "i < n" for i
    using bv_inject [of r n "\<lambda>i. xor3 (a i) (b i) (c i)" i] that by simp
  define V where "V = (\<lambda>(P::string) (c'::nat) t. \<exists>i. t = ''_carry_out_'' @ Z i \<and> c i)"
  obtain \<sigma>1 where own: "\<forall>P k c' t. (P, k) \<in> set table \<and> k \<noteq> KConst \<and> tail t \<and> count k s < c' \<longrightarrow>
        \<sigma>1 (P @ Z c' @ t) = V P c' t"
    and ag1: "agree s \<sigma>' \<sigma>1"
    using future_assign [of s V \<sigma>'] by blast
  have C1: "\<sigma>1 (C i) = c i" for i
  proof -
    have "\<sigma>1 (''AddNBit_'' @ Z cc @ ''_carry_out_'' @ Z i) = V ''AddNBit_'' cc (''_carry_out_'' @ Z i)"
      by (rule ownD [OF own table_mem(1) _ tail_carry]) (simp_all add: cc_def)
    then show ?thesis by (simp add: C_def V_def)
  qed
  have stC: "stable s1 (C i)" for i
    unfolding C_def by (rule stable_form [OF table_mem(1)]) (simp_all add: s1_def tail_simps)
  have vC: "valid_name (C i)" for i using stC by (rule stable_valid)
  have vo: "valid_name in_a" "valid_name in_b" "valid_name result" "valid_name over_flow"
    using sts stable_valid by blast+
  have res: "fst (Add_NBit in_a in_b result over_flow n s) =
      [''-<'' @ C 0 @ ''> 0 ''] @
      concat (map (\<lambda>i. Add_1Bit (in_a @ ''_'' @ Z i) (in_b @ ''_'' @ Z i) (C i) (result @ ''_'' @ Z i)
                     (C (i + 1))) [0..<n]) @
      [''-<'' @ over_flow @ ''>  <'' @ C n @ ''> 0 '', '' <'' @ over_flow @ ''> -<'' @ C n @ ''> 0 '']"
    "snd (Add_NBit in_a in_b result over_flow n s) = s1"
    by (simp_all add: Add_NBit_def Let_def C_def cc_def s1_def)
  have "sat \<tau> (fst (Add_NBit in_a in_b result over_flow n s))" if t: "agree s1 \<sigma>1 \<tau>" for \<tau>
  proof -
    have tC: "\<tau> (C i) = c i" for i using agree_bit [OF t stC] C1 by simp
    have old: "\<tau> x = \<sigma>' x" if "stable s x" for x
      using agree_bit [OF agree_trans [OF ag1 t le1] that] .
    have ta: "\<tau> (in_a @ ''_'' @ Z i) = a i" "\<tau> (in_b @ ''_'' @ Z i) = b i"
      "\<tau> (result @ ''_'' @ Z i) = r i" for i
      using old sts by (simp_all add: a_def b_def r_def)
    have tov: "\<tau> over_flow = c n" using old [OF sts(4)] u by simp
    have 1: "sat_clause \<tau> (''-<'' @ C 0 @ ''> 0 '')"
      using sat_unit_neg [OF vC, of \<tau> 0] tC c0 by simp
    have 2: "sat \<tau> (Add_1Bit (in_a @ ''_'' @ Z i) (in_b @ ''_'' @ Z i) (C i) (result @ ''_'' @ Z i)
                     (C (i + 1)))" if "i < n" for i
      using sat_Add_1Bit [of "in_a @ ''_'' @ Z i" "in_b @ ''_'' @ Z i" "C i" "result @ ''_'' @ Z i"
          "C (i + 1)" \<tau>] vo vC ta tC cS ri [OF that]
      by simp
    have 3: "sat \<tau> [''-<'' @ over_flow @ ''>  <'' @ C n @ ''> 0 '', '' <'' @ over_flow @ ''> -<'' @ C n @ ''> 0 '']"
      using vo(4) vC [of n] tov tC [of n] by (simp add: valid_name_def scan_simps)
    show ?thesis unfolding res using 1 2 3 by (simp add: sat_concat_map)
  qed
  then show "counters_le s (snd (Add_NBit in_a in_b result over_flow n s)) \<and>
     (\<exists>\<sigma>''. agree s \<sigma>' \<sigma>'' \<and> (\<forall>\<tau>. agree (snd (Add_NBit in_a in_b result over_flow n s)) \<sigma>'' \<tau> \<longrightarrow>
        sat \<tau> (fst (Add_NBit in_a in_b result over_flow n s))))"
    using le1 ag1 unfolding res(2) by blast
qed

lemma Z_us_inj [simp]: "Z i @ CHR ''_'' # t = Z j @ CHR ''_'' # u \<longleftrightarrow> i = j \<and> t = u"
proof
  assume e: "Z i @ CHR ''_'' # t = Z j @ CHR ''_'' # u"
  have d: "\<And>x k. x \<in> set (Z k) \<Longrightarrow> is_digit x" using Z_digits by (simp add: list_all_iff)
  have "takeWhile is_digit (Z k @ CHR ''_'' # v) = Z k" for k v
    using takeWhile_append2 [of "Z k" is_digit "CHR ''_'' # v"] d [of _ k]
    by (simp add: is_digit_def less_eq_char_def)
  then have "Z i = Z j" using e by metis
  then show "i = j \<and> t = u" using e by simp
qed simp

lemma bit_bv: "bit (bv f n) j \<longleftrightarrow> j < n \<and> f j"
proof (cases "j < n")
  case True
  have "bv (bit (bv f n)) n = bv f n" by (rule bv_bit) (rule bv_less)
  then show ?thesis using True bv_inject by blast
next
  case False
  have "take_bit n (bv f n) = bv f n" by (simp add: take_bit_nat_eq_self bv_less)
  then have "bit (bv f n) j = bit (take_bit n (bv f n)) j" by simp
  then show ?thesis using False by (simp add: bit_take_bit_iff)
qed

lemma bit_val: "bit (val \<sigma> x n) i \<longleftrightarrow> i < n \<and> \<sigma> (x @ ''_'' @ Z i)"
  by (simp add: val_def bit_bv)

lemma own_vals:
  assumes "\<forall>P k c t. (P, k) \<in> set table \<and> k \<noteq> KConst \<and> tail t \<and> count k s < c \<longrightarrow>
        \<sigma> (P @ Z c @ t) = V P c t"
    and "agree s1 \<sigma> \<tau>" "(P, k) \<in> set table" "k \<noteq> KConst" "tail t" "count k s < c" "c \<le> count k s1"
  shows "\<tau> (P @ Z c @ t) = V P c t"
proof -
  have "stable s1 (P @ Z c @ t)" using assms(3,5) by (rule stable_form) (simp add: assms(7))
  then have "\<tau> (P @ Z c @ t) = \<sigma> (P @ Z c @ t)" using assms(2) by (simp add: agree_def)
  then show ?thesis using ownD [OF assms(1,3,4,5,6)] by simp
qed

lemma ext_ok_call:
  assumes "counters_le s s1" "agree s \<sigma>' \<sigma>1" "ext_ok s1 \<sigma>1 body" "g s = body s1"
  shows "counters_le s (snd (g s)) \<and>
     (\<exists>\<sigma>''. agree s \<sigma>' \<sigma>'' \<and> (\<forall>\<tau>. agree (snd (g s)) \<sigma>'' \<tau> \<longrightarrow> sat \<tau> (fst (g s))))"
proof -
  obtain \<sigma>2 where 2: "counters_le s1 (snd (body s1))" "agree s1 \<sigma>1 \<sigma>2"
    "\<And>\<tau>. agree (snd (body s1)) \<sigma>2 \<tau> \<Longrightarrow> sat \<tau> (fst (body s1))"
    using ext_okD [OF assms(3) counters_le_refl agree_refl] by blast
  have "counters_le s (snd (g s))" using assms(1) 2(1) unfolding assms(4) by (rule counters_le_trans)
  moreover have "agree s \<sigma>' \<sigma>2" using assms(2) 2(2) assms(1) by (rule agree_trans)
  ultimately show ?thesis using 2(3) unfolding assms(4) by blast
qed

lemma high_bits:
  fixes x :: nat
  assumes "x < 2 ^ (n * 2)"
  shows "(\<exists>j<n. bit x (j + n)) \<longleftrightarrow> 2 ^ n \<le> x"
proof -
  have "bv (bit x) (n + n) = bv (bit x) n + 2 ^ n * bv (\<lambda>i. bit x (i + n)) n" by (rule bv_add)
  moreover have "bv (bit x) (n + n) = x" using assms by (intro bv_bit) (simp add: mult_2_right)
  ultimately have x: "x = bv (bit x) n + 2 ^ n * bv (\<lambda>i. bit x (i + n)) n" by simp
  have lo: "bv (bit x) n < 2 ^ n" by (rule bv_less)
  have "x div 2 ^ n = bv (\<lambda>i. bit x (i + n)) n"
    using lo by (subst x) simp
  moreover have "(2 ^ n \<le> x) = (x div 2 ^ n \<noteq> 0)" by (simp add: div_eq_0_iff not_less)
  ultimately show ?thesis by (simp add: bv_eq_0_iff)
qed

lemma tail_two [simp]: "tail (CHR ''_'' # Z i @ CHR ''_'' # Z j)"
  by (simp add: tail_us)

lemma val_bits: "(\<And>j. j < w \<Longrightarrow> \<sigma> (x @ ''_'' @ Z j) = bit v j) \<Longrightarrow> v < 2 ^ w \<Longrightarrow> val \<sigma> x w = v"
proof -
  assume b: "\<And>j. j < w \<Longrightarrow> \<sigma> (x @ ''_'' @ Z j) = bit v j" and v: "v < 2 ^ w"
  have "bv (\<lambda>j. \<sigma> (x @ ''_'' @ Z j)) w = bv (bit v) w" using b by (intro bv_cong) simp
  then show ?thesis using v by (simp add: val_def bv_bit)
qed

lemma bit_shifted_product:
  fixes A :: nat
  assumes "A < 2 ^ n"
  shows "bit (A * 2 ^ i) j \<longleftrightarrow> i \<le> j \<and> j - i < n \<and> bit A (j - i)"
proof -
  have "A * 2 ^ i = push_bit i A" by (simp add: push_bit_eq_mult)
  then have "bit (A * 2 ^ i) j \<longleftrightarrow> i \<le> j \<and> bit A (j - i)" by (simp add: bit_push_bit_iff)
  moreover have "bit A k \<Longrightarrow> k < n" for k
  proof -
    assume k: "bit A k"
    have "bv (bit A) n = A" using assms by (rule bv_bit)
    moreover have "bit (bv (bit A) n) k \<longleftrightarrow> k < n \<and> bit A k" by (rule bit_bv)
    ultimately have "bit A k \<longleftrightarrow> k < n \<and> bit A k" by (simp only:)
    with k show "k < n" by blast
  qed
  ultimately show ?thesis by blast
qed

lemma Mul_NBit_ext:
  assumes st: "stable st in_a" "stable st in_b" "stable st result" "stable st over_flow"
    and R: "val \<sigma> result n = (val \<sigma> in_a n * val \<sigma> in_b n) mod 2 ^ n"
      "\<sigma> over_flow \<longleftrightarrow> 2 ^ n \<le> val \<sigma> in_a n * val \<sigma> in_b n"
  shows "ext_ok st \<sigma> (Mul_NBit in_a in_b result over_flow n)"
proof (rule ext_okI)
  fix s \<sigma>' assume le: "counters_le st s" and ag: "agree st \<sigma> \<sigma>'"
  define cc where "cc = mul_nbit_calls s + 1"
  define s1 where "s1 = s\<lparr>mul_nbit_calls := cc\<rparr>"
  define A1 where "A1 i = ''Mul_NBit_Accum1_'' @ Z cc @ ''_'' @ Z i" for i
  define A2 where "A2 i = ''Mul_NBit_Accum2_'' @ Z cc @ ''_'' @ Z i" for i
  define CO where "CO i = ''Mul_NBit_CarryOut_'' @ Z cc @ ''_'' @ Z i" for i
  define b where "b = (\<lambda>i. \<sigma>' (in_b @ ''_'' @ Z i))"
  define A where "A = val \<sigma>' in_a n"
  define B where "B = val \<sigma>' in_b n"
  define p where "p = (\<lambda>i. if b i then A * 2 ^ i else 0)"
  define acc where "acc = (\<lambda>i. A * bv b i)"
  have sts: "stable s in_a" "stable s in_b" "stable s result" "stable s over_flow"
    using st le stable_mono by blast+
  have le1: "counters_le s s1"
    by (rule counters_leI) (simp_all add: s1_def cc_def)
  have sts1: "stable s1 in_a" "stable s1 in_b" "stable s1 result" "stable s1 over_flow"
    using sts le1 stable_mono by blast+
  have vo: "valid_name in_a" "valid_name in_b" "valid_name result" "valid_name over_flow"
    using sts stable_valid by blast+
  have Bv: "B = bv b n" by (simp add: B_def b_def val_def)
  have Alt: "A < 2 ^ n" unfolding A_def by (rule val_less)
  have R': "val \<sigma>' result n = (A * B) mod 2 ^ n" "\<sigma>' over_flow \<longleftrightarrow> 2 ^ n \<le> A * B"
    using R agree_val [OF ag st(1), of n] agree_val [OF ag st(2), of n] agree_val [OF ag st(3), of n]
      agree_bit [OF ag st(4)]
    by (simp_all add: A_def B_def)
  have w: "(2::nat) ^ (n * 2) = 2 ^ n * 2 ^ n"
    by (simp add: power_add [symmetric] mult_2_right)
  have acc_lt: "acc i < 2 ^ (n * 2)" if "i \<le> n" for i
  proof -
    have "bv b i < 2 ^ i" by (rule bv_less)
    also have "\<dots> \<le> 2 ^ n" using that by (intro power_increasing) simp_all
    finally have "A * bv b i < 2 ^ n * 2 ^ n" using Alt by (intro mult_strict_mono) simp_all
    then show ?thesis by (simp add: acc_def w)
  qed
  have p_lt: "p i < 2 ^ (n * 2)" if "i < n" for i
  proof -
    have "(2::nat) ^ i \<le> 2 ^ n" using that by (intro power_increasing) simp_all
    then have "A * 2 ^ i < 2 ^ n * 2 ^ n" using Alt by (intro mult_less_le_imp_less) simp_all
    then show ?thesis by (simp add: p_def w)
  qed
  have step: "p i + acc i = acc (Suc i)" for i
    by (simp add: p_def acc_def algebra_simps)
  define V where "V = (\<lambda>P (c::nat) t.
      if P = ''Mul_NBit_Accum1_'' then (\<exists>i j. t = ''_'' @ Z i @ ''_'' @ Z j \<and> bit (p i) j)
      else if P = ''Mul_NBit_Accum2_'' then (\<exists>i j. t = ''_'' @ Z i @ ''_'' @ Z j \<and> bit (acc i) j)
      else False)"
  obtain \<sigma>1 where own: "\<forall>P k c' t. (P, k) \<in> set table \<and> k \<noteq> KConst \<and> tail t \<and> count k s < c' \<longrightarrow>
        \<sigma>1 (P @ Z c' @ t) = V P c' t"
    and ag1: "agree s \<sigma>' \<sigma>1"
    using future_assign [of s V \<sigma>'] by blast
  have vals: "\<tau> (A1 i @ ''_'' @ Z j) = bit (p i) j" "\<tau> (A2 i @ ''_'' @ Z j) = bit (acc i) j"
    "\<not> \<tau> (CO i)" "stable s x \<Longrightarrow> \<tau> x = \<sigma>' x"
    if t: "agree s1 \<sigma>1 \<tau>" for \<tau> i j x
  proof -
    have "\<tau> (''Mul_NBit_Accum1_'' @ Z cc @ (''_'' @ Z i @ ''_'' @ Z j)) =
        V ''Mul_NBit_Accum1_'' cc (''_'' @ Z i @ ''_'' @ Z j)"
      by (rule own_vals [OF own t table_mem(2)]) (simp_all add: cc_def s1_def)
    then show "\<tau> (A1 i @ ''_'' @ Z j) = bit (p i) j" by (simp add: A1_def V_def)
    have "\<tau> (''Mul_NBit_Accum2_'' @ Z cc @ (''_'' @ Z i @ ''_'' @ Z j)) =
        V ''Mul_NBit_Accum2_'' cc (''_'' @ Z i @ ''_'' @ Z j)"
      by (rule own_vals [OF own t table_mem(3)]) (simp_all add: cc_def s1_def)
    then show "\<tau> (A2 i @ ''_'' @ Z j) = bit (acc i) j" by (simp add: A2_def V_def)
    have "\<tau> (''Mul_NBit_CarryOut_'' @ Z cc @ (''_'' @ Z i)) =
        V ''Mul_NBit_CarryOut_'' cc (''_'' @ Z i)"
      by (rule own_vals [OF own t table_mem(4)]) (simp_all add: cc_def s1_def)
    then show "\<not> \<tau> (CO i)" by (simp add: CO_def V_def)
    show "\<tau> x = \<sigma>' x" if "stable s x"
      using agree_bit [OF agree_trans [OF ag1 t le1] that] .
  qed
  have stA: "stable s1 (A1 i)" "stable s1 (A2 i)" "stable s1 (CO i)" for i
    unfolding A1_def A2_def CO_def
    by (rule stable_form [OF table_mem(2)] stable_form [OF table_mem(3)] stable_form [OF table_mem(4)];
        simp add: s1_def)+
  have vA: "valid_name (A1 i)" "valid_name (A2 i)" "valid_name (CO i)" for i
    using stA stable_valid by blast+
  define c1 where "c1 =
     concat (map (\<lambda>i. Mul_NBit_1Bit_Shift in_a (in_b @ ''_'' @ Z i) (A1 i) i n) [0..<n]) @
     map (\<lambda>i. ''-<'' @ (A2 0 @ ''_'' @ Z i) @ ''> 0 '') [0..<n * 2]"
  define c2 where "c2 =
     concat (map (\<lambda>i.
            [''-<'' @ (result @ ''_'' @ Z i) @ ''>  <'' @ (A2 n @ ''_'' @ Z i) @ ''> 0 '',
             '' <'' @ (result @ ''_'' @ Z i) @ ''> -<'' @ (A2 n @ ''_'' @ Z i) @ ''> 0 '']) [0..<n]) @
     [''-<'' @ over_flow @ ''> '' @
            concat (map (\<lambda>i. '' <'' @ (A2 n @ ''_'' @ Z (i + n)) @ ''> '') [0..<n]) @ '' 0 ''] @
     map (\<lambda>i. ''<'' @ over_flow @ ''>  -<'' @ (A2 n @ ''_'' @ Z (i + n)) @ ''> 0 '') [0..<n]"
  have res: "Mul_NBit in_a in_b result over_flow n s =
      seq (emit c1) (seq (for_upto (\<lambda>i. Add_NBit (A1 i) (A2 i) (A2 (i + 1)) (CO i) (n * 2)) n) (emit c2)) s1"
    by (simp add: Mul_NBit_def Let_def split_beta seq_def emit_def c1_def c2_def A1_def A2_def CO_def
        cc_def s1_def)
  have e1: "sat \<tau> c1" if t: "agree s1 \<sigma>1 \<tau>" for \<tau>
  proof -
    note tv = vals [OF t]
    have "sat \<tau> (Mul_NBit_1Bit_Shift in_a (in_b @ ''_'' @ Z i) (A1 i) i n)" if i: "i < n" for i
    proof -
      have ta: "\<tau> (in_a @ ''_'' @ Z j) = bit A j" if "j < n" for j
        using tv(4) [of "in_a @ ''_'' @ Z j"] sts(1) that by (simp add: A_def bit_val)
      have tb: "\<tau> (in_b @ ''_'' @ Z i) = b i"
        using tv(4) [of "in_b @ ''_'' @ Z i"] sts(2) by (simp add: b_def)
      have pb: "bit (p i) j \<longleftrightarrow> b i \<and> i \<le> j \<and> j - i < n \<and> bit A (j - i)" for j
        using bit_shifted_product [OF Alt, of i j] by (simp add: p_def)
      have iff: "sat \<tau> (Mul_NBit_1Bit_Shift in_a (in_b @ ''_'' @ Z i) (A1 i) i n) \<longleftrightarrow>
          (\<forall>j<i. \<not> \<tau> (A1 i @ ''_'' @ Z j)) \<and>
          (\<forall>j<n. \<tau> (A1 i @ ''_'' @ Z (j + i)) = (\<tau> (in_a @ ''_'' @ Z j) \<and> \<tau> (in_b @ ''_'' @ Z i))) \<and>
          (\<forall>j. i + n \<le> j \<and> j < n * 2 \<longrightarrow> \<not> \<tau> (A1 i @ ''_'' @ Z j))"
        by (rule sat_Mul_NBit_1Bit_Shift) (use vo vA in simp_all)
      have "\<not> bit (p i) j" if "j < i" for j using pb that by simp
      moreover have "bit (p i) (j + i) = (bit A j \<and> b i)" if "j < n" for j using pb that by auto
      moreover have "\<not> bit (p i) j" if "i + n \<le> j" for j using pb that by auto
      ultimately show ?thesis unfolding iff using ta tb tv(1) by simp
    qed
    moreover have "sat_clause \<tau> (''-<'' @ (A2 0 @ ''_'' @ Z i) @ ''> 0 '')" for i
      using sat_unit_neg [OF valid_name_bit [OF vA(2)], of \<tau> 0 i] tv(2) [of 0 i]
      by (simp add: acc_def)
    ultimately show ?thesis by (simp add: c1_def sat_concat_map sat_map)
  qed
  have e2: "sat \<tau> c2" if t: "agree s1 \<sigma>1 \<tau>" for \<tau>
  proof -
    note tv = vals [OF t]
    have accn: "acc n = A * B" by (simp add: acc_def Bv)
    have tr: "\<tau> (result @ ''_'' @ Z i) = bit (A * B) i" if "i < n" for i
    proof -
      have "\<tau> (result @ ''_'' @ Z i) = bit (val \<sigma>' result n) i"
        using tv(4) [of "result @ ''_'' @ Z i"] sts(3) that by (simp add: bit_val)
      also have "\<dots> = bit (take_bit n (A * B)) i" using R'(1) by (simp add: take_bit_eq_mod)
      finally show ?thesis using that by (simp add: bit_take_bit_iff)
    qed
    have tov: "\<tau> over_flow \<longleftrightarrow> (\<exists>j<n. bit (A * B) (j + n))"
      using tv(4) [OF sts(4)] R'(2) high_bits [of "A * B" n] acc_lt [of n] accn by simp
    have 1: "sat \<tau> [''-<'' @ (result @ ''_'' @ Z i) @ ''>  <'' @ (A2 n @ ''_'' @ Z i) @ ''> 0 '',
             '' <'' @ (result @ ''_'' @ Z i) @ ''> -<'' @ (A2 n @ ''_'' @ Z i) @ ''> 0 '']" if "i < n" for i
      using sat_iff_pair [of "result @ ''_'' @ Z i" "A2 n @ ''_'' @ Z i" \<tau>] vo(3) vA(2) [of n]
        tr [OF that] tv(2) [of n i] accn
      by simp
    have vv: "valid_name (A2 n @ ''_'' @ Z (i + n))" for i using vA(2) by simp
    have 2: "sat_clause \<tau> (''-<'' @ over_flow @ ''> '' @
            concat (map (\<lambda>i. '' <'' @ (A2 n @ ''_'' @ Z (i + n)) @ ''> '') [0..<n]) @ '' 0 '')"
      using sat_clause_big [of over_flow "\<lambda>i. A2 n @ ''_'' @ Z (i + n)" \<tau> "[0..<n]", OF vo(4) vv]
        tov tv(2) [of n] accn
      by auto
    have 3: "sat_clause \<tau> (''<'' @ over_flow @ ''>  -<'' @ (A2 n @ ''_'' @ Z (i + n)) @ ''> 0 '')"
      if "i < n" for i
    proof -
      have "\<tau> over_flow \<or> \<not> \<tau> (A2 n @ ''_'' @ Z (i + n))"
        using tov tv(2) [of n "i + n"] accn that by auto
      then show ?thesis
        using vo(4) vv [of i] by (simp add: valid_name_def scan_simps)
    qed
    show ?thesis unfolding c2_def using 1 2 3 by (simp add: sat_concat_map sat_map)
  qed
  have loop: "ext_ok s1 \<sigma>1 (Add_NBit (A1 i) (A2 i) (A2 (i + 1)) (CO i) (n * 2))" if i: "i < n" for i
  proof (rule Add_NBit_ext [OF stA(1) stA(2) stA(2) stA(3)])
    note tv = vals [OF agree_refl]
    have "val \<sigma>1 (A1 i) (n * 2) = p i" using tv(1) p_lt [OF i] by (intro val_bits) simp_all
    moreover have "val \<sigma>1 (A2 i) (n * 2) = acc i" using tv(2) acc_lt [of i] i by (intro val_bits) simp_all
    moreover have "val \<sigma>1 (A2 (i + 1)) (n * 2) = acc (i + 1)"
      using tv(2) acc_lt [of "i + 1"] i by (intro val_bits) simp_all
    ultimately show "val \<sigma>1 (A1 i) (n * 2) + val \<sigma>1 (A2 i) (n * 2) =
        val \<sigma>1 (A2 (i + 1)) (n * 2) + 2 ^ (n * 2) * of_bool (\<sigma>1 (CO i))"
      using step [of i] tv(3) [of i] by simp
  qed
  have "ext_ok s1 \<sigma>1 (seq (emit c1)
      (seq (for_upto (\<lambda>i. Add_NBit (A1 i) (A2 i) (A2 (i + 1)) (CO i) (n * 2)) n) (emit c2)))"
    by (intro ext_ok_seq ext_ok_emit ext_ok_for_upto e1 e2 loop)
  with le1 ag1 show "counters_le s (snd (Mul_NBit in_a in_b result over_flow n s)) \<and>
     (\<exists>\<sigma>''. agree s \<sigma>' \<sigma>'' \<and> (\<forall>\<tau>. agree (snd (Mul_NBit in_a in_b result over_flow n s)) \<sigma>'' \<tau> \<longrightarrow>
        sat \<tau> (fst (Mul_NBit in_a in_b result over_flow n s))))"
    using res by (rule ext_ok_call)
qed

lemma LessThan_NBit_ext:
  assumes st: "stable st in_a" "stable st in_b"
    and R: "val \<sigma> in_a n < val \<sigma> in_b n"
  shows "ext_ok st \<sigma> (LessThan_NBit in_a in_b n)"
proof (rule ext_okI)
  fix s \<sigma>' assume le: "counters_le st s" and ag: "agree st \<sigma> \<sigma>'"
  define cc where "cc = lessthan_nbit_calls s + 1"
  define s1 where "s1 = s\<lparr>lessthan_nbit_calls := cc\<rparr>"
  define EQ where "EQ i = ''LessThan_NBit_Equals_'' @ Z cc @ ''_'' @ Z i" for i
  define LT where "LT i = ''LessThan_NBit_Less_'' @ Z cc @ ''_'' @ Z i" for i
  define EA where "EA i = ''LessThan_NBit_EqualAccum_'' @ Z cc @ ''_'' @ Z i" for i
  define RS where "RS i = ''LessThan_NBit_Result_'' @ Z cc @ ''_'' @ Z i" for i
  define a where "a = (\<lambda>i. \<sigma>' (in_a @ ''_'' @ Z i))"
  define b where "b = (\<lambda>i. \<sigma>' (in_b @ ''_'' @ Z i))"
  define ea where "ea = (\<lambda>i. \<forall>j. i \<le> j \<and> j < n \<longrightarrow> a j = b j)"
  have sts: "stable s in_a" "stable s in_b"
    using st le stable_mono by blast+
  have le1: "counters_le s s1"
    by (rule counters_leI) (simp_all add: s1_def cc_def)
  have vo: "valid_name in_a" "valid_name in_b"
    using sts stable_valid by blast+
  have R': "bv a n < bv b n"
    using R agree_val [OF ag st(1), of n] agree_val [OF ag st(2), of n]
    by (simp add: val_def a_def b_def)
  define V where "V = (\<lambda>P (c::nat) t.
      if P = ''LessThan_NBit_Equals_'' then (\<exists>i. t = ''_'' @ Z i \<and> a i = b i)
      else if P = ''LessThan_NBit_Less_'' then (\<exists>i. t = ''_'' @ Z i \<and> \<not> a i \<and> b i)
      else if P = ''LessThan_NBit_EqualAccum_'' then (\<exists>i. t = ''_'' @ Z i \<and> ea i)
      else (\<exists>i. t = ''_'' @ Z i \<and> ea (Suc i) \<and> \<not> a i \<and> b i))"
  obtain \<sigma>1 where own: "\<forall>P k c' t. (P, k) \<in> set table \<and> k \<noteq> KConst \<and> tail t \<and> count k s < c' \<longrightarrow>
        \<sigma>1 (P @ Z c' @ t) = V P c' t"
    and ag1: "agree s \<sigma>' \<sigma>1"
    using future_assign [of s V \<sigma>'] by blast
  have stN: "stable s1 (EQ i)" "stable s1 (LT i)" "stable s1 (EA i)" "stable s1 (RS i)" for i
    unfolding EQ_def LT_def EA_def RS_def
    by (rule stable_form [OF table_mem(5)] stable_form [OF table_mem(6)] stable_form [OF table_mem(7)]
        stable_form [OF table_mem(8)]; simp add: s1_def)+
  have vn: "valid_name (EQ i)" "valid_name (LT i)" "valid_name (EA i)" "valid_name (RS i)" for i
    using stN stable_valid by blast+
  define cs where "cs =
       concat (map (\<lambda>i. Equals_1Bit (in_a @ ''_'' @ Z i) (in_b @ ''_'' @ Z i) (EQ i)) [0..<n]) @
       concat (map (\<lambda>i. LessThan_1Bit (in_a @ ''_'' @ Z i) (in_b @ ''_'' @ Z i) (LT i)) [0..<n]) @
       [''<'' @ EA n @ ''> 0 ''] @
       concat (map (\<lambda>i. And_1Bit (EA (i + 1)) (EQ i) (EA i)) [0..<n]) @
       concat (map (\<lambda>i. And_1Bit (EA (i + 1)) (LT i) (RS i)) [0..<n]) @
       [concat (map (\<lambda>i. '' <'' @ RS i @ ''> '') [0..<n]) @ '' 0 '']"
  have res: "LessThan_NBit in_a in_b n s = emit cs s1"
    by (simp add: LessThan_NBit_def Let_def emit_def cs_def EQ_def LT_def EA_def RS_def cc_def s1_def)
  have e: "sat \<tau> cs" if t: "agree s1 \<sigma>1 \<tau>" for \<tau>
  proof -
    have tEQ: "\<tau> (EQ i) = (a i = b i)" for i
    proof -
      have "\<tau> (''LessThan_NBit_Equals_'' @ Z cc @ (''_'' @ Z i)) =
          V ''LessThan_NBit_Equals_'' cc (''_'' @ Z i)"
        by (rule own_vals [OF own t table_mem(5)]) (simp_all add: cc_def s1_def)
      then show ?thesis by (simp add: EQ_def V_def)
    qed
    have tLT: "\<tau> (LT i) = (\<not> a i \<and> b i)" for i
    proof -
      have "\<tau> (''LessThan_NBit_Less_'' @ Z cc @ (''_'' @ Z i)) =
          V ''LessThan_NBit_Less_'' cc (''_'' @ Z i)"
        by (rule own_vals [OF own t table_mem(6)]) (simp_all add: cc_def s1_def)
      then show ?thesis by (simp add: LT_def V_def)
    qed
    have tEA: "\<tau> (EA i) = ea i" for i
    proof -
      have "\<tau> (''LessThan_NBit_EqualAccum_'' @ Z cc @ (''_'' @ Z i)) =
          V ''LessThan_NBit_EqualAccum_'' cc (''_'' @ Z i)"
        by (rule own_vals [OF own t table_mem(7)]) (simp_all add: cc_def s1_def)
      then show ?thesis by (simp add: EA_def V_def)
    qed
    have tRS: "\<tau> (RS i) = (ea (Suc i) \<and> \<not> a i \<and> b i)" for i
    proof -
      have "\<tau> (''LessThan_NBit_Result_'' @ Z cc @ (''_'' @ Z i)) =
          V ''LessThan_NBit_Result_'' cc (''_'' @ Z i)"
        by (rule own_vals [OF own t table_mem(8)]) (simp_all add: cc_def s1_def)
      then show ?thesis by (simp add: RS_def V_def)
    qed
    have old: "\<tau> x = \<sigma>' x" if "stable s x" for x
      using agree_bit [OF agree_trans [OF ag1 t le1] that] .
    have ta: "\<tau> (in_a @ ''_'' @ Z i) = a i" "\<tau> (in_b @ ''_'' @ Z i) = b i" for i
      using old sts by (simp_all add: a_def b_def)
    have eaS: "ea i = (ea (Suc i) \<and> a i = b i)" if i: "i < n" for i
    proof
      assume h: "ea i"
      have "a i = b i" using h i by (simp add: ea_def)
      moreover have "ea (Suc i)" using h by (simp add: ea_def)
      ultimately show "ea (Suc i) \<and> a i = b i" by simp
    next
      assume h: "ea (Suc i) \<and> a i = b i"
      have "a j = b j" if "i \<le> j \<and> j < n" for j
      proof (cases "j = i")
        case True
        then show ?thesis using h by simp
      next
        case False
        then have "Suc i \<le> j" using that by simp
        then show ?thesis using h that by (simp add: ea_def)
      qed
      then show "ea i" by (simp add: ea_def)
    qed
    have 1: "sat \<tau> (Equals_1Bit (in_a @ ''_'' @ Z i) (in_b @ ''_'' @ Z i) (EQ i))" for i
      using sat_Equals_1Bit [of "in_a @ ''_'' @ Z i" "in_b @ ''_'' @ Z i" "EQ i" \<tau>] vo vn(1) [of i]
        ta tEQ by simp
    have 2: "sat \<tau> (LessThan_1Bit (in_a @ ''_'' @ Z i) (in_b @ ''_'' @ Z i) (LT i))" for i
      using sat_LessThan_1Bit [of "in_a @ ''_'' @ Z i" "in_b @ ''_'' @ Z i" "LT i" \<tau>] vo vn(2) [of i]
        ta tLT by simp
    have "ea n" unfolding ea_def by auto
    then have 3: "sat_clause \<tau> (''<'' @ EA n @ ''> 0 '')"
      using sat_unit_pos [of "EA n" \<tau>] vn(3) [of n] tEA [of n] by simp
    have 4: "sat \<tau> (And_1Bit (EA (i + 1)) (EQ i) (EA i))" if "i < n" for i
      using sat_And_1Bit [of "EA (i + 1)" "EQ i" "EA i" \<tau>] vn tEA tEQ eaS [OF that] by simp
    have 5: "sat \<tau> (And_1Bit (EA (i + 1)) (LT i) (RS i))" for i
      using sat_And_1Bit [of "EA (i + 1)" "LT i" "RS i" \<tau>] vn tEA tLT tRS by simp
    obtain i where i: "i < n" "\<not> a i" "b i" "\<forall>j. i < j \<and> j < n \<longrightarrow> a j = b j"
      using R' unfolding bv_less_iff by blast
    then have "\<tau> (RS i)" using tRS by (simp add: ea_def Suc_le_eq)
    then have 6: "sat_clause \<tau> (concat (map (\<lambda>i. '' <'' @ RS i @ ''> '') [0..<n]) @ '' 0 '')"
      using sat_clause_or [of RS \<tau> "[0..<n]"] vn(4) i(1) by auto
    show ?thesis unfolding cs_def using 1 2 3 4 5 6 by (simp add: sat_concat_map)
  qed
  have "ext_ok s1 \<sigma>1 (emit cs)" by (rule ext_ok_emit) (rule e)
  with le1 ag1 show "counters_le s (snd (LessThan_NBit in_a in_b n s)) \<and>
     (\<exists>\<sigma>''. agree s \<sigma>' \<sigma>'' \<and> (\<forall>\<tau>. agree (snd (LessThan_NBit in_a in_b n s)) \<sigma>'' \<tau> \<longrightarrow>
        sat \<tau> (fst (LessThan_NBit in_a in_b n s))))"
    using res by (rule ext_ok_call)
qed

lemma DivMod_NBit_ext:
  assumes st: "stable st in_a" "stable st in_b" "stable st div_name" "stable st mod_name"
    and R: "val \<sigma> div_name n = val \<sigma> in_a n div val \<sigma> in_b n"
      "val \<sigma> mod_name n = val \<sigma> in_a n mod val \<sigma> in_b n" "0 < val \<sigma> in_b n"
  shows "ext_ok st \<sigma> (DivMod_NBit in_a in_b div_name mod_name n)"
proof (rule ext_okI)
  fix s \<sigma>' assume le: "counters_le st s" and ag: "agree st \<sigma> \<sigma>'"
  define cc where "cc = divmod_nbit_calls s + 1"
  define s1 where "s1 = s\<lparr>divmod_nbit_calls := cc\<rparr>"
  define AC where "AC = ''DivMod_NBit_Accum_'' @ Z cc"
  define MO where "MO = ''DivMode_NBit_MulOverflow_'' @ Z cc"
  define AO where "AO = ''DivMode_NBit_AddOverflow_'' @ Z cc"
  define A where "A = val \<sigma>' in_a n"
  define B where "B = val \<sigma>' in_b n"
  have sts: "stable s in_a" "stable s in_b" "stable s div_name" "stable s mod_name"
    using st le stable_mono by blast+
  have le1: "counters_le s s1"
    by (rule counters_leI) (simp_all add: s1_def cc_def)
  have sts1: "stable s1 in_a" "stable s1 in_b" "stable s1 div_name" "stable s1 mod_name"
    using sts le1 stable_mono by blast+
  have R': "val \<sigma>' div_name n = A div B" "val \<sigma>' mod_name n = A mod B" "0 < B"
    using R agree_val [OF ag st(1), of n] agree_val [OF ag st(2), of n] agree_val [OF ag st(3), of n]
      agree_val [OF ag st(4), of n]
    by (simp_all add: A_def B_def)
  have Alt: "A < 2 ^ n" unfolding A_def by (rule val_less)
  define V where "V = (\<lambda>P (c::nat) t.
      if P = ''DivMod_NBit_Accum_'' then (\<exists>j. t = ''_'' @ Z j \<and> bit (B * (A div B)) j) else False)"
  obtain \<sigma>1 where own: "\<forall>P k c' t. (P, k) \<in> set table \<and> k \<noteq> KConst \<and> tail t \<and> count k s < c' \<longrightarrow>
        \<sigma>1 (P @ Z c' @ t) = V P c' t"
    and ag1: "agree s \<sigma>' \<sigma>1"
    using future_assign [of s V \<sigma>'] by blast
  have vals: "\<tau> (AC @ ''_'' @ Z j) = bit (B * (A div B)) j" "\<not> \<tau> MO" "\<not> \<tau> AO"
    "stable s x \<Longrightarrow> \<tau> x = \<sigma>' x"
    if t: "agree s1 \<sigma>1 \<tau>" for \<tau> j x
  proof -
    have "\<tau> (''DivMod_NBit_Accum_'' @ Z cc @ (''_'' @ Z j)) =
        V ''DivMod_NBit_Accum_'' cc (''_'' @ Z j)"
      by (rule own_vals [OF own t table_mem(9)]) (simp_all add: cc_def s1_def)
    then show "\<tau> (AC @ ''_'' @ Z j) = bit (B * (A div B)) j" by (simp add: AC_def V_def)
    have "\<tau> (''DivMode_NBit_MulOverflow_'' @ Z cc @ []) = V ''DivMode_NBit_MulOverflow_'' cc []"
      by (rule own_vals [OF own t table_mem(10)]) (simp_all add: cc_def s1_def)
    then show "\<not> \<tau> MO" by (simp add: MO_def V_def)
    have "\<tau> (''DivMode_NBit_AddOverflow_'' @ Z cc @ []) = V ''DivMode_NBit_AddOverflow_'' cc []"
      by (rule own_vals [OF own t table_mem(11)]) (simp_all add: cc_def s1_def)
    then show "\<not> \<tau> AO" by (simp add: AO_def V_def)
    show "\<tau> x = \<sigma>' x" if "stable s x"
      using agree_bit [OF agree_trans [OF ag1 t le1] that] .
  qed
  have stN: "stable s1 AC" "stable s1 MO" "stable s1 AO"
    unfolding AC_def MO_def AO_def
    using stable_form [OF table_mem(9), of "[]" cc s1] stable_form [OF table_mem(10), of "[]" cc s1]
      stable_form [OF table_mem(11), of "[]" cc s1]
    by (simp_all add: s1_def)
  have vn: "valid_name AC" "valid_name MO" "valid_name AO"
    using stN stable_valid by blast+
  have q: "B * (A div B) \<le> A" by simp
  then have qlt: "B * (A div B) < 2 ^ n" using Alt by linarith
  note tv = vals [OF agree_refl]
  have v1: "val \<sigma>1 AC n = B * (A div B)" using tv(1) qlt by (intro val_bits) simp_all
  have v2: "val \<sigma>1 in_a n = A" "val \<sigma>1 in_b n = B" "val \<sigma>1 div_name n = A div B"
    "val \<sigma>1 mod_name n = A mod B"
    using agree_val [OF ag1 sts(1), of n] agree_val [OF ag1 sts(2), of n]
      agree_val [OF ag1 sts(3), of n] agree_val [OF ag1 sts(4), of n] R'
    by (simp_all add: A_def B_def)
  have m: "ext_ok s1 \<sigma>1 (Mul_NBit in_b div_name AC MO n)"
    using sts1(2) sts1(3) stN(1) stN(2)
  proof (rule Mul_NBit_ext)
    show "val \<sigma>1 AC n = val \<sigma>1 in_b n * val \<sigma>1 div_name n mod 2 ^ n"
      using v1 v2 qlt by simp
    show "\<sigma>1 MO = (2 ^ n \<le> val \<sigma>1 in_b n * val \<sigma>1 div_name n)"
      using tv(2) v2 qlt by simp
  qed
  have a: "ext_ok s1 \<sigma>1 (Add_NBit AC mod_name in_a AO n)"
    using stN(1) sts1(4) sts1(1) stN(3)
  proof (rule Add_NBit_ext)
    show "val \<sigma>1 AC n + val \<sigma>1 mod_name n = val \<sigma>1 in_a n + 2 ^ n * of_bool (\<sigma>1 AO)"
      using v1 v2 tv(3) by simp
  qed
  have l: "ext_ok s1 \<sigma>1 (LessThan_NBit mod_name in_b n)"
    using sts1(4) sts1(2)
  proof (rule LessThan_NBit_ext)
    show "val \<sigma>1 mod_name n < val \<sigma>1 in_b n" using v2 R'(3) by simp
  qed
  have u: "sat \<tau> [''-<'' @ MO @ ''> 0 '', ''-<'' @ AO @ ''> 0 '']" if t: "agree s1 \<sigma>1 \<tau>" for \<tau>
    using vals(2,3) [OF t] sat_unit_neg [OF vn(2), of \<tau>] sat_unit_neg [OF vn(3), of \<tau>] by simp
  have res: "DivMod_NBit in_a in_b div_name mod_name n s =
      seq (Mul_NBit in_b div_name AC MO n) (seq (Add_NBit AC mod_name in_a AO n)
        (seq (emit [''-<'' @ MO @ ''> 0 '', ''-<'' @ AO @ ''> 0 '']) (LessThan_NBit mod_name in_b n))) s1"
    by (simp add: DivMod_NBit_def Let_def split_beta seq_def emit_def AC_def MO_def AO_def cc_def s1_def)
  have "ext_ok s1 \<sigma>1 (seq (Mul_NBit in_b div_name AC MO n) (seq (Add_NBit AC mod_name in_a AO n)
        (seq (emit [''-<'' @ MO @ ''> 0 '', ''-<'' @ AO @ ''> 0 '']) (LessThan_NBit mod_name in_b n))))"
    by (intro ext_ok_seq ext_ok_emit m a l u)
  with le1 ag1 show "counters_le s (snd (DivMod_NBit in_a in_b div_name mod_name n s)) \<and>
     (\<exists>\<sigma>''. agree s \<sigma>' \<sigma>'' \<and> (\<forall>\<tau>. agree (snd (DivMod_NBit in_a in_b div_name mod_name n s)) \<sigma>'' \<tau> \<longrightarrow>
        sat \<tau> (fst (DivMod_NBit in_a in_b div_name mod_name n s))))"
    using res by (rule ext_ok_call)
qed


section \<open>Widths above 16 bits\<close>

lemma pinned_value_1_34: "pinned_value 1 34 = 4294967297"
proof -
  have "bv (shifted_bit 1) (32 + 2) = bv (shifted_bit 1) 32 + 2 ^ 32 * bv (\<lambda>i. shifted_bit 1 (i + 32)) 2"
    by (rule bv_add)
  moreover have "bv (shifted_bit 1) 32 = 1"
    using pinned_value_low [of 1 32] by (simp add: pinned_value_def)
  moreover have "bv (\<lambda>i. shifted_bit 1 (i + 32)) 2 = 1"
    by (simp add: numeral_2_eq_2 shifted_bit_def)
  ultimately show ?thesis by (simp add: pinned_value_def)
qed

lemma fourth_power_mod_5: "(4294967297 * g ^ 4) mod 5 \<noteq> (1::nat)"
proof -
  have a: "(4294967297 * g ^ 4) mod 5 = ((4294967297 mod 5) * (g ^ 4 mod 5)) mod (5::nat)"
    by (simp only: mod_mult_eq)
  have b: "g ^ 4 mod 5 = (g mod 5) ^ 4 mod 5"
    by (simp only: power_mod)
  have "g mod 5 < 5" by simp
  then have "g mod 5 = 0 \<or> g mod 5 = 1 \<or> g mod 5 = 2 \<or> g mod 5 = 3 \<or> g mod 5 = 4" by arith
  then have "g ^ 4 mod 5 = 0 \<or> g ^ 4 mod 5 = 1"
    unfolding b by (elim disjE) simp_all
  then show ?thesis unfolding a by (elim disjE) simp_all
qed

lemma FermatTest_value:
  assumes v: "valid_name generator" "valid_name pow" "valid_name mod_name"
    and s: "sat \<sigma> (fst (FermatTest generator pow mod_name n st))"
    and one: "val \<sigma> (''One_NBit_'' @ Z (n * 2)) (n * 2) = 1"
    and m: "2 \<le> val \<sigma> mod_name n"
    and w: "n \<le> 32"
    and ok: "n * 2 \<le> 32 \<or> \<not> \<sigma> (pow @ ''_'' @ Z 0)"
  shows "(pinned_value 1 (n * 2) * val \<sigma> generator n ^ val \<sigma> pow n) mod val \<sigma> mod_name n = 1"
proof -
  define R where "R = ''FermatTest_'' @ Z (fermat_calls st + 1)"
  have vr: "valid_name R" by (simp add: R_def valid_name_def scan_simps)
  have n: "0 < n" using m val_less [of \<sigma> mod_name n] by (cases n) simp_all
  have a3: "sat \<sigma> (fst (PowMod_NBit generator pow mod_name R n (st\<lparr>fermat_calls := fermat_calls st + 1\<rparr>)))"
    and a4: "sat \<sigma> (Input_Equals_Number R 1 n)"
    using s by (simp_all add: FermatTest_def Let_def split_beta R_def)
  have "val \<sigma> R n = 1" using val_Input_Equals_Number [OF vr _ a4 w] n by simp
  then show ?thesis
    using PowMod_NBit_value [OF v vr a3 one m ok] by simp
qed

lemma FermatTest2_value:
  assumes v: "valid_name generator" "valid_name prime"
    and s: "sat \<sigma> (fst (FermatTest2 generator prime n st))"
    and one: "val \<sigma> (''One_NBit_'' @ Z n) n = 1"
    and one2: "val \<sigma> (''One_NBit_'' @ Z (n * 2)) (n * 2) = 1"
    and m: "2 \<le> val \<sigma> prime n"
    and w: "n \<le> 32"
    and ok: "n * 2 \<le> 32 \<or> odd (val \<sigma> prime n)"
  shows "(pinned_value 1 (n * 2) * val \<sigma> generator n ^ (val \<sigma> prime n - 1)) mod val \<sigma> prime n = 1"
proof -
  define cc where "cc = fermat2_calls st + 1"
  define M where "M = ''FermatTest2_Prime_Minus1_'' @ Z cc"
  define OV where "OV = ''FermatTest2_Prime_Minus1_Overflow_'' @ Z cc"
  define ONE where "ONE = ''One_NBit_'' @ Z n"
  define st0 where "st0 = st\<lparr>fermat2_calls := cc\<rparr>"
  define st1 where "st1 = snd (Add_NBit M ONE prime OV n st0)"
  have vn: "valid_name M" "valid_name OV" "valid_name ONE"
    by (simp_all add: M_def OV_def ONE_def valid_name_def scan_simps)
  have a1: "sat \<sigma> (fst (Add_NBit M ONE prime OV n st0))"
    using s by (simp add: FermatTest2_def Let_def split_beta cc_def M_def OV_def ONE_def st0_def)
  have a2: "sat_clause \<sigma> (''-<'' @ OV @ ''> 0 '')"
    using s by (simp add: FermatTest2_def Let_def split_beta cc_def M_def OV_def ONE_def st0_def)
  have a3: "sat \<sigma> (fst (FermatTest generator M prime n st1))"
    using s by (simp add: FermatTest2_def Let_def split_beta cc_def M_def OV_def ONE_def st0_def st1_def)
  have "\<not> \<sigma> OV" using a2 sat_unit_neg [OF vn(2)] by simp
  then have "val \<sigma> M n + 1 = val \<sigma> prime n"
    using Add_NBit_sound [OF vn(1) vn(3) v(2) vn(2) a1] one by (simp add: ONE_def)
  then have mv: "val \<sigma> M n = val \<sigma> prime n - 1" by simp
  have "n * 2 \<le> 32 \<or> \<not> \<sigma> (M @ ''_'' @ Z 0)"
  proof (cases "n * 2 \<le> 32")
    case False
    then have "odd (val \<sigma> prime n)" using ok by simp
    then have "even (val \<sigma> M n)" using mv m by simp
    then have "\<not> bit (val \<sigma> M n) 0" by (simp add: bit_0)
    then show ?thesis using False by (simp add: bit_val)
  qed simp
  then show ?thesis
    using FermatTest_value [OF v(1) vn(1) v(2) a3 one2 m w] mv by simp
qed

lemma IsPrime_full_test_value:
  assumes s: "sat \<sigma> (fst (IsPrime_full_test cc n i st))" and n: "2 \<le> n"
    and one: "val \<sigma> (''One_NBit_'' @ Z n) n = 1"
    and one2: "val \<sigma> (''One_NBit_'' @ Z (n * 2)) (n * 2) = 1"
    and p: "2 \<le> val \<sigma> (''IsPrime_Prime_'' @ Z cc @ ''_'' @ Z i) n"
    and w: "n \<le> 32"
    and ok: "n * 2 \<le> 32 \<or> odd (val \<sigma> (''IsPrime_Prime_'' @ Z cc @ ''_'' @ Z i) n)"
  shows "val \<sigma> (''IsPrime_Prime_'' @ Z cc @ ''_'' @ Z i) n = 2 \<or>
         val \<sigma> (''IsPrime_Prime_'' @ Z cc @ ''_'' @ Z i) n = 3 \<or>
         (pinned_value 1 (n * 2) * val \<sigma> (''IsPrime_Generator_'' @ Z cc @ ''_'' @ Z i) n ^
          (val \<sigma> (''IsPrime_Prime_'' @ Z cc @ ''_'' @ Z i) n - 1)) mod
         val \<sigma> (''IsPrime_Prime_'' @ Z cc @ ''_'' @ Z i) n = 1"
proof -
  define PR where "PR = ''IsPrime_Prime_'' @ Z cc @ ''_'' @ Z i"
  define GN where "GN = ''IsPrime_Generator_'' @ Z cc @ ''_'' @ Z i"
  have vn: "valid_name PR" "valid_name GN"
    by (simp_all add: PR_def GN_def valid_name_def scan_simps)
  define s1 where "s1 = snd (FermatTest2 GN PR n st)"
  define fermat where "fermat = fst (FermatTest2 GN PR n st)"
  define s2 where "s2 = snd (Or_Condition (Input_Equals_Number PR 2 n) (Input_Equals_Number PR 3 n) s1)"
  define inner where "inner = fst (Or_Condition (Input_Equals_Number PR 2 n) (Input_Equals_Number PR 3 n) s1)"
  have "fst (IsPrime_full_test cc n i st) = fst (Or_Condition fermat inner s2)"
    by (simp add: IsPrime_full_test_def Let_def split_beta
        PR_def GN_def s1_def s2_def fermat_def inner_def)
  then have "sat \<sigma> fermat \<or> sat \<sigma> inner"
    using s Or_Condition_sound [of \<sigma> fermat inner s2] by simp
  then consider "sat \<sigma> fermat"
    | "sat \<sigma> (Input_Equals_Number PR 2 n) \<or> sat \<sigma> (Input_Equals_Number PR 3 n)"
    unfolding inner_def using Or_Condition_sound by blast
  then have "val \<sigma> PR n = 2 \<or> val \<sigma> PR n = 3 \<or>
         (pinned_value 1 (n * 2) * val \<sigma> GN n ^ (val \<sigma> PR n - 1)) mod val \<sigma> PR n = 1"
  proof cases
    case 1
    have "2 \<le> val \<sigma> PR n" "n * 2 \<le> 32 \<or> odd (val \<sigma> PR n)" using p ok by (simp_all add: PR_def)
    then show ?thesis
      using FermatTest2_value [OF vn(2) vn(1) _ one one2 _ w, of st] 1 unfolding fermat_def by blast
  next
    case 2
    then show ?thesis using two_or_three [OF vn(1) n _ w] by blast
  qed
  then show ?thesis by (simp add: PR_def GN_def)
qed

lemma IsPrime_first_slot:
  assumes s: "sat \<sigma> (fst (IsPrime target n (int k) st))"
    and vt: "valid_name target" and k: "0 < k"
  shows "val \<sigma> target n = val \<sigma> (''IsPrime_Prime_'' @ Z (isprime_calls st + 1) @ ''_'' @ Z 0) n \<and>
    (\<exists>s. sat \<sigma> (fst (IsPrime_full_test (isprime_calls st + 1) n 0 s)))"
proof -
  define cc where "cc = isprime_calls st + 1"
  define PR where "PR i = ''IsPrime_Prime_'' @ Z cc @ ''_'' @ Z i" for i
  have vn: "valid_name (PR i)" for i
    by (simp add: PR_def valid_name_def scan_simps)
  have np: "(if int k = - 1 then n else nat (int k)) = k" by simp
  note unf = IsPrime_def Let_def split_beta np cc_def PR_def
  have b14: "\<exists>s. sat \<sigma> (fst (for_upto (IsPrime_full_test cc n) k s))"
    using s by (simp add: unf) blast
  have b15: "sat \<sigma> (Equals_NBit target (PR 0) n)"
    using s by (simp add: unf)
  have "\<exists>s. sat \<sigma> (fst (IsPrime_full_test cc n 0 s))"
    using b14 sat_for_upto [where body = "IsPrime_full_test cc n", OF _ k] by blast
  moreover have "val \<sigma> target n = val \<sigma> (PR 0) n"
    using vt vn b15 by (rule val_Equals_NBit)
  ultimately show ?thesis by (simp add: cc_def PR_def)
qed

lemma IsPrime_17_5_unsat:
  assumes s: "sat \<sigma> (fst (IsPrime ''target'' 17 17 st))"
    and t: "pinned \<sigma> ''target'' 17 5"
    and one: "val \<sigma> (''One_NBit_'' @ Z 17) 17 = 1"
    and one2: "val \<sigma> (''One_NBit_'' @ Z 34) 34 = 1"
  shows False
proof -
  define cc where "cc = isprime_calls st + 1"
  have vt: "valid_name ''target''" by (simp add: valid_name_def scan_simps)
  have s': "sat \<sigma> (fst (IsPrime ''target'' 17 (int 17) st))" using s by simp
  have tv: "val \<sigma> ''target'' 17 = 5" using t by (rule pinned_val) simp
  obtain s0 where p0: "val \<sigma> (''IsPrime_Prime_'' @ Z cc @ ''_'' @ Z 0) 17 = 5"
    and f: "sat \<sigma> (fst (IsPrime_full_test cc 17 0 s0))"
    using IsPrime_first_slot [OF s' vt] tv unfolding cc_def by auto
  have "val \<sigma> (''IsPrime_Prime_'' @ Z cc @ ''_'' @ Z 0) 17 = 2 \<or>
        val \<sigma> (''IsPrime_Prime_'' @ Z cc @ ''_'' @ Z 0) 17 = 3 \<or>
        (pinned_value 1 (17 * 2) * val \<sigma> (''IsPrime_Generator_'' @ Z cc @ ''_'' @ Z 0) 17 ^
          (val \<sigma> (''IsPrime_Prime_'' @ Z cc @ ''_'' @ Z 0) 17 - 1)) mod
         val \<sigma> (''IsPrime_Prime_'' @ Z cc @ ''_'' @ Z 0) 17 = 1"
    using f _ one _ _ _ _
  proof (rule IsPrime_full_test_value)
    show "(2::nat) \<le> 17" "(17::nat) \<le> 32" by simp_all
    show "val \<sigma> (''One_NBit_'' @ Z (17 * 2)) (17 * 2) = 1" using one2 by simp
    show "2 \<le> val \<sigma> (''IsPrime_Prime_'' @ Z cc @ ''_'' @ Z 0) 17" using p0 by simp
    show "17 * 2 \<le> (32::nat) \<or> odd (val \<sigma> (''IsPrime_Prime_'' @ Z cc @ ''_'' @ Z 0) 17)"
      using p0 by simp
  qed
  then have "(4294967297 * val \<sigma> (''IsPrime_Generator_'' @ Z cc @ ''_'' @ Z 0) 17 ^ 4) mod 5 = 1"
    unfolding p0 using pinned_value_1_34 by simp
  then show False using fourth_power_mod_5 by blast
qed


section \<open>The clauses determine their variables\<close>

lemma names_map: "set (names (map f xs)) = (\<Union>x\<in>set xs. set (clause_names (f x)))"
  by (induction xs) auto

lemma names_Add_1Bit:
  assumes "valid_name a" "valid_name b" "valid_name ci" "valid_name r" "valid_name co"
  shows "set (names (Add_1Bit a b ci r co)) = {a, b, ci, r, co}"
  using assms
  by (auto simp: Add_1Bit_def CarryOut_Equal_POPCNT_GREATER_THAN_2_def
      Result_Equal_A_XOR_B_XOR_CarryIn_def clause_names_def valid_name_def scan_simps)

lemma names_unit_neg: "valid_name x \<Longrightarrow> clause_names (''-<'' @ x @ ''> 0 '') = [x]"
  by (simp add: clause_names_def valid_name_def scan_simps)

lemma names_unit_pos: "valid_name x \<Longrightarrow> clause_names (''<'' @ x @ ''> 0 '') = [x]"
  by (simp add: clause_names_def valid_name_def scan_simps)

lemma names_pair:
  assumes "valid_name x" "valid_name y"
  shows "set (names [''-<'' @ x @ ''>  <'' @ y @ ''> 0 '', '' <'' @ x @ ''> -<'' @ y @ ''> 0 '']) = {x, y}"
  using assms by (auto simp: clause_names_def valid_name_def scan_simps)

lemma names_gates:
  assumes "valid_name a" "valid_name b" "valid_name r"
  shows "set (names (Equals_1Bit a b r)) = {a, b, r}"
    "set (names (LessThan_1Bit a b r)) = {a, b, r}"
    "set (names (And_1Bit a b r)) = {a, b, r}"
  using assms
  by (auto simp: Equals_1Bit_def LessThan_1Bit_def And_1Bit_def clause_names_def valid_name_def scan_simps)

lemma clause_names_or:
  assumes "\<And>i. valid_name (nm i)"
  shows "clause_names (concat (map (\<lambda>i. '' <'' @ nm i @ ''> '') xs) @ '' 0 '') = map nm xs"
proof -
  have "scan (CHR '' '') ('' <'' @ nm i @ ''> '' @ r) = (False, nm i) # scan (CHR '' '') r" for i r
    using assms [of i] by (simp add: valid_name_def scan_simps)
  then have "scan (CHR '' '') (concat (map (\<lambda>i. '' <'' @ nm i @ ''> '') xs) @ '' 0 '') =
             map (\<lambda>i. (False, nm i)) xs @ scan (CHR '' '') '' 0 ''"
    by (intro scan_concat) simp
  then show ?thesis
    by (simp add: clause_names_def clause_lits_def scan_skip comp_def)
qed

lemma clause_names_big:
  assumes "valid_name r" "\<And>i. valid_name (nm i)"
  shows "clause_names (''-<'' @ r @ ''> '' @ concat (map (\<lambda>i. '' <'' @ nm i @ ''> '') xs) @ '' 0 '') =
         r # map nm xs"
proof -
  have "clause_lits (''-<'' @ r @ ''> '' @ concat (map (\<lambda>i. '' <'' @ nm i @ ''> '') xs) @ '' 0 '') =
        (True, r) # clause_lits (concat (map (\<lambda>i. '' <'' @ nm i @ ''> '') xs) @ '' 0 '')"
    using assms(1) by (simp add: valid_name_def scan_simps)
  then show ?thesis
    using clause_names_or [of nm xs, OF assms(2)] by (simp add: clause_names_def)
qed

lemma names_back:
  assumes "valid_name r" "valid_name x"
  shows "clause_names (''<'' @ r @ ''>  -<'' @ x @ ''> 0 '') = [r, x]"
  using assms by (simp add: clause_names_def valid_name_def scan_simps)

lemma names_Shift:
  assumes "valid_name a" "valid_name b" "valid_name r" "s \<le> n"
  shows "set (names (Mul_NBit_1Bit_Shift a b r s n)) \<subseteq>
      {b} \<union> (\<lambda>i. a @ ''_'' @ Z i) ` {..<n} \<union> (\<lambda>i. r @ ''_'' @ Z i) ` {..<n * 2}"
proof -
  have 1: "clause_names (''-<'' @ r @ ''_'' @ Z i @ ''> 0 '') = [r @ ''_'' @ Z i]" for i
    using names_unit_neg [of "r @ ''_'' @ Z i"] assms(3) by simp
  have 2: "set (names
       ['' <'' @ r @ ''_'' @ Z (i + s) @ ''> -<'' @ a @ ''_'' @ Z i @ ''> -<'' @ b @ ''> 0 '',
        ''-<'' @ r @ ''_'' @ Z (i + s) @ ''> -<'' @ a @ ''_'' @ Z i @ ''>  <'' @ b @ ''> 0 '',
        ''-<'' @ r @ ''_'' @ Z (i + s) @ ''>  <'' @ a @ ''_'' @ Z i @ ''> -<'' @ b @ ''> 0 '',
        ''-<'' @ r @ ''_'' @ Z (i + s) @ ''>  <'' @ a @ ''_'' @ Z i @ ''>  <'' @ b @ ''> 0 '']) =
       {r @ ''_'' @ Z (i + s), a @ ''_'' @ Z i, b}" for i
    using assms by (auto simp: clause_names_def valid_name_def scan_simps)
  show ?thesis
    unfolding Mul_NBit_1Bit_Shift_def names_append set_append names_map set_names_concat_map 1 2
    using assms(4) by auto
qed

lemma same_on_Nil [simp]: "same_on \<sigma> \<sigma>' []"
  by (simp add: same_on_def)

lemma same_on_append [simp]: "same_on \<sigma> \<sigma>' (xs @ ys) \<longleftrightarrow> same_on \<sigma> \<sigma>' xs \<and> same_on \<sigma> \<sigma>' ys"
  by (auto simp: same_on_def)

lemma same_on_Cons: "same_on \<sigma> \<sigma>' (c # cs) \<longleftrightarrow> same_on \<sigma> \<sigma>' [c] \<and> same_on \<sigma> \<sigma>' cs"
  by (auto simp: same_on_def)

lemma same_on_concat_map:
  "same_on \<sigma> \<sigma>' (concat (map f [0..<n])) \<longleftrightarrow> (\<forall>i<n. same_on \<sigma> \<sigma>' (f i))"
  by (auto simp: same_on_def set_names_concat_map)

lemma same_on_map:
  "same_on \<sigma> \<sigma>' (map f [0..<n]) \<longleftrightarrow> (\<forall>i<n. same_on \<sigma> \<sigma>' [f i])"
  by (auto simp: same_on_def names_map)

lemma same_on_unit:
  assumes "valid_name x" "\<sigma> x = \<sigma>' x"
  shows "same_on \<sigma> \<sigma>' [''-<'' @ x @ ''> 0 '']" "same_on \<sigma> \<sigma>' [''<'' @ x @ ''> 0 '']"
  using assms by (simp_all add: same_on_def names_unit_neg names_unit_pos del: append.simps)

lemma same_on_pair:
  assumes "valid_name x" "valid_name y" "\<sigma> x = \<sigma>' x" "\<sigma> y = \<sigma>' y"
  shows "same_on \<sigma> \<sigma>' [''-<'' @ x @ ''>  <'' @ y @ ''> 0 '', '' <'' @ x @ ''> -<'' @ y @ ''> 0 '']"
  unfolding same_on_def names_pair [OF assms(1,2)] using assms(3,4) by simp

lemma same_on_Add_1Bit:
  assumes "valid_name a" "valid_name b" "valid_name ci" "valid_name r" "valid_name co"
    and "\<sigma> a = \<sigma>' a" "\<sigma> b = \<sigma>' b" "\<sigma> ci = \<sigma>' ci" "\<sigma> r = \<sigma>' r" "\<sigma> co = \<sigma>' co"
  shows "same_on \<sigma> \<sigma>' (Add_1Bit a b ci r co)"
  unfolding same_on_def names_Add_1Bit [OF assms(1-5)] using assms(6-10) by simp

lemma same_on_for_upto:
  assumes "sat \<sigma> (fst (for_upto body n st))" "sat \<sigma>' (fst (for_upto body n st))"
    and step: "\<And>i s. i < n \<Longrightarrow> sat \<sigma> (fst (body i s)) \<Longrightarrow> sat \<sigma>' (fst (body i s)) \<Longrightarrow> I i \<Longrightarrow>
              same_on \<sigma> \<sigma>' (fst (body i s)) \<and> I (Suc i)"
    and "I 0"
  shows "same_on \<sigma> \<sigma>' (fst (for_upto body n st)) \<and> I n"
  using assms(1-3)
proof (induction n)
  case 0
  then show ?case using assms(4) by simp
next
  case (Suc n)
  obtain cs st1 where a: "for_upto body n st = (cs, st1)" by (cases "for_upto body n st")
  obtain ds st2 where b: "body n st1 = (ds, st2)" by (cases "body n st1")
  have sp: "sat \<sigma> cs" "sat \<sigma>' cs" "sat \<sigma> ds" "sat \<sigma>' ds"
    using Suc.prems(1,2) by (simp_all add: a b)
  have "same_on \<sigma> \<sigma>' (fst (for_upto body n st)) \<and> I n"
    using sp(1,2) Suc.prems(3) by (intro Suc.IH) (simp_all add: a)
  then have c: "same_on \<sigma> \<sigma>' cs" "I n" by (simp_all add: a)
  have "same_on \<sigma> \<sigma>' (fst (body n st1)) \<and> I (Suc n)"
    using sp(3,4) c(2) by (intro Suc.prems(3)) (simp_all add: b)
  with c show ?case by (simp add: a b)
qed

lemma Add_NBit_det:
  assumes v: "valid_name in_a" "valid_name in_b" "valid_name result" "valid_name over_flow"
    and s: "sat \<sigma> (fst (Add_NBit in_a in_b result over_flow n st))"
           "sat \<sigma>' (fst (Add_NBit in_a in_b result over_flow n st))"
    and a: "\<And>i. i < n \<Longrightarrow> \<sigma> (in_a @ ''_'' @ Z i) = \<sigma>' (in_a @ ''_'' @ Z i)"
    and b: "\<And>i. i < n \<Longrightarrow> \<sigma> (in_b @ ''_'' @ Z i) = \<sigma>' (in_b @ ''_'' @ Z i)"
  shows "same_on \<sigma> \<sigma>' (fst (Add_NBit in_a in_b result over_flow n st))"
    and "\<And>i. i < n \<Longrightarrow> \<sigma> (result @ ''_'' @ Z i) = \<sigma>' (result @ ''_'' @ Z i)"
    and "\<sigma> over_flow = \<sigma>' over_flow"
proof -
  define cc where "cc = add_nbit_calls st + 1"
  define C where "C = (\<lambda>i. ''AddNBit_'' @ Z cc @ ''_carry_out_'' @ Z i)"
  have vc: "valid_name (C i)" for i
    by (simp add: C_def valid_name_def scan_simps)
  have eq: "fst (Add_NBit in_a in_b result over_flow n st) =
       [''-<'' @ C 0 @ ''> 0 ''] @
       concat (map (\<lambda>i. Add_1Bit (in_a @ ''_'' @ Z i) (in_b @ ''_'' @ Z i) (C i)
                           (result @ ''_'' @ Z i) (C (i + 1))) [0..<n]) @
       [''-<'' @ over_flow @ ''>  <'' @ C n @ ''> 0 '', '' <'' @ over_flow @ ''> -<'' @ C n @ ''> 0 '']"
    by (simp add: Add_NBit_def cc_def C_def Let_def)
  have bits: "\<not> \<tau> (C 0) \<and> \<tau> over_flow = \<tau> (C n) \<and>
      (\<forall>i<n. \<tau> (C (Suc i)) = maj3 (\<tau> (in_a @ ''_'' @ Z i)) (\<tau> (in_b @ ''_'' @ Z i)) (\<tau> (C i)) \<and>
              \<tau> (result @ ''_'' @ Z i) = xor3 (\<tau> (in_a @ ''_'' @ Z i)) (\<tau> (in_b @ ''_'' @ Z i)) (\<tau> (C i)))"
    if t: "sat \<tau> (fst (Add_NBit in_a in_b result over_flow n st))" for \<tau>
  proof -
    have 1: "sat \<tau> [''-<'' @ C 0 @ ''> 0 '']"
      and 2: "sat \<tau> (concat (map (\<lambda>i. Add_1Bit (in_a @ ''_'' @ Z i) (in_b @ ''_'' @ Z i) (C i)
                           (result @ ''_'' @ Z i) (C (i + 1))) [0..<n]))"
      and 3: "sat \<tau> [''-<'' @ over_flow @ ''>  <'' @ C n @ ''> 0 '', '' <'' @ over_flow @ ''> -<'' @ C n @ ''> 0 '']"
      using t unfolding eq sat_append by simp_all
    have "\<not> \<tau> (C 0)"
      using 1 sat_unit_neg [OF vc [of 0], of \<tau>] by simp
    moreover have "\<tau> over_flow = \<tau> (C n)"
      using 3 sat_iff_pair [OF v(4) vc [of n], of \<tau>] by simp
    moreover have "\<tau> (C (Suc i)) = maj3 (\<tau> (in_a @ ''_'' @ Z i)) (\<tau> (in_b @ ''_'' @ Z i)) (\<tau> (C i)) \<and>
              \<tau> (result @ ''_'' @ Z i) = xor3 (\<tau> (in_a @ ''_'' @ Z i)) (\<tau> (in_b @ ''_'' @ Z i)) (\<tau> (C i))"
      if "i < n" for i
    proof -
      have "sat \<tau> (Add_1Bit (in_a @ ''_'' @ Z i) (in_b @ ''_'' @ Z i) (C i) (result @ ''_'' @ Z i) (C (i + 1)))"
        using 2 that by (simp add: sat_concat_map)
      then show ?thesis
        using v(1-3) vc by (simp add: sat_Add_1Bit del: append.simps)
    qed
    ultimately show ?thesis by blast
  qed
  note B = bits [OF s(1)] and B' = bits [OF s(2)]
  have c: "\<sigma> (C i) = \<sigma>' (C i)" if "i \<le> n" for i
    using that
  proof (induction i)
    case 0
    then show ?case using B B' by simp
  next
    case (Suc i)
    then have "i < n" "\<sigma> (C i) = \<sigma>' (C i)" by simp_all
    then show ?case using B B' a [of i] b [of i] by simp
  qed
  show r: "\<sigma> (result @ ''_'' @ Z i) = \<sigma>' (result @ ''_'' @ Z i)" if "i < n" for i
    using B B' a [OF that] b [OF that] c [of i] that by simp
  show o: "\<sigma> over_flow = \<sigma>' over_flow"
    using B B' c [of n] by simp
  show "same_on \<sigma> \<sigma>' (fst (Add_NBit in_a in_b result over_flow n st))"
    unfolding eq same_on_append same_on_concat_map
  proof (intro conjI allI impI)
    show "same_on \<sigma> \<sigma>' [''-<'' @ C 0 @ ''> 0 '']"
      using vc c [of 0] by (intro same_on_unit) simp_all
    show "same_on \<sigma> \<sigma>' (Add_1Bit (in_a @ ''_'' @ Z i) (in_b @ ''_'' @ Z i) (C i)
                           (result @ ''_'' @ Z i) (C (i + 1)))" if "i < n" for i
      using v vc a [OF that] b [OF that] r [OF that] c [of i] c [of "Suc i"] that
      by (intro same_on_Add_1Bit) simp_all
    show "same_on \<sigma> \<sigma>' [''-<'' @ over_flow @ ''>  <'' @ C n @ ''> 0 '', '' <'' @ over_flow @ ''> -<'' @ C n @ ''> 0 '']"
      using v(4) vc o c [of n] by (intro same_on_pair) simp_all
  qed
qed

lemma val_eq_bits:
  assumes "val \<sigma> x n = val \<sigma>' x n" "i < n"
  shows "\<sigma> (x @ ''_'' @ Z i) = \<sigma>' (x @ ''_'' @ Z i)"
proof -
  have "bit (val \<sigma> x n) i = bit (val \<sigma>' x n) i" using assms(1) by simp
  then show ?thesis using assms(2) unfolding bit_val by simp
qed

lemma bits_eq_val:
  assumes "\<And>i. i < n \<Longrightarrow> \<sigma> (x @ ''_'' @ Z i) = \<sigma>' (x @ ''_'' @ Z i)"
  shows "val \<sigma> x n = val \<sigma>' x n"
  unfolding val_def using assms by (intro bv_cong) simp

lemma same_on_Shift:
  assumes "valid_name a" "valid_name b" "valid_name r" "s \<le> n"
    and "\<sigma> b = \<sigma>' b"
    and "\<And>i. i < n \<Longrightarrow> \<sigma> (a @ ''_'' @ Z i) = \<sigma>' (a @ ''_'' @ Z i)"
    and "\<And>i. i < n * 2 \<Longrightarrow> \<sigma> (r @ ''_'' @ Z i) = \<sigma>' (r @ ''_'' @ Z i)"
  shows "same_on \<sigma> \<sigma>' (Mul_NBit_1Bit_Shift a b r s n)"
  unfolding same_on_def
proof
  fix x assume "x \<in> set (names (Mul_NBit_1Bit_Shift a b r s n))"
  then have "x \<in> {b} \<union> (\<lambda>i. a @ ''_'' @ Z i) ` {..<n} \<union> (\<lambda>i. r @ ''_'' @ Z i) ` {..<n * 2}"
    using names_Shift [OF assms(1-4)] by blast
  then show "\<sigma> x = \<sigma>' x"
    using assms(5-7) by auto
qed

lemma same_on_big:
  assumes "valid_name r" "\<And>i. valid_name (nm i)" "\<sigma> r = \<sigma>' r" "\<And>i. i \<in> set xs \<Longrightarrow> \<sigma> (nm i) = \<sigma>' (nm i)"
  shows "same_on \<sigma> \<sigma>' [''-<'' @ r @ ''> '' @ concat (map (\<lambda>i. '' <'' @ nm i @ ''> '') xs) @ '' 0 '']"
  unfolding same_on_def names_Cons names_Nil clause_names_big [of r nm xs, OF assms(1,2)]
  using assms(3,4) by auto

lemma same_on_back:
  assumes "valid_name r" "valid_name x" "\<sigma> r = \<sigma>' r" "\<sigma> x = \<sigma>' x"
  shows "same_on \<sigma> \<sigma>' [''<'' @ r @ ''>  -<'' @ x @ ''> 0 '']"
  unfolding same_on_def names_Cons names_Nil names_back [OF assms(1,2)]
  using assms(3,4) by auto

lemma Mul_NBit_det:
  assumes v: "valid_name in_a" "valid_name in_b" "valid_name result" "valid_name over_flow"
    and s: "sat \<sigma> (fst (Mul_NBit in_a in_b result over_flow n st))"
           "sat \<sigma>' (fst (Mul_NBit in_a in_b result over_flow n st))"
    and a: "\<And>i. i < n \<Longrightarrow> \<sigma> (in_a @ ''_'' @ Z i) = \<sigma>' (in_a @ ''_'' @ Z i)"
    and b: "\<And>i. i < n \<Longrightarrow> \<sigma> (in_b @ ''_'' @ Z i) = \<sigma>' (in_b @ ''_'' @ Z i)"
  shows "same_on \<sigma> \<sigma>' (fst (Mul_NBit in_a in_b result over_flow n st))"
    and "\<And>i. i < n \<Longrightarrow> \<sigma> (result @ ''_'' @ Z i) = \<sigma>' (result @ ''_'' @ Z i)"
    and "\<sigma> over_flow = \<sigma>' over_flow"
proof -
  define cc where "cc = mul_nbit_calls st + 1"
  define st0 where "st0 = st\<lparr>mul_nbit_calls := cc\<rparr>"
  define A1 where "A1 = (\<lambda>i. ''Mul_NBit_Accum1_'' @ Z cc @ ''_'' @ Z i)"
  define A2 where "A2 = (\<lambda>i. ''Mul_NBit_Accum2_'' @ Z cc @ ''_'' @ Z i)"
  define CO where "CO = (\<lambda>i. ''Mul_NBit_CarryOut_'' @ Z cc @ ''_'' @ Z i)"
  have vA: "valid_name (A1 i)" "valid_name (A2 i)" "valid_name (CO i)" for i
    by (simp_all add: A1_def A2_def CO_def valid_name_def scan_simps)
  define pp where "pp = concat (map (\<lambda>i. Mul_NBit_1Bit_Shift in_a (in_b @ ''_'' @ Z i) (A1 i) i n) [0..<n])"
  define init where "init = map (\<lambda>i. ''-<'' @ (A2 0 @ ''_'' @ Z i) @ ''> 0 '') [0..<n * 2]"
  define adds where "adds = fst (for_upto (\<lambda>i. Add_NBit (A1 i) (A2 i) (A2 (i + 1)) (CO i) (n * 2)) n st0)"
  define conn where "conn = concat (map (\<lambda>i.
            [''-<'' @ (result @ ''_'' @ Z i) @ ''>  <'' @ (A2 n @ ''_'' @ Z i) @ ''> 0 '',
             '' <'' @ (result @ ''_'' @ Z i) @ ''> -<'' @ (A2 n @ ''_'' @ Z i) @ ''> 0 '']) [0..<n])"
  define ovc where "ovc = ''-<'' @ over_flow @ ''> '' @
            concat (map (\<lambda>i. '' <'' @ (A2 n @ ''_'' @ Z (i + n)) @ ''> '') [0..<n]) @ '' 0 ''"
  define bck where "bck = map (\<lambda>i. ''<'' @ over_flow @ ''>  -<'' @ (A2 n @ ''_'' @ Z (i + n)) @ ''> 0 '') [0..<n]"
  have eq: "fst (Mul_NBit in_a in_b result over_flow n st) = pp @ init @ adds @ conn @ [ovc] @ bck"
    by (simp add: Mul_NBit_def Let_def split_beta cc_def st0_def A1_def A2_def CO_def
        pp_def init_def adds_def conn_def ovc_def bck_def)
  have sp: "sat \<sigma> pp" "sat \<sigma> init" "sat \<sigma> adds" "sat \<sigma> conn"
    using s(1) unfolding eq sat_append by simp_all
  have sp': "sat \<sigma>' pp" "sat \<sigma>' init" "sat \<sigma>' adds" "sat \<sigma>' conn"
    using s(2) unfolding eq sat_append by simp_all
  have va: "val \<sigma> in_a n = val \<sigma>' in_a n" using a by (rule bits_eq_val)
  have vb: "val \<sigma> in_b n = val \<sigma>' in_b n" using b by (rule bits_eq_val)
  have P: "val \<tau> (A1 i) (n * 2) = (if \<tau> (in_b @ ''_'' @ Z i) then val \<tau> in_a n * 2 ^ i else 0)"
    if "i < n" "sat \<tau> pp" for i \<tau>
  proof -
    have "sat \<tau> (Mul_NBit_1Bit_Shift in_a (in_b @ ''_'' @ Z i) (A1 i) i n)"
      using that by (simp add: pp_def sat_concat_map)
    then show ?thesis
      using v(1,2) vA(1) that(1) by (intro val_Mul_NBit_1Bit_Shift) simp_all
  qed
  have a1: "\<sigma> (A1 i @ ''_'' @ Z j) = \<sigma>' (A1 i @ ''_'' @ Z j)" if "i < n" "j < n * 2" for i j
  proof -
    have "val \<sigma> (A1 i) (n * 2) = val \<sigma>' (A1 i) (n * 2)"
      using P [OF that(1) sp(1)] P [OF that(1) sp'(1)] b [OF that(1)] va by simp
    then show ?thesis using that(2) by (rule val_eq_bits)
  qed
  have z: "\<not> \<tau> (A2 0 @ ''_'' @ Z i)" if "i < n * 2" "sat \<tau> init" for i \<tau>
  proof -
    have "sat_clause \<tau> (''-<'' @ (A2 0 @ ''_'' @ Z i) @ ''> 0 '')"
      using that by (simp add: init_def sat_map del: append.simps)
    then show ?thesis
      using vA(2) [of 0] by (subst (asm) sat_unit_neg) simp_all
  qed
  have a20: "\<sigma> (A2 0 @ ''_'' @ Z j) = \<sigma>' (A2 0 @ ''_'' @ Z j)" if "j < n * 2" for j
    using z [OF that sp(2)] z [OF that sp'(2)] by simp
  have loop: "same_on \<sigma> \<sigma>' (fst (for_upto (\<lambda>i. Add_NBit (A1 i) (A2 i) (A2 (i + 1)) (CO i) (n * 2)) n st0)) \<and>
        (\<forall>j<n * 2. \<sigma> (A2 n @ ''_'' @ Z j) = \<sigma>' (A2 n @ ''_'' @ Z j))"
  proof (rule same_on_for_upto [where I = "\<lambda>i. \<forall>j<n * 2. \<sigma> (A2 i @ ''_'' @ Z j) = \<sigma>' (A2 i @ ''_'' @ Z j)"])
    show "sat \<sigma> (fst (for_upto (\<lambda>i. Add_NBit (A1 i) (A2 i) (A2 (i + 1)) (CO i) (n * 2)) n st0))"
      using sp(3) by (simp add: adds_def)
    show "sat \<sigma>' (fst (for_upto (\<lambda>i. Add_NBit (A1 i) (A2 i) (A2 (i + 1)) (CO i) (n * 2)) n st0))"
      using sp'(3) by (simp add: adds_def)
    show "\<forall>j<n * 2. \<sigma> (A2 0 @ ''_'' @ Z j) = \<sigma>' (A2 0 @ ''_'' @ Z j)"
      using a20 by simp
    fix i s
    assume i: "i < n" and t: "sat \<sigma> (fst (Add_NBit (A1 i) (A2 i) (A2 (i + 1)) (CO i) (n * 2) s))"
      "sat \<sigma>' (fst (Add_NBit (A1 i) (A2 i) (A2 (i + 1)) (CO i) (n * 2) s))"
      and I: "\<forall>j<n * 2. \<sigma> (A2 i @ ''_'' @ Z j) = \<sigma>' (A2 i @ ''_'' @ Z j)"
    have x: "\<And>j. j < n * 2 \<Longrightarrow> \<sigma> (A1 i @ ''_'' @ Z j) = \<sigma>' (A1 i @ ''_'' @ Z j)"
      using a1 [OF i] by simp
    have y: "\<And>j. j < n * 2 \<Longrightarrow> \<sigma> (A2 i @ ''_'' @ Z j) = \<sigma>' (A2 i @ ''_'' @ Z j)"
      using I by simp
    note d = Add_NBit_det [OF vA(1) [of i] vA(2) [of i] vA(2) [of "i + 1"] vA(3) [of i] t x y]
    show "same_on \<sigma> \<sigma>' (fst (Add_NBit (A1 i) (A2 i) (A2 (i + 1)) (CO i) (n * 2) s)) \<and>
          (\<forall>j<n * 2. \<sigma> (A2 (Suc i) @ ''_'' @ Z j) = \<sigma>' (A2 (Suc i) @ ''_'' @ Z j))"
      using d(1) d(2) by simp
  qed
  then have a2n: "\<sigma> (A2 n @ ''_'' @ Z j) = \<sigma>' (A2 n @ ''_'' @ Z j)" if "j < n * 2" for j
    using that by simp
  have conn: "\<tau> (result @ ''_'' @ Z i) = \<tau> (A2 n @ ''_'' @ Z i)" if "i < n" "sat \<tau> conn" for i \<tau>
  proof -
    have "sat \<tau> [''-<'' @ (result @ ''_'' @ Z i) @ ''>  <'' @ (A2 n @ ''_'' @ Z i) @ ''> 0 '',
             '' <'' @ (result @ ''_'' @ Z i) @ ''> -<'' @ (A2 n @ ''_'' @ Z i) @ ''> 0 '']"
      using that by (simp add: conn_def sat_concat_map)
    then show ?thesis
      using sat_iff_pair [of "result @ ''_'' @ Z i" "A2 n @ ''_'' @ Z i" \<tau>] v(3) vA(2) [of n]
      by simp
  qed
  show r: "\<sigma> (result @ ''_'' @ Z i) = \<sigma>' (result @ ''_'' @ Z i)" if "i < n" for i
    using conn [OF that sp(4)] conn [OF that sp'(4)] a2n [of i] that by simp
  show o: "\<sigma> over_flow = \<sigma>' over_flow"
    using Mul_NBit_sound [OF v s(1)] Mul_NBit_sound [OF v s(2)] va vb by simp
  have 1: "same_on \<sigma> \<sigma>' pp"
    unfolding pp_def same_on_concat_map
  proof (intro allI impI)
    fix i assume i: "i < n"
    show "same_on \<sigma> \<sigma>' (Mul_NBit_1Bit_Shift in_a (in_b @ ''_'' @ Z i) (A1 i) i n)"
      using v(1,2) vA(1) i b [OF i] a a1 [OF i] by (intro same_on_Shift) simp_all
  qed
  have 2: "same_on \<sigma> \<sigma>' init"
    unfolding init_def same_on_map
  proof (intro allI impI)
    fix i assume i: "i < n * 2"
    show "same_on \<sigma> \<sigma>' [''-<'' @ (A2 0 @ ''_'' @ Z i) @ ''> 0 '']"
      using vA(2) [of 0] a20 [OF i] by (intro same_on_unit) simp_all
  qed
  have 3: "same_on \<sigma> \<sigma>' adds" using loop by (simp add: adds_def)
  have 4: "same_on \<sigma> \<sigma>' conn"
    unfolding conn_def same_on_concat_map
  proof (intro allI impI)
    fix i assume i: "i < n"
    show "same_on \<sigma> \<sigma>' [''-<'' @ (result @ ''_'' @ Z i) @ ''>  <'' @ (A2 n @ ''_'' @ Z i) @ ''> 0 '',
             '' <'' @ (result @ ''_'' @ Z i) @ ''> -<'' @ (A2 n @ ''_'' @ Z i) @ ''> 0 '']"
      using v(3) vA(2) [of n] r [OF i] a2n [of i] i by (intro same_on_pair) simp_all
  qed
  have 5: "same_on \<sigma> \<sigma>' [ovc]"
    unfolding ovc_def
    using v(4) vA(2) [of n] o a2n by (intro same_on_big) simp_all
  have 6: "same_on \<sigma> \<sigma>' bck"
    unfolding bck_def same_on_map
  proof (intro allI impI)
    fix i assume i: "i < n"
    show "same_on \<sigma> \<sigma>' [''<'' @ over_flow @ ''>  -<'' @ (A2 n @ ''_'' @ Z (i + n)) @ ''> 0 '']"
      using v(4) vA(2) [of n] o a2n [of "i + n"] i by (intro same_on_back) simp_all
  qed
  show "same_on \<sigma> \<sigma>' (fst (Mul_NBit in_a in_b result over_flow n st))"
    unfolding eq same_on_append using 1 2 3 4 5 6 by simp
qed

lemma same_on_gates:
  assumes "valid_name a" "valid_name b" "valid_name r" "\<sigma> a = \<sigma>' a" "\<sigma> b = \<sigma>' b" "\<sigma> r = \<sigma>' r"
  shows "same_on \<sigma> \<sigma>' (Equals_1Bit a b r)" "same_on \<sigma> \<sigma>' (LessThan_1Bit a b r)"
    "same_on \<sigma> \<sigma>' (And_1Bit a b r)"
  unfolding same_on_def names_gates [OF assms(1-3)] using assms(4-6) by simp_all

lemma same_on_or:
  assumes "\<And>i. valid_name (nm i)" "\<And>i. i \<in> set xs \<Longrightarrow> \<sigma> (nm i) = \<sigma>' (nm i)"
  shows "same_on \<sigma> \<sigma>' [concat (map (\<lambda>i. '' <'' @ nm i @ ''> '') xs) @ '' 0 '']"
  unfolding same_on_def names_Cons names_Nil clause_names_or [of nm xs, OF assms(1)]
  using assms(2) by auto

lemma LessThan_NBit_det:
  assumes v: "valid_name in_a" "valid_name in_b"
    and s: "sat \<sigma> (fst (LessThan_NBit in_a in_b n st))" "sat \<sigma>' (fst (LessThan_NBit in_a in_b n st))"
    and a: "\<And>i. i < n \<Longrightarrow> \<sigma> (in_a @ ''_'' @ Z i) = \<sigma>' (in_a @ ''_'' @ Z i)"
    and b: "\<And>i. i < n \<Longrightarrow> \<sigma> (in_b @ ''_'' @ Z i) = \<sigma>' (in_b @ ''_'' @ Z i)"
  shows "same_on \<sigma> \<sigma>' (fst (LessThan_NBit in_a in_b n st))"
proof -
  define cc where "cc = lessthan_nbit_calls st + 1"
  define EQ where "EQ = (\<lambda>i. ''LessThan_NBit_Equals_'' @ Z cc @ ''_'' @ Z i)"
  define LT where "LT = (\<lambda>i. ''LessThan_NBit_Less_'' @ Z cc @ ''_'' @ Z i)"
  define EA where "EA = (\<lambda>i. ''LessThan_NBit_EqualAccum_'' @ Z cc @ ''_'' @ Z i)"
  define RS where "RS = (\<lambda>i. ''LessThan_NBit_Result_'' @ Z cc @ ''_'' @ Z i)"
  have vn: "valid_name (EQ i)" "valid_name (LT i)" "valid_name (EA i)" "valid_name (RS i)" for i
    by (simp_all add: EQ_def LT_def EA_def RS_def valid_name_def scan_simps)
  define c1 where "c1 = concat (map (\<lambda>i. Equals_1Bit (in_a @ ''_'' @ Z i) (in_b @ ''_'' @ Z i) (EQ i)) [0..<n])"
  define c2 where "c2 = concat (map (\<lambda>i. LessThan_1Bit (in_a @ ''_'' @ Z i) (in_b @ ''_'' @ Z i) (LT i)) [0..<n])"
  define c3 where "c3 = [''<'' @ EA n @ ''> 0 '']"
  define c4 where "c4 = concat (map (\<lambda>i. And_1Bit (EA (i + 1)) (EQ i) (EA i)) [0..<n])"
  define c5 where "c5 = concat (map (\<lambda>i. And_1Bit (EA (i + 1)) (LT i) (RS i)) [0..<n])"
  define c6 where "c6 = [concat (map (\<lambda>i. '' <'' @ RS i @ ''> '') [0..<n]) @ '' 0 '']"
  have eq: "fst (LessThan_NBit in_a in_b n st) = c1 @ c2 @ c3 @ c4 @ c5 @ c6"
    by (simp add: LessThan_NBit_def Let_def cc_def EQ_def LT_def EA_def RS_def
        c1_def c2_def c3_def c4_def c5_def c6_def)
  have bits: "(\<forall>i<n. \<tau> (EQ i) = (\<tau> (in_a @ ''_'' @ Z i) = \<tau> (in_b @ ''_'' @ Z i))) \<and>
      (\<forall>i<n. \<tau> (LT i) = (\<not> \<tau> (in_a @ ''_'' @ Z i) \<and> \<tau> (in_b @ ''_'' @ Z i))) \<and>
      (\<forall>i\<le>n. \<tau> (EA i) = (\<forall>j. i \<le> j \<and> j < n \<longrightarrow> \<tau> (EQ j))) \<and>
      (\<forall>i<n. \<tau> (RS i) = (\<tau> (EA (Suc i)) \<and> \<tau> (LT i)))"
    if t: "sat \<tau> (fst (LessThan_NBit in_a in_b n st))" for \<tau>
  proof -
    have sp: "sat \<tau> c1" "sat \<tau> c2" "sat \<tau> c3" "sat \<tau> c4" "sat \<tau> c5"
      using t unfolding eq sat_append by simp_all
    have e: "\<tau> (EQ i) = (\<tau> (in_a @ ''_'' @ Z i) = \<tau> (in_b @ ''_'' @ Z i))" if "i < n" for i
      using sp(1) that sat_Equals_1Bit [of "in_a @ ''_'' @ Z i" "in_b @ ''_'' @ Z i" "EQ i" \<tau>] v vn(1) [of i]
      by (simp add: c1_def sat_concat_map)
    have l: "\<tau> (LT i) = (\<not> \<tau> (in_a @ ''_'' @ Z i) \<and> \<tau> (in_b @ ''_'' @ Z i))" if "i < n" for i
      using sp(2) that sat_LessThan_1Bit [of "in_a @ ''_'' @ Z i" "in_b @ ''_'' @ Z i" "LT i" \<tau>] v vn(2) [of i]
      by (simp add: c2_def sat_concat_map)
    have ean: "\<tau> (EA n)"
      using sp(3) sat_unit_pos [of "EA n" \<tau>] vn(3) [of n] by (simp add: c3_def)
    have ea: "\<tau> (EA i) = (\<tau> (EA (Suc i)) \<and> \<tau> (EQ i))" if "i < n" for i
      using sp(4) that sat_And_1Bit [of "EA (i + 1)" "EQ i" "EA i" \<tau>] vn by (simp add: c4_def sat_concat_map)
    have rs: "\<tau> (RS i) = (\<tau> (EA (Suc i)) \<and> \<tau> (LT i))" if "i < n" for i
      using sp(5) that sat_And_1Bit [of "EA (i + 1)" "LT i" "RS i" \<tau>] vn by (simp add: c5_def sat_concat_map)
    have acc: "\<tau> (EA i) = (\<forall>j. i \<le> j \<and> j < n \<longrightarrow> \<tau> (EQ j))" if "i \<le> n" for i
      using ean ea that by (rule equal_accum [where E = "\<lambda>i. \<tau> (EA i)" and e = "\<lambda>i. \<tau> (EQ i)"])
    show ?thesis using e l acc rs by blast
  qed
  note B = bits [OF s(1)] and B' = bits [OF s(2)]
  have e: "\<sigma> (EQ i) = \<sigma>' (EQ i)" if "i < n" for i
    using B B' a [OF that] b [OF that] that by simp
  have l: "\<sigma> (LT i) = \<sigma>' (LT i)" if "i < n" for i
    using B B' a [OF that] b [OF that] that by simp
  have ea: "\<sigma> (EA i) = \<sigma>' (EA i)" if "i \<le> n" for i
  proof -
    have "\<sigma> (EA i) = (\<forall>j. i \<le> j \<and> j < n \<longrightarrow> \<sigma> (EQ j))" using B that by blast
    also have "\<dots> = (\<forall>j. i \<le> j \<and> j < n \<longrightarrow> \<sigma>' (EQ j))" using e by auto
    also have "\<dots> = \<sigma>' (EA i)" using B' that by blast
    finally show ?thesis .
  qed
  have rs: "\<sigma> (RS i) = \<sigma>' (RS i)" if "i < n" for i
    using B B' l [OF that] ea [of "Suc i"] that by simp
  have 1: "same_on \<sigma> \<sigma>' c1"
    unfolding c1_def same_on_concat_map
    using v vn a b e by (intro allI impI same_on_gates) simp_all
  have 2: "same_on \<sigma> \<sigma>' c2"
    unfolding c2_def same_on_concat_map
    using v vn a b l by (intro allI impI same_on_gates) simp_all
  have 3: "same_on \<sigma> \<sigma>' c3"
    unfolding c3_def using vn(3) ea [of n] by (intro same_on_unit) simp_all
  have 4: "same_on \<sigma> \<sigma>' c4"
    unfolding c4_def same_on_concat_map
    using vn e ea by (intro allI impI same_on_gates) simp_all
  have 5: "same_on \<sigma> \<sigma>' c5"
    unfolding c5_def same_on_concat_map
    using vn l ea rs by (intro allI impI same_on_gates) simp_all
  have 6: "same_on \<sigma> \<sigma>' c6"
    unfolding c6_def using vn(4) rs by (intro same_on_or) simp_all
  show ?thesis unfolding eq same_on_append using 1 2 3 4 5 6 by simp
qed

text \<open>
  Claim C5 (adder correctness). For every width \<open>n\<close> and all \<open>a\<close>, \<open>b\<close> below \<open>2 ^ n\<close>:
  an assignment that satisfies the clauses of \<open>Add_NBit\<close> and has the bits of the two
  operands pinned to \<open>a\<close> and \<open>b\<close> gives the result bits the value \<open>(a + b) mod 2 ^ n\<close>
  and the overflow bit the value \<open>(a + b) div 2 ^ n\<close>. The operand names are names the
  finaliser's regular expression reads (non-empty, letters, digits and underscores).
\<close>

theorem Add_NBit_correct:
  assumes "valid_name in_a" "valid_name in_b" "valid_name result" "valid_name over_flow"
    and "a < 2 ^ n" "b < 2 ^ n"
    and "pinned \<sigma> in_a n a" "pinned \<sigma> in_b n b"
    and "sat \<sigma> (fst (Add_NBit in_a in_b result over_flow n st))"
  shows "val \<sigma> result n = (a + b) mod 2 ^ n \<and> of_bool (\<sigma> over_flow) = (a + b) div 2 ^ n"
proof -
  have "val \<sigma> in_a n + val \<sigma> in_b n = val \<sigma> result n + 2 ^ n * of_bool (\<sigma> over_flow)"
    using assms(1-4,9) by (rule Add_NBit_sound)
  then have eq: "a + b = val \<sigma> result n + 2 ^ n * of_bool (\<sigma> over_flow)"
    using assms(5-8) by (simp add: pinned_val)
  have lt: "val \<sigma> result n < 2 ^ n"
    by (simp add: val_def bv_less)
  from eq lt show ?thesis by simp
qed

theorem Add_NBit_correct_witness:
  "valid_name ''a'' \<and> valid_name ''b'' \<and> valid_name ''r'' \<and> valid_name ''ov'' \<and>
   (1::nat) < 2 ^ 1 \<and>
   pinned add_example ''a'' 1 1 \<and> pinned add_example ''b'' 1 1 \<and>
   sat add_example (fst (Add_NBit ''a'' ''b'' ''r'' ''ov'' 1 init_counters)) \<and>
   val add_example ''r'' 1 = (1 + 1) mod 2 ^ 1 \<and>
   of_bool (add_example ''ov'') = (1 + 1) div (2 ^ 1 :: nat)"
proof -
  have v: "valid_name ''a''" "valid_name ''b''" "valid_name ''r''" "valid_name ''ov''"
    by code_simp+
  have b: "(1::nat) < 2 ^ 1" by simp
  have p: "pinned add_example ''a'' 1 1" "pinned add_example ''b'' 1 1"
    by code_simp+
  have s: "sat add_example (fst (Add_NBit ''a'' ''b'' ''r'' ''ov'' 1 init_counters))"
    by code_simp
  show ?thesis
    using Add_NBit_correct [OF v b b p s] v b p s by simp
qed


text \<open>
  Claim C6 (\<open>Or_Condition\<close>). For all clause lists \<open>c1\<close> and \<open>c2\<close> that do not mention
  the selector variable that \<open>Or_Condition\<close> allocates, the clause list it produces is
  satisfiable if and only if \<open>c1\<close> is satisfiable or \<open>c2\<close> is satisfiable.
\<close>

theorem Or_Condition_equisat:
  assumes "''Or_Condition_'' @ Z (or_condition_calls st + 1) \<notin> set (names c1)"
    and "''Or_Condition_'' @ Z (or_condition_calls st + 1) \<notin> set (names c2)"
  shows "(\<exists>\<sigma>. sat \<sigma> (fst (Or_Condition c1 c2 st))) \<longleftrightarrow> (\<exists>\<sigma>. sat \<sigma> c1) \<or> (\<exists>\<sigma>. sat \<sigma> c2)"
proof
  assume "\<exists>\<sigma>. sat \<sigma> (fst (Or_Condition c1 c2 st))"
  then show "(\<exists>\<sigma>. sat \<sigma> c1) \<or> (\<exists>\<sigma>. sat \<sigma> c2)"
    using Or_Condition_sound by blast
next
  define t where "t = ''Or_Condition_'' @ Z (or_condition_calls st + 1)"
  have key: "sat \<sigma> (fst (Or_Condition c1 c2 st)) \<longleftrightarrow> (\<sigma> t \<or> sat \<sigma> c1) \<and> (\<not> \<sigma> t \<or> sat \<sigma> c2)" for \<sigma>
    unfolding t_def by (rule sat_Or_Condition)
  assume "(\<exists>\<sigma>. sat \<sigma> c1) \<or> (\<exists>\<sigma>. sat \<sigma> c2)"
  then show "\<exists>\<sigma>. sat \<sigma> (fst (Or_Condition c1 c2 st))"
  proof
    assume "\<exists>\<sigma>. sat \<sigma> c1"
    then obtain \<sigma> where s: "sat \<sigma> c1" ..
    have "sat (\<sigma>(t := False)) c1 = sat \<sigma> c1"
      using assms(1) by (intro sat_cong) (auto simp: t_def)
    with s have "sat (\<sigma>(t := False)) (fst (Or_Condition c1 c2 st))"
      by (simp add: key)
    then show ?thesis by blast
  next
    assume "\<exists>\<sigma>. sat \<sigma> c2"
    then obtain \<sigma> where s: "sat \<sigma> c2" ..
    have "sat (\<sigma>(t := True)) c2 = sat \<sigma> c2"
      using assms(2) by (intro sat_cong) (auto simp: t_def)
    with s have "sat (\<sigma>(t := True)) (fst (Or_Condition c1 c2 st))"
      by (simp add: key)
    then show ?thesis by blast
  qed
qed

theorem Or_Condition_equisat_witness:
  "''Or_Condition_'' @ Z (or_condition_calls init_counters + 1) \<notin> set (names [''<x> 0 '']) \<and>
   ''Or_Condition_'' @ Z (or_condition_calls init_counters + 1) \<notin> set (names [''-<x> 0 '', ''<x> 0 '']) \<and>
   ((\<exists>\<sigma>. sat \<sigma> (fst (Or_Condition [''<x> 0 ''] [''-<x> 0 '', ''<x> 0 ''] init_counters))) \<longleftrightarrow>
    (\<exists>\<sigma>. sat \<sigma> [''<x> 0 '']) \<or> (\<exists>\<sigma>. sat \<sigma> [''-<x> 0 '', ''<x> 0 '']))"
proof -
  have a: "''Or_Condition_'' @ Z (or_condition_calls init_counters + 1) \<notin> set (names [''<x> 0 ''])"
    by code_simp
  have b: "''Or_Condition_'' @ Z (or_condition_calls init_counters + 1) \<notin> set (names [''-<x> 0 '', ''<x> 0 ''])"
    by code_simp
  show ?thesis
    using Or_Condition_equisat [OF a b] a b by simp
qed

text \<open>
  Claim C10 (the divisor of the progress loops). As stated, the claim says that
  \<open>generate_cnf\<close> reaches the file-writing stage without a remainder by zero exactly when
  the input has at least 20 clauses. The divisor \<open>size / 20\<close> is indeed nonzero exactly
  then; but with no clause at all the loops do not run, no remainder is computed, and the
  file is written. The amended claim: the divisor is nonzero if and only if there are at
  least 20 clauses, and \<open>generate_cnf\<close> gets to the file-writing stage without a remainder
  by zero if and only if there are no clauses or at least 20.
\<close>

theorem generate_cnf_reaches_writing:
  "(length conditions div 20 \<noteq> 0 \<longleftrightarrow> 20 \<le> length conditions) \<and>
   (generate_cnf conditions file_path can_open \<noteq> Inl Modulo_By_Zero \<longleftrightarrow>
      length conditions = 0 \<or> 20 \<le> length conditions)"
proof
  show "length conditions div 20 \<noteq> 0 \<longleftrightarrow> 20 \<le> length conditions"
    by auto
  show "generate_cnf conditions file_path can_open \<noteq> Inl Modulo_By_Zero \<longleftrightarrow>
      length conditions = 0 \<or> 20 \<le> length conditions"
    using progress_Inr [of "length conditions"]
    by (auto simp: generate_cnf_def Let_def split: sum.splits)
qed

text \<open>The claim as stated fails for the empty clause list.\<close>

theorem generate_cnf_empty_counterexample:
  "\<not> (generate_cnf [] ''out.cnf'' True \<noteq> Inl Modulo_By_Zero \<longleftrightarrow> 20 \<le> length ([] :: string list))"
  by (simp add: generate_cnf_def progress_def)


text \<open>
  Claim C8 (a failure to open the output file). As stated, the claim says that the failure
  is reported to the caller. \<open>generate_cnf\<close> returns nothing: when the file cannot be
  opened it writes a diagnostic to the error stream and returns, and \<open>main\<close> goes on as
  after a successful write. The amended claim: when the file cannot be opened,
  \<open>generate_cnf\<close> (if no remainder by zero ended the run before) ends with the diagnostic
  as the last line of the error stream and no file written; the front end \<open>add_cnf\<close> then
  ends with the same exit code and the same standard output as when the file was written.
\<close>

theorem open_failure_not_surfaced:
  "(generate_cnf conditions file_path False = Inl Modulo_By_Zero \<or>
    (\<exists>progress_log. generate_cnf conditions file_path False =
      Inr \<lparr>err_lines = progress_log @ [''Error: Could not open file '' @ file_path @ '' for writing''],
           out_file = None\<rparr>)) \<and>
   exit_code (add_cnf_main args False) = exit_code (add_cnf_main args True) \<and>
   stdout_lines (add_cnf_main args False) = stdout_lines (add_cnf_main args True) \<and>
   written_file (add_cnf_main args False) = None"
proof -
  have "written_file (add_cnf_main args False) = None"
    by (auto simp: add_cnf_main_def written_file_def generate_cnf_def Let_def split: sum.splits)
  then show ?thesis
    using generate_cnf_open_failure [of conditions file_path] add_cnf_main_same [of args]
    by simp
qed

theorem open_failure_not_surfaced_witness:
  "(generate_cnf [] ''out.cnf'' False = Inl Modulo_By_Zero \<or>
    (\<exists>progress_log. generate_cnf [] ''out.cnf'' False =
      Inr \<lparr>err_lines = progress_log @ [''Error: Could not open file '' @ ''out.cnf'' @ '' for writing''],
           out_file = None\<rparr>)) \<and>
   exit_code (add_cnf_main [''5'', ''3''] False) = exit_code (add_cnf_main [''5'', ''3''] True) \<and>
   stdout_lines (add_cnf_main [''5'', ''3''] False) = stdout_lines (add_cnf_main [''5'', ''3''] True) \<and>
   written_file (add_cnf_main [''5'', ''3''] False) = None"
  by (rule open_failure_not_surfaced)

text \<open>
  The claim as stated fails for \<open>add_cnf 5 3\<close> when the file cannot be opened: the run
  ends with exit code 0 and reports the file as generated, and no file was written.
\<close>

theorem open_failure_counterexample:
  "exit_code (add_cnf_main [''5'', ''3''] False) = Some 0 \<and>
   stdout_lines (add_cnf_main [''5'', ''3''] False) =
     [''Input 1: 5 (bit width: 3)'', ''Input 2: 3 (bit width: 3)'',
      ''Expected sum: 8 (bit width: 4)'', ''Using bit width: 4'',
      ''CNF file generated: add_5_3.cnf'', ''Expected result: 8''] \<and>
   written_file (add_cnf_main [''5'', ''3''] False) = None"
proof -
  have "progress (length (add_cnf_conditions 5 3 4)) \<noteq> Inl Modulo_By_Zero"
    by (simp add: progress_Inr length_add_cnf_conditions)
  then obtain steps where "progress (length (add_cnf_conditions 5 3 4)) = Inr steps"
    using progress_cases by blast
  then show ?thesis
    by (simp add: add_cnf_main_def all_digits_def less_eq_char_def stoi5 bw decs sum53 generate_cnf_def
        exit_code_def stdout_lines_def written_file_def Let_def)
qed

text \<open>
  Claim C9 (width consistency). The claim says that \<open>Pow_NBit\<close> reads its exponent
  operand \<open>in_b\<close> only at bit indices below \<open>n\<close>. The loop that builds the overflow-temp
  selections reads \<open>in_b_(i+1)\<close> for every \<open>i\<close> below \<open>n\<close>, so for every width
  \<open>n > 0\<close> the clauses mention the bit \<open>in_b_n\<close>, which is not a bit of an \<open>n\<close>-bit
  operand.
\<close>

theorem Pow_NBit_reads_bit_n:
  assumes "valid_name in_b" and "0 < n"
  shows "in_b @ ''_'' @ Z n \<in> set (names (fst (Pow_NBit in_a in_b result over_flow n st)))"
proof -
  define cc where "cc = pow_nbit_calls st + 1"
  define temp where "temp = concat (map (\<lambda>i.
            If_Cond_A_Else_B_1Bit (''Pow_NBit_PowAccumOverflowAccum_'' @ Z cc @ ''_'' @ Z (i + 1))
                                  (''Zero_1Bit_'' @ Z 1)
                                  (in_b @ ''_'' @ Z (i + 1))
                                  (''Pow_NBit_OverflowTemp_'' @ Z cc @ ''_'' @ Z i)) [0..<n])"
  have "in_b @ ''_'' @ Z n \<in> set (names (If_Cond_A_Else_B_1Bit
          (''Pow_NBit_PowAccumOverflowAccum_'' @ Z cc @ ''_'' @ Z ((n - 1) + 1))
          (''Zero_1Bit_'' @ Z 1) (in_b @ ''_'' @ Z ((n - 1) + 1))
          (''Pow_NBit_OverflowTemp_'' @ Z cc @ ''_'' @ Z (n - 1))))"
    using assms by (subst names_If_Cond_1Bit) (simp_all del: append.simps)
  moreover have "n - 1 \<in> set [0..<n]"
    using assms(2) by simp
  ultimately have "in_b @ ''_'' @ Z n \<in> set (names temp)"
    unfolding temp_def set_names_concat_map by blast
  then show ?thesis
    by (simp add: Pow_NBit_def Let_def split_beta cc_def temp_def)
qed

theorem Pow_NBit_reads_bit_n_witness:
  "valid_name ''b'' \<and> (0::nat) < 1 \<and>
   ''b'' @ ''_'' @ Z 1 \<in> set (names (fst (Pow_NBit ''a'' ''b'' ''r'' ''ov'' 1 init_counters)))"
proof -
  have v: "valid_name ''b''" by code_simp
  have n: "(0::nat) < 1" by simp
  show ?thesis using Pow_NBit_reads_bit_n [OF v n] v by simp
qed




text \<open>
  Claim C2 (bounded completeness of the certificate). As stated, the claim says that for
  every width \<open>n \<ge> 2\<close> and every prime \<open>p\<close> below \<open>2\<^sup>n\<close> the clauses of
  \<open>IsPrime("target", n, n)\<close>, with the target pinned to \<open>p\<close> and the constants asserted, can
  be satisfied. At width 17 they cannot for the prime 5. \<open>PowMod_NBit\<close> works on 34 bits
  there and sets its first partial result with \<open>Input_Equals_Number(\<dots>, 1, 34)\<close>, which
  tests \<^verbatim>\<open>(1 >> i) & 1\<close> for \<open>i\<close> up to 33: the shift by 32 gives bit 0 again, so the
  partial result starts at \<open>2\<^sup>3\<^sup>2 + 1\<close> and not at 1. The closing Fermat test of the slot that
  holds the target then asks for \<open>(2\<^sup>3\<^sup>2 + 1) \<sqdot> g\<^sup>4 mod 5 = 1\<close>, which no \<open>g\<close> satisfies.
\<close>

theorem IsPrime_incomplete_at_width_17:
  "is_prime 5 \<and> (5::nat) < 2 ^ 17 \<and>
   (\<nexists>\<sigma>. sat \<sigma> (fst (IsPrime ''target'' 17 17 st)) \<and> pinned \<sigma> ''target'' 17 5 \<and>
        val \<sigma> (''One_NBit_'' @ Z 17) 17 = 1 \<and> val \<sigma> (''One_NBit_'' @ Z 34) 34 = 1 \<and>
        \<not> \<sigma> (''Zero_1Bit_'' @ Z 1))"
proof (intro conjI)
  show "is_prime 5" by code_simp
  show "(5::nat) < 2 ^ 17" by simp
  show "\<nexists>\<sigma>. sat \<sigma> (fst (IsPrime ''target'' 17 17 st)) \<and> pinned \<sigma> ''target'' 17 5 \<and>
        val \<sigma> (''One_NBit_'' @ Z 17) 17 = 1 \<and> val \<sigma> (''One_NBit_'' @ Z 34) 34 = 1 \<and>
        \<not> \<sigma> (''Zero_1Bit_'' @ Z 1)"
    using IsPrime_17_5_unsat by blast
qed

end
